(* ===== verification/Prelude.thy ===== *)
theory Prelude
  imports Main "HOL-Library.Word"
begin

text \<open>
  Shared vocabulary of the development: the machine types of the x86_64 build
  of NRE, the error values by which the model represents exceptions, null
  dereferences and undefined behaviour, and the generic facts about words and
  lists that the component theories use.
\<close>

unbundle bit_operations_syntax

named_theorems nre_defs \<open>definitions that are unfolded when a component is evaluated\<close>
named_theorems nre_word \<open>rewrite rules that turn word statements into natural number statements\<close>

section \<open>Machine types\<close>

text \<open>\<^verbatim>\<open>include/arch/Types.h\<close> and \<^verbatim>\<open>include/arch/x86_64/Types.h\<close>: on x86_64
  \<^verbatim>\<open>word_t\<close>, \<^verbatim>\<open>uintptr_t\<close> and \<^verbatim>\<open>size_t\<close> are 64 bits wide, \<^verbatim>\<open>uint\<close> and
  \<^verbatim>\<open>capsel_t\<close> are 32 bits wide, \<^verbatim>\<open>cpu_t\<close> is an \<^verbatim>\<open>unsigned char\<close>.\<close>

type_synonym u8 = "8 word"
type_synonym u16 = "16 word"
type_synonym u32 = "32 word"
type_synonym u64 = "64 word"
type_synonym capsel = "32 word"
type_synonym timevalue = "64 word"

section \<open>Errors as values\<close>

text \<open>The error codes of \<^verbatim>\<open>include/Errors.h\<close>.\<close>

datatype error_code =
    E_SUCCESS | E_TIMEOUT | E_ABORT | E_SYS | E_CAP | E_PAR | E_FTR | E_CPU | E_DEV
  | E_ASSERT | E_NO_CAP_SELS | E_UTCB_UNTYPED | E_UTCB_TYPED | E_CAPACITY | E_NOT_FOUND
  | E_EXISTS | E_ELF_INVALID | E_ELF_SIG | E_ARGS_INVALID | E_FAILURE

text \<open>A computation of the model either returns a value or ends in an
  abnormal way: it throws an exception that carries an error code, or it
  performs an operation that C++ leaves undefined (a null dereference, an
  access out of bounds, a shift by the width of the operand).\<close>

datatype abnormal = Throw error_code | Undefined

type_synonym 'a res = "abnormal + 'a"

definition bindR :: "'a res \<Rightarrow> ('a \<Rightarrow> 'b res) \<Rightarrow> 'b res" where
  "bindR m f = (case m of Inl e \<Rightarrow> Inl e | Inr a \<Rightarrow> f a)"

text \<open>What the comparison functions handed to the containers have to be.\<close>

definition strict_weak :: "('a \<Rightarrow> 'a \<Rightarrow> bool) \<Rightarrow> bool" where
  "strict_weak isless \<longleftrightarrow> (\<forall>x y. isless x y \<longrightarrow> \<not> isless y x) \<and>
     (\<forall>x y z. \<not> isless y x \<longrightarrow> \<not> isless z y \<longrightarrow> \<not> isless z x)"

section \<open>Lemmas on results\<close>

lemma strict_weakD:
  assumes "strict_weak isless"
  shows "isless x y \<Longrightarrow> \<not> isless y x"
    and "\<not> isless y x \<Longrightarrow> \<not> isless z y \<Longrightarrow> \<not> isless z x"
  using assms unfolding strict_weak_def by blast+

lemma strict_weak_key: "strict_weak (\<lambda>x y. f x < (f y :: 'b::linorder))"
  unfolding strict_weak_def not_less by (blast intro: order_trans less_imp_le)

lemma bindR_simps [simp]:
  "bindR (Inl e) f = Inl e"
  "bindR (Inr a) f = f a"
  by (simp_all add: bindR_def)

lemma bindR_eq_Inr: "bindR m f = Inr b \<longleftrightarrow> (\<exists>a. m = Inr a \<and> f a = Inr b)"
  by (cases m) simp_all

lemma bindR_eq_Inl: "bindR m f = Inl e \<longleftrightarrow> m = Inl e \<or> (\<exists>a. m = Inr a \<and> f a = Inl e)"
  by (cases m) simp_all

section \<open>Lemmas on words\<close>

lemma unat_add_small [nre_word]:
  fixes a b :: "'a::len word"
  assumes "unat a + unat b < 2 ^ LENGTH('a)"
  shows "unat (a + b) = unat a + unat b"
  using assms by (simp add: unat_word_ariths)

lemma unat_mult_small [nre_word]:
  fixes a b :: "'a::len word"
  assumes "unat a * unat b < 2 ^ LENGTH('a)"
  shows "unat (a * b) = unat a * unat b"
  using assms by (simp add: unat_word_ariths)

lemma unat_diff_small [nre_word]:
  fixes a b :: "'a::len word"
  assumes "b \<le> a"
  shows "unat (a - b) = unat a - unat b"
  using assms by (simp add: unat_sub)

lemma and_not_mask_bit:
  fixes v :: "'a::len word"
  shows "v AND NOT (mask k) = v - (v AND mask k)"
proof -
  have "(v AND mask k) + (v AND NOT (mask k)) = (v AND mask k) OR (v AND NOT (mask k))"
    by (rule disjunctive_add) (simp add: bit_simps)
  also have "\<dots> = v" by (rule bit_eqI) (auto simp: bit_simps)
  finally show ?thesis by (simp add: algebra_simps)
qed

lemma unat_and_mask:
  fixes v :: "'a::len word"
  shows "unat (v AND mask k) = unat v mod 2 ^ k"
proof -
  have "unat (v AND mask k) = unat (take_bit k v)" by (simp add: take_bit_eq_mask)
  also have "\<dots> = take_bit k (unat v)" by (rule unsigned_take_bit_eq)
  finally show ?thesis by (simp add: take_bit_eq_mod)
qed

lemma unat_and_not_mask:
  fixes v :: "'a::len word"
  shows "unat (v AND NOT (mask k)) = unat v - unat v mod 2 ^ k"
proof -
  have "v AND mask k \<le> v"
    by (simp add: word_le_nat_alt unat_and_mask)
  then show ?thesis by (simp add: and_not_mask_bit unat_diff_small unat_and_mask)
qed

lemma pow2_minus_1_mask: "(2::'a::len word) ^ k - 1 = mask k"
  by (simp add: mask_eq_exp_minus_1)

lemma unat_bound: "unat (v::'a::len word) < 2 ^ LENGTH('a)"
  by (rule unsigned_less)

lemma unat_push_bit_small [nre_word]:
  fixes v :: "'a::len word"
  assumes "unat v * 2 ^ k < 2 ^ LENGTH('a)"
  shows "unat (push_bit k v) = unat v * 2 ^ k"
proof -
  have "unat (push_bit k v) = take_bit LENGTH('a) (push_bit k (unat v))"
    by (rule unsigned_push_bit_eq)
  also have "push_bit k (unat v) = unat v * 2 ^ k" by (rule push_bit_eq_mult)
  finally show ?thesis using assms by (simp add: take_bit_nat_eq_self)
qed

lemma unat_drop_bit: "unat (drop_bit k (v::'a::len word)) = unat v div 2 ^ k"
proof -
  have "unat (drop_bit k v) = drop_bit k (take_bit LENGTH('a) (unat v))"
    by (rule unsigned_drop_bit_eq)
  then show ?thesis by (simp add: drop_bit_eq_div take_bit_nat_eq_self unat_bound)
qed

lemma unat_drop_bit_less:
  assumes "(v::'a::len word) \<noteq> 0" "0 < k"
  shows "unat (drop_bit k v) < unat v"
proof -
  have "0 < unat v" using assms(1) by (simp add: unat_gt_0)
  moreover have "(1 :: nat) < 2 ^ k" using assms(2) by (intro one_less_power) simp_all
  ultimately show ?thesis by (simp add: unat_drop_bit div_less_dividend)
qed

lemma unat_ucast: "unat (ucast (v::'a::len word) :: 'b::len word) = unat v mod 2 ^ LENGTH('b)"
  by (simp add: unsigned_ucast_eq take_bit_eq_mod)

lemma pow2_dvd_word_iff:
  fixes v :: "'a::len word"
  shows "2 ^ k dvd unat v \<longleftrightarrow> (\<forall>i < k. \<not> bit v i)"
proof -
  have "2 ^ k dvd unat v \<longleftrightarrow> unat (take_bit k v) = 0"
    by (simp only: take_bit_eq_mask unat_and_mask dvd_eq_mod_eq_0)
  also have "\<dots> \<longleftrightarrow> take_bit k v = 0" by (simp only: unsigned_eq_0_iff)
  also have "\<dots> \<longleftrightarrow> (\<forall>i < k. \<not> bit v i)"
    by (auto simp: bit_eq_iff [of "take_bit k v"] bit_simps dest: bit_imp_le_length)
  finally show ?thesis .
qed

lemma unat_less_pow2_iff:
  fixes v :: "'a::len word"
  shows "unat v < 2 ^ k \<longleftrightarrow> (\<forall>i \<ge> k. \<not> bit v i)"
proof -
  have "unat v < 2 ^ k \<longleftrightarrow> unat (take_bit k v) = unat v"
    by (simp only: unsigned_take_bit_eq take_bit_nat_eq_self_iff)
  also have "\<dots> \<longleftrightarrow> take_bit k v = v" by (simp only: unsigned_word_eqI word_unat_eq_iff)
  also have "\<dots> \<longleftrightarrow> (\<forall>i \<ge> k. \<not> bit v i)"
    by (auto simp: bit_eq_iff [of "take_bit k v"] bit_simps dest: bit_imp_le_length) (meson leI)
  finally show ?thesis .
qed

lemma len64: "LENGTH(64) = 64"
  by simp

lemma len32: "LENGTH(32) = 32"
  by simp

lemma unat_pow2:
  assumes "k < LENGTH('a)"
  shows "unat ((2::'a::len word) ^ k) = 2 ^ k"
proof -
  have "unat ((of_nat (2 ^ k)) :: 'a word) = 2 ^ k"
    using assms by (simp only: unat_of_nat) simp
  then show ?thesis by simp
qed

section \<open>Lemmas on lists\<close>

lemma distinct_update_nth:
  assumes "i < length xs" "distinct xs" "x \<notin> set xs"
  shows "distinct (xs[i := x])"
  using assms by (simp add: distinct_list_update)

end
