(* ===== verification/MathUtil.thy ===== *)
theory MathUtil
  imports Prelude
begin

text \<open>
  The arithmetic helpers of \<^verbatim>\<open>include/util/Math.h\<close>. Template parameters become
  a word of arbitrary length. The gcc builtins take an \<^verbatim>\<open>unsigned int\<close>, so a wider
  argument is truncated to its low 32 bits, and the count of leading or trailing
  zeros of zero is undefined.
\<close>

section \<open>Definitions\<close>

definition round_up :: "'a::len word \<Rightarrow> 'a word \<Rightarrow> 'a word" where
  "round_up value align = (value + align - 1) AND NOT (align - 1)"

definition round_dn :: "'a::len word \<Rightarrow> 'a word \<Rightarrow> 'a word" where
  "round_dn value align = value AND NOT (align - 1)"

definition from_bcd :: "u8 \<Rightarrow> u8" where
  "from_bcd value = (value AND 0xf) + (drop_bit 4 value) * 10"

definition to_bcd :: "u8 \<Rightarrow> u8" where
  "to_bcd value = push_bit 4 (value div 10) + value mod 10"

text \<open>\<^verbatim>\<open>moddiv\<close> and \<^verbatim>\<open>divmod\<close> return the result and the new content of the
  reference argument. A zero divisor traps.\<close>

definition moddiv :: "'a::len word \<Rightarrow> 'a word \<Rightarrow> ('a word \<times> 'a word) res" where
  "moddiv value divisor =
     (if divisor = 0 then Inl Undefined else Inr (value mod divisor, value div divisor))"

definition divmod :: "'a::len word \<Rightarrow> 'a word \<Rightarrow> ('a word \<times> 'a word) res" where
  "divmod value divisor =
     (if divisor = 0 then Inl Undefined else Inr (value div divisor, value mod divisor))"

definition muldiv128 :: "u64 \<Rightarrow> u64 \<Rightarrow> u64 \<Rightarrow> u64 res" where
  "muldiv128 value factor divisor =
     (let low = (ucast (value AND 0xFFFFFFFF) :: u32);
          high = (ucast (drop_bit 32 value) :: u32);
          lower = (ucast low :: u64) * factor;
          upper = (ucast high :: u64) * factor
      in bindR (moddiv upper divisor) (\<lambda>(r, upper').
         let rem = (ucast r :: u32);
             lower' = lower + push_bit 32 (ucast rem :: u64)
         in Inr (push_bit 32 upper' + lower' div divisor)))"

definition blockcount :: "'a::len word \<Rightarrow> 'a word \<Rightarrow> 'a word res" where
  "blockcount value blocksize =
     (if blocksize = 0 then Inl Undefined else Inr ((value + blocksize - 1) div blocksize))"

definition popcount :: "u32 \<Rightarrow> int" where
  "popcount v = int (length (filter (bit v) [0..<32]))"

definition in_range :: "u64 \<Rightarrow> u64 \<Rightarrow> u64 \<Rightarrow> bool" where
  "in_range address base sz \<longleftrightarrow> base \<le> address \<and> address \<le> base + sz - 1"

definition overlapped :: "u64 \<Rightarrow> u64 \<Rightarrow> u64 \<Rightarrow> u64 \<Rightarrow> bool" where
  "overlapped b1 s1 b2 s2 \<longleftrightarrow>
     (let e1 = b1 + s1; e2 = b2 + s2
      in (b1 \<ge> b2 \<and> b1 < e2) \<or> (e1 > b2 \<and> e1 \<le> e2) \<or> (b1 < b2 \<and> e1 > e2))"

text \<open>The compiler builtins: position-based counts on a 32-bit argument.\<close>

definition builtin_clz :: "u32 \<Rightarrow> u32 res" where
  "builtin_clz v = (case find (bit v) (rev [0..<32]) of
      None \<Rightarrow> Inl Undefined | Some p \<Rightarrow> Inr (of_nat (31 - p)))"

definition builtin_ctz :: "u32 \<Rightarrow> u32 res" where
  "builtin_ctz v = (case find (bit v) [0..<32] of
      None \<Rightarrow> Inl Undefined | Some p \<Rightarrow> Inr (of_nat p))"

definition bit_scan_reverse :: "'a::len word \<Rightarrow> 'a word res" where
  "bit_scan_reverse value = bindR (builtin_clz (ucast value)) (\<lambda>c. Inr (ucast (c XOR 0x1F)))"

definition bit_scan_forward :: "'a::len word \<Rightarrow> 'a word res" where
  "bit_scan_forward value = bindR (builtin_ctz (ucast value)) (\<lambda>c. Inr (ucast c))"

definition is_pow2 :: "'a::len word \<Rightarrow> bool" where
  "is_pow2 value \<longleftrightarrow> value AND (value - 1) = 0"

text \<open>\<^verbatim>\<open>1 << n\<close> is computed on \<^verbatim>\<open>int\<close>: a shift by 32 or more is undefined, and the
  result is sign-extended when it is converted to the template type.\<close>

definition shl_int_1 :: "'a::len word \<Rightarrow> 'a word res" where
  "shl_int_1 n = (if 32 \<le> unat n then Inl Undefined
                  else Inr (scast (push_bit (unat n) 1 :: u32)))"

definition prev_pow2_shift :: "'a::len word \<Rightarrow> 'a word res" where
  "prev_pow2_shift value =
     (if value \<le> 1 then Inr value
      else if \<not> is_pow2 value then bindR (bit_scan_reverse value) (\<lambda>p. Inr (p - 1))
      else bit_scan_reverse value)"

definition prev_pow2 :: "'a::len word \<Rightarrow> 'a word res" where
  "prev_pow2 value = bindR (prev_pow2_shift value) shl_int_1"

definition next_pow2_shift :: "'a::len word \<Rightarrow> 'a word res" where
  "next_pow2_shift value =
     (if value = 0 then Inr 0
      else if \<not> is_pow2 value then bindR (bit_scan_reverse value) (\<lambda>p. Inr (p + 1))
      else bit_scan_reverse value)"

definition next_pow2 :: "'a::len word \<Rightarrow> 'a word res" where
  "next_pow2 value =
     (if is_pow2 value then Inr value else bindR (next_pow2_shift value) shl_int_1)"

definition minshift :: "u64 \<Rightarrow> u64 \<Rightarrow> u32 res" where
  "minshift start sz =
     bindR (bit_scan_forward (start OR push_bit 63 1)) (\<lambda>b.
     bindR (bit_scan_reverse (sz OR 1)) (\<lambda>s.
       let basealign = (ucast b :: u32); shiftalign = (ucast s :: u32)
       in Inr (if basealign < shiftalign then basealign else shiftalign)))"

section \<open>Rounding, BCD and scaling\<close>

lemma unat_round_dn:
  fixes v :: "'a::len word"
  shows "unat (round_dn v (2 ^ k)) = unat v - unat v mod 2 ^ k"
  by (simp add: round_dn_def pow2_minus_1_mask unat_and_not_mask)

lemma unat_round_up:
  fixes v :: "'a::len word"
  assumes "k < LENGTH('a)" "unat v + 2 ^ k \<le> 2 ^ LENGTH('a)"
  shows "unat (round_up v (2 ^ k)) = (unat v + 2 ^ k - 1) div 2 ^ k * 2 ^ k"
proof -
  have p: "unat (2 ^ k - 1 :: 'a word) = 2 ^ k - 1"
    using assms(1) by (subst unat_diff_small) (simp_all add: word_le_nat_alt unat_pow2 del: unsigned_numeral)
  have "unat (v + (2 ^ k - 1)) = unat v + (2 ^ k - 1)"
    using assms(2) zero_less_power [of "2::nat" k] by (subst unat_add_small) (simp_all only: p, linarith)
  then have "unat (v + 2 ^ k - 1) = unat v + 2 ^ k - 1"
    by (simp add: add_diff_eq)
  then show ?thesis
    by (simp add: round_up_def pow2_minus_1_mask unat_and_not_mask minus_mod_eq_div_mult)
qed

lemma from_bcd_to_bcd:
  assumes "v < 100"
  shows "from_bcd (to_bcd v) = v"
proof -
  have all: "\<forall>n \<in> set [0..<100]. from_bcd (to_bcd (of_nat n)) = of_nat n" by code_simp
  have "unat v < 100" using assms by (simp add: word_less_nat_alt)
  then show ?thesis using bspec [OF all, of "unat v"] by simp
qed

lemma to_bcd_from_bcd:
  assumes "v AND 0xf < 10" "drop_bit 4 v < 10"
  shows "to_bcd (from_bcd v) = v"
proof -
  have all: "\<forall>n \<in> set [0..<256]. (of_nat n :: u8) AND 0xf < 10 \<longrightarrow> drop_bit 4 (of_nat n :: u8) < 10
      \<longrightarrow> to_bcd (from_bcd (of_nat n)) = of_nat n" by code_simp
  have "unat v < 256" using unat_bound [of v] by simp
  then show ?thesis using bspec [OF all, of "unat v"] assms by simp
qed

section \<open>Ranges\<close>

lemma in_range_iff:
  assumes "0 < sz" "unat base + unat sz \<le> 2 ^ 64"
  shows "in_range a base sz \<longleftrightarrow> unat base \<le> unat a \<and> unat a < unat base + unat sz"
proof -
  have s1: "unat (sz - 1) = unat sz - 1" using assms(1) by (simp add: unat_diff_small word_le_nat_alt word_less_nat_alt)
  have s0: "0 < unat sz" using assms(1) by (simp add: word_less_nat_alt)
  have "unat (base + (sz - 1)) = unat base + (unat sz - 1)"
    using assms(2) s0 by (subst unat_add_small) (simp_all add: s1)
  then show ?thesis using s0 by (auto simp: in_range_def word_le_nat_alt add_diff_eq)
qed

lemma overlapped_iff:
  assumes "0 < s1" "0 < s2" "unat b1 + unat s1 < 2 ^ 64" "unat b2 + unat s2 < 2 ^ 64"
  shows "overlapped b1 s1 b2 s2 \<longleftrightarrow>
    {unat b1 ..< unat b1 + unat s1} \<inter> {unat b2 ..< unat b2 + unat s2} \<noteq> {}"
proof -
  have e: "unat (b1 + s1) = unat b1 + unat s1" "unat (b2 + s2) = unat b2 + unat s2"
    using assms by (simp_all add: unat_add_small)
  have z: "0 < unat s1" "0 < unat s2" using assms by (simp_all add: word_less_nat_alt)
  have "overlapped b1 s1 b2 s2 \<longleftrightarrow> unat b1 < unat b2 + unat s2 \<and> unat b2 < unat b1 + unat s1"
    using z by (auto simp: overlapped_def Let_def word_le_nat_alt word_less_nat_alt e)
  also have "\<dots> \<longleftrightarrow> max (unat b1) (unat b2) \<in> {unat b1 ..< unat b1 + unat s1} \<inter> {unat b2 ..< unat b2 + unat s2}"
    using z by auto
  also have "\<dots> \<longleftrightarrow> {unat b1 ..< unat b1 + unat s1} \<inter> {unat b2 ..< unat b2 + unat s2} \<noteq> {}"
    by auto
  finally show ?thesis .
qed

section \<open>The 128-bit multiply and divide\<close>

lemma muldiv128_nat:
  fixes H L f d B :: nat
  shows "(H * B + L) * f div d = H * f div d * B + (L * f + H * f mod d * B) div d"
proof (cases "d = 0")
  case False
  have shuffle: "(d * q + r) * B + l = (l + r * B) + (q * B) * d" for q r l :: nat
    by (simp add: algebra_simps)
  have "(H * B + L) * f = (H * f) * B + L * f" by (simp add: algebra_simps)
  also have "\<dots> = (d * (H * f div d) + H * f mod d) * B + L * f" by (simp only: mult_div_mod_eq)
  also have "\<dots> = (L * f + H * f mod d * B) + (H * f div d * B) * d" by (rule shuffle)
  finally show ?thesis using False by (simp only: div_mult_self1) simp
qed simp

lemma muldiv128_no_carry:
  fixes L f d r B :: nat
  assumes "L < B" "f + d \<le> B" "r < d"
  shows "L * f + r * B < B * B"
proof -
  have "L * f + r * B \<le> B * f + r * B" using assms(1) by simp
  also have "\<dots> = B * (f + r)" by (simp add: algebra_simps)
  also have "\<dots> < B * B" using assms by (intro mult_strict_left_mono) auto
  finally show ?thesis .
qed

lemma muldiv128_unat:
  assumes "0 < d" "unat f + unat d \<le> 2 ^ 32" "unat v * unat f div unat d < 2 ^ 64"
  shows "\<exists>r. muldiv128 v f d = Inr r \<and> unat r = unat v * unat f div unat d"
proof -
  define H L where "H = unat v div 2 ^ 32" and "L = unat v mod 2 ^ 32"
  have v: "unat v = H * 2 ^ 32 + L" by (simp only: H_def L_def div_mult_mod_eq)
  have H: "H < 2 ^ 32" using unat_bound [of v] by (simp add: H_def less_mult_imp_div_less)
  have L: "L < 2 ^ 32" by (simp add: L_def)
  have d: "0 < unat d" using assms(1) by (simp add: word_less_nat_alt)
  have m: "(0xFFFFFFFF::u64) = mask 32" by (simp add: mask_eq_exp_minus_1)
  have low: "unat (ucast (ucast (v AND 0xFFFFFFFF) :: u32) :: u64) = L"
    unfolding m unat_ucast unat_and_mask L_def by simp
  have high: "unat (ucast (ucast (drop_bit 32 v) :: u32) :: u64) = H"
    using H unfolding unat_ucast unat_drop_bit H_def by simp
  have f: "unat f < 2 ^ 32" "unat d \<le> 2 ^ 32" using assms(2) d by auto
  have "L * unat f < 2 ^ 32 * 2 ^ 32" using L f by (intro mult_strict_mono) auto
  then have Lf: "L * unat f < 2 ^ 64" by (simp only: power_add [symmetric]) simp
  have lower: "unat (ucast (ucast (v AND 0xFFFFFFFF) :: u32) * f) = L * unat f"
    using Lf by (subst unat_mult_small) (simp_all only: low len64)
  have "H * unat f < 2 ^ 32 * 2 ^ 32" using H f by (intro mult_strict_mono) auto
  then have Hf: "H * unat f < 2 ^ 64" by (simp only: power_add [symmetric]) simp
  then have upper: "unat (ucast (ucast (drop_bit 32 v) :: u32) * f) = H * unat f"
    by (subst unat_mult_small) (simp_all only: high len64)
  define r where "r = H * unat f mod unat d"
  have r: "r < unat d" using d by (simp add: r_def)
  let ?up = "ucast (ucast (drop_bit 32 v) :: u32) * f :: u64"
  have rem: "unat (ucast (ucast (?up mod d) :: u32) :: u64) = r"
    using r f by (simp only: unat_ucast unat_mod_distrib upper r_def [symmetric]) simp
  have sum: "L * unat f + r * 2 ^ 32 < 2 ^ 64" using muldiv128_no_carry [OF L assms(2) r] by simp
  have lower': "unat (ucast (ucast (v AND 0xFFFFFFFF) :: u32) * f
      + push_bit 32 (ucast (ucast (?up mod d) :: u32) :: u64)) = L * unat f + r * 2 ^ 32"
  proof -
    have "r * 2 ^ 32 < 2 ^ 64" using sum by simp
    then have "unat (push_bit 32 (ucast (ucast (?up mod d) :: u32) :: u64)) = r * 2 ^ 32"
      by (subst unat_push_bit_small) (simp_all only: rem len64)
    then show ?thesis using sum by (subst unat_add_small) (simp_all only: lower len64)
  qed
  have tot: "unat v * unat f div unat d = H * unat f div unat d * 2 ^ 32 + (L * unat f + r * 2 ^ 32) div unat d"
    unfolding v r_def by (rule muldiv128_nat)
  have "unat (push_bit 32 (?up div d) + (ucast (ucast (v AND 0xFFFFFFFF) :: u32) * f
      + push_bit 32 (ucast (ucast (?up mod d) :: u32) :: u64)) div d) = unat v * unat f div unat d"
    (is "unat (?A + ?B) = _")
  proof -
    have le: "H * unat f div unat d * 2 ^ 32 < 2 ^ 64" using assms(3) unfolding tot by (rule le_less_trans [rotated]) simp
    have A: "unat ?A = H * unat f div unat d * 2 ^ 32"
      using le by (subst unat_push_bit_small) (simp_all only: unat_div_distrib upper len64)
    have B: "unat ?B = (L * unat f + r * 2 ^ 32) div unat d"
      by (simp only: unat_div_distrib lower')
    show ?thesis using assms(3) by (subst unat_add_small) (simp_all only: A B tot len64)
  qed
  moreover have "d \<noteq> 0" using d by auto
  ultimately show ?thesis
    unfolding muldiv128_def moddiv_def Let_def by (simp only: bindR_simps if_False prod.case) blast
qed

section \<open>Bit scans and powers of two\<close>

lemma find_upt_Some:
  "find P [0..<n] = Some p \<longleftrightarrow> p < n \<and> P p \<and> (\<forall>i < p. \<not> P i)"
  by (auto simp: find_Some_iff)

lemma find_rev_upt_Some:
  "find P (rev [0..<n]) = Some p \<longleftrightarrow> p < n \<and> P p \<and> (\<forall>i < n. p < i \<longrightarrow> \<not> P i)"
proof (induction n)
  case (Suc n)
  show ?case
  proof (cases "P n")
    case True
    then show ?thesis by (auto simp: less_Suc_eq)
  next
    case False
    then show ?thesis using Suc by (auto simp: less_Suc_eq)
  qed
qed simp

lemma builtin_ctz_Inr:
  assumes "builtin_ctz v = Inr c"
  shows "\<exists>p < 32. c = of_nat p \<and> bit v p \<and> (\<forall>i < p. \<not> bit v i)"
proof -
  from assms obtain p where "find (bit v) [0..<32] = Some p" "c = of_nat p"
    by (auto simp: builtin_ctz_def split: option.splits)
  then show ?thesis unfolding find_upt_Some by blast
qed

lemma builtin_ctz_zero: "builtin_ctz 0 = Inl Undefined"
  by code_simp

lemma builtin_ctz_defined:
  assumes "v \<noteq> 0" shows "\<exists>c. builtin_ctz v = Inr c"
proof -
  from assms obtain i where "bit v i" by (auto simp: bit_eq_iff)
  moreover from this have "i < 32" using bit_imp_le_length [of v i] by simp
  ultimately show ?thesis
    by (cases "find (bit v) [0..<32]") (auto simp: builtin_ctz_def find_None_iff)
qed

lemma builtin_clz_defined:
  assumes "v \<noteq> 0" shows "\<exists>c. builtin_clz v = Inr c"
proof -
  from assms obtain i where "bit v i" by (auto simp: bit_eq_iff)
  moreover from this have "i < 32" using bit_imp_le_length [of v i] by simp
  ultimately show ?thesis
    by (cases "find (bit v) (rev [0..<32])") (auto simp: builtin_clz_def find_None_iff)
qed

lemma clz_xor: "p < 32 \<Longrightarrow> (of_nat (31 - p) :: u32) XOR 0x1F = of_nat p"
proof -
  have "\<forall>p \<in> set [0..<32]. (of_nat (31 - p) :: u32) XOR 0x1F = of_nat p" by code_simp
  then show "p < 32 \<Longrightarrow> ?thesis" by simp
qed

lemma bit_scan_reverse_spec:
  fixes v :: u64
  assumes "0 < unat v" "unat v < 2 ^ 32"
  shows "\<exists>p < 32. bit_scan_reverse v = Inr (of_nat p) \<and> 2 ^ p \<le> unat v \<and> unat v < 2 ^ Suc p"
proof -
  let ?w = "ucast v :: u32"
  have w: "unat ?w = unat v" using assms by (simp add: unat_ucast)
  then have "?w \<noteq> 0" using assms by auto
  then obtain c where c: "builtin_clz ?w = Inr c" using builtin_clz_defined by blast
  then obtain p where p: "find (bit ?w) (rev [0..<32]) = Some p" "c = of_nat (31 - p)"
    by (auto simp: builtin_clz_def split: option.splits)
  then have q: "p < 32" "bit ?w p" "\<forall>i < 32. p < i \<longrightarrow> \<not> bit ?w i"
    unfolding find_rev_upt_Some by blast+
  have "\<not> bit ?w i" if "Suc p \<le> i" for i
    using q(3) that bit_imp_le_length [of ?w i] by (cases "i < 32") auto
  then have hi: "unat ?w < 2 ^ Suc p" by (simp only: unat_less_pow2_iff) blast
  have lo: "\<not> unat ?w < 2 ^ p" using q(2) by (auto simp only: unat_less_pow2_iff)
  have "bit_scan_reverse v = Inr (of_nat p)"
    unfolding bit_scan_reverse_def c p(2) bindR_simps clz_xor [OF q(1)]
    using q(1) by (simp add: unsigned_of_nat take_bit_nat_eq_self)
  then show ?thesis using q(1) hi lo w by auto
qed

lemma bit_scan_forward_spec:
  fixes v :: u64
  assumes "unat v mod 2 ^ 32 \<noteq> 0"
  shows "\<exists>p < 32. bit_scan_forward v = Inr (of_nat p) \<and> 2 ^ p dvd unat v \<and> \<not> 2 ^ Suc p dvd unat v"
proof -
  let ?w = "ucast v :: u32"
  have w: "unat ?w = unat v mod 2 ^ 32" by (simp add: unat_ucast)
  then have "?w \<noteq> 0" using assms by auto
  then obtain c where c: "builtin_ctz ?w = Inr c" using builtin_ctz_defined by blast
  then obtain p where p: "p < 32" "c = of_nat p" "bit ?w p" "\<forall>i < p. \<not> bit ?w i"
    using builtin_ctz_Inr by blast
  have b: "bit ?w i = bit v i" if "i < 32" for i using that by (simp add: bit_simps)
  have "2 ^ p dvd unat v" using p b by (auto simp: pow2_dvd_word_iff)
  moreover have "\<not> 2 ^ Suc p dvd unat v" using p b by (auto simp only: pow2_dvd_word_iff)
  moreover have "bit_scan_forward v = Inr (of_nat p)"
    using c p(1,2) by (simp add: bit_scan_forward_def unsigned_of_nat take_bit_nat_eq_self)
  ultimately show ?thesis using p(1) by blast
qed

lemma bit_or_high: "bit (start OR push_bit 63 1 :: u64) i \<longleftrightarrow> bit start i \<or> i = 63"
  by (auto simp only: bit_or_iff bit_push_bit_iff bit_1_iff possible_bit_word len64)

lemma minshift_largest:
  assumes "unat start mod 2 ^ 32 \<noteq> 0" "0 < unat sz" "unat sz < 2 ^ 32"
  shows "\<exists>s. minshift start sz = Inr s \<and> 2 ^ unat s dvd unat start \<and> 2 ^ unat s \<le> unat sz
    \<and> (\<forall>t. 2 ^ t dvd unat start \<and> 2 ^ t \<le> unat sz \<longrightarrow> t \<le> unat s)"
proof -
  let ?b = "start OR push_bit 63 1" and ?z = "sz OR 1"
  have low: "bit ?b i = bit start i" if "i < 63" for i using that by (simp only: bit_or_high) simp
  have dv: "2 ^ k dvd unat ?b \<longleftrightarrow> 2 ^ k dvd unat start" if "k \<le> 32" for k
    using that low unfolding pow2_dvd_word_iff by auto
  have zb: "bit ?z i \<longleftrightarrow> bit sz i \<or> i = 0" for i by (auto simp: bit_simps)
  have zl: "unat ?z < 2 ^ k \<longleftrightarrow> unat sz < 2 ^ k" if "0 < k" for k
    using that unfolding unat_less_pow2_iff zb by auto
  have "unat ?b mod 2 ^ 32 \<noteq> 0" using assms(1) dv [OF order_refl] by (simp only: dvd_eq_mod_eq_0) blast
  then obtain p where p: "p < 32" "bit_scan_forward ?b = Inr (of_nat p)" "2 ^ p dvd unat ?b"
      "\<not> 2 ^ Suc p dvd unat ?b"
    using bit_scan_forward_spec by blast
  have "unat ?z \<noteq> 0" using zb [of 0] by (metis bit_0_eq bot_apply unsigned_eq_0_iff bot_bool_def)
  moreover have "unat ?z < 2 ^ 32" using assms(3) zl [of 32] by simp
  ultimately obtain q where q: "q < 32" "bit_scan_reverse ?z = Inr (of_nat q)" "2 ^ q \<le> unat ?z"
      "unat ?z < 2 ^ Suc q"
    using bit_scan_reverse_spec by blast
  have qs: "2 ^ q \<le> unat sz" using q(3) zl [of q] assms(2) by (cases q) (auto simp: not_less [symmetric])
  have qs': "unat sz < 2 ^ Suc q" using q(4) zl [of "Suc q"] by simp
  have "minshift start sz = Inr (of_nat (min p q))"
    using p(1,2) q(1,2) by (simp add: minshift_def Let_def unsigned_of_nat take_bit_nat_eq_self word_less_nat_alt min_def)
  moreover have "unat (of_nat (min p q) :: u32) = min p q"
    using p(1) q(1) by (simp add: unat_of_nat)
  moreover have "2 ^ min p q dvd unat start" using p(1,3) dv [of p] by (metis dvd_trans le_imp_power_dvd less_imp_le min.cobounded1)
  moreover have "(2::nat) ^ min p q \<le> unat sz" using qs by (metis le_trans min.cobounded2 one_le_numeral power_increasing)
  moreover have "t \<le> min p q" if "2 ^ t dvd unat start" "2 ^ t \<le> unat sz" for t
  proof -
    have "t \<le> p"
    proof (rule ccontr)
      assume "\<not> t \<le> p"
      then have "2 ^ Suc p dvd unat start" using that(1) by (metis dvd_trans le_imp_power_dvd not_less_eq_eq)
      then show False using p(1,4) dv [of "Suc p"] by simp
    qed
    moreover have "t \<le> q" using le_less_trans [OF that(2) qs'] by (simp only: power_strict_increasing_iff one_less_numeral_iff semiring_norm less_Suc_eq_le)
    ultimately show ?thesis by simp
  qed
  ultimately show ?thesis by auto
qed

lemma minshift_undefined:
  assumes "unat start mod 2 ^ 32 = 0"
  shows "minshift start sz = Inl Undefined"
proof -
  have "\<not> bit start i" if "i < 32" for i
    using assms that unfolding dvd_eq_mod_eq_0 [symmetric] pow2_dvd_word_iff by blast
  then have "(ucast (start OR push_bit 63 1) :: u32) = 0"
    by (intro bit_eqI) (simp only: bit_ucast_iff bit_or_high, simp)
  then show ?thesis by (simp add: minshift_def bit_scan_forward_def builtin_ctz_zero)
qed

lemma bit_msb:
  fixes v :: "'a::len word"
  assumes "2 ^ p \<le> unat v" "unat v < 2 ^ Suc p"
  shows "bit v p"
proof -
  from assms(1) have "\<not> unat v < 2 ^ p" by simp
  then obtain i where i: "p \<le> i" "bit v i" unfolding unat_less_pow2_iff by blast
  moreover have "\<not> bit v i" if "Suc p \<le> i" using assms(2) that unfolding unat_less_pow2_iff by blast
  ultimately show ?thesis by (cases "i = p") auto
qed

lemma is_pow2_iff:
  fixes v :: "'a::len word"
  assumes "2 ^ p \<le> unat v" "unat v < 2 ^ Suc p"
  shows "is_pow2 v \<longleftrightarrow> unat v = 2 ^ p"
proof
  assume a: "is_pow2 v"
  show "unat v = 2 ^ p"
  proof (rule ccontr)
    assume "unat v \<noteq> 2 ^ p"
    have "0 < unat v" using assms(1) by (metis less_le_trans zero_less_numeral zero_less_power)
    then have u: "unat (v - 1) = unat v - 1" by (subst unat_diff_small) (simp_all add: word_le_nat_alt)
    have "bit v p" using assms by (rule bit_msb)
    moreover have "bit (v - 1) p"
      using assms \<open>unat v \<noteq> 2 ^ p\<close> by (intro bit_msb) (simp_all add: u)
    ultimately have "bit (v AND (v - 1)) p" by (simp add: bit_and_iff)
    then show False using a by (simp add: is_pow2_def)
  qed
next
  assume e: "unat v = 2 ^ p"
  have "p < LENGTH('a)" using unat_bound [of v] by (simp add: e)
  then have v: "v = 2 ^ p" using e by (simp add: word_unat_eq_iff unat_pow2)
  show "is_pow2 v" unfolding is_pow2_def v pow2_minus_1_mask
    by (auto intro!: bit_eqI simp: bit_simps)
qed

lemma shl_int_1_pow2:
  assumes "k < 31"
  shows "shl_int_1 (of_nat k :: u64) = Inr (2 ^ k)"
proof -
  have "\<forall>k \<in> set [0..<31]. shl_int_1 (of_nat k :: u64) = Inr (2 ^ k)" by code_simp
  then show ?thesis using assms by simp
qed

lemma next_pow2_spec:
  fixes v :: u64
  assumes "0 < unat v" "unat v \<le> 2 ^ 30"
  shows "\<exists>k. next_pow2 v = Inr (2 ^ k) \<and> unat v \<le> 2 ^ k \<and> 2 ^ k < 2 * unat v \<and> k \<le> 30"
proof -
  have "unat v < 2 ^ 32" using assms by simp
  then obtain p where p: "bit_scan_reverse v = Inr (of_nat p)" "2 ^ p \<le> unat v" "unat v < 2 ^ Suc p"
    using bit_scan_reverse_spec [OF assms(1)] by blast
  have "(2::nat) ^ p \<le> 2 ^ 30" using p(2) assms(2) by (rule le_trans)
  then have p30: "p \<le> 30" by (simp only: power_increasing_iff one_less_numeral_iff semiring_norm)
  show ?thesis
  proof (cases "unat v = 2 ^ p")
    case True
    then have "next_pow2 v = Inr v" using is_pow2_iff [OF p(2,3)] by (simp add: next_pow2_def)
    moreover have "v = 2 ^ p" using True p30 by (simp add: word_unat_eq_iff unat_pow2)
    ultimately show ?thesis using True p30 by (intro exI [of _ p]) simp
  next
    case False
    then have np: "\<not> is_pow2 v" using is_pow2_iff [OF p(2,3)] by simp
    have "(2::nat) ^ p < 2 ^ 30" using False p(2) assms(2) by linarith
    then have p29: "p < 30" by (simp only: power_strict_increasing_iff one_less_numeral_iff semiring_norm)
    have "v \<noteq> 0" using assms(1) by auto
    then have "next_pow2_shift v = Inr (of_nat (Suc p))"
      using np p(1) by (simp add: next_pow2_shift_def add.commute)
    then have "next_pow2 v = Inr (2 ^ Suc p)"
      using np p29 shl_int_1_pow2 [of "Suc p"] by (simp only: next_pow2_def if_False bindR_simps)
    moreover have "2 ^ Suc p < 2 * unat v" using False p(2) by simp
    ultimately show ?thesis using p(3) p29 by (intro exI [of _ "Suc p"]) simp
  qed
qed

lemma prev_pow2_of_pow2:
  assumes "1 \<le> k" "k < 31"
  shows "prev_pow2 (2 ^ k :: u64) = Inr (2 ^ k)"
proof -
  have "\<forall>k \<in> set [1..<31]. prev_pow2 (2 ^ k :: u64) = Inr (2 ^ k)" by code_simp
  then show ?thesis using assms by simp
qed

lemma prev_pow2_of_other:
  fixes v :: u64
  assumes "2 ^ k < unat v" "unat v < 2 ^ Suc k" "1 \<le> k" "k < 32"
  shows "prev_pow2 v = Inr (2 ^ (k - 1))"
proof -
  have "(2::nat) ^ Suc k \<le> 2 ^ 32" using assms(4) by (intro power_increasing) auto
  then have b: "0 < unat v" "unat v < 2 ^ 32" using assms(1,2) by linarith+
  obtain p where p: "bit_scan_reverse v = Inr (of_nat p)" "2 ^ p \<le> unat v" "unat v < 2 ^ Suc p"
    using bit_scan_reverse_spec [OF b] by blast
  have "(2::nat) ^ p < 2 ^ Suc k" "(2::nat) ^ k < 2 ^ Suc p" using p assms(1,2) by linarith+
  then have pk: "p = k" by (simp only: power_strict_increasing_iff one_less_numeral_iff semiring_norm)
  have "\<not> is_pow2 v" using is_pow2_iff [OF p(2,3)] assms(1) pk by simp
  moreover have "\<not> v \<le> 1"
  proof -
    have "(2::nat) ^ 1 \<le> 2 ^ k" using assms(3) by (intro power_increasing) auto
    then show ?thesis using assms(1) by (simp add: word_le_nat_alt)
  qed
  ultimately have "prev_pow2_shift v = Inr (of_nat (k - 1))"
    using p(1) assms(3) by (simp add: prev_pow2_shift_def pk of_nat_diff)
  then show ?thesis using shl_int_1_pow2 [of "k - 1"] assms(4) by (simp add: prev_pow2_def)
qed

end
