(* ===== verification/ListContract.thy ===== *)
theory ListContract
  imports Prelude
begin

text \<open>
  The contract of the intrusive lists of \<^verbatim>\<open>include/collection\<close>: appending a node that is
  not in the list and removing one that is. The users of the lists (the region
  manager, the registries, the timeout list) rely on these laws only, which is why
  their models hold plain sequences.
\<close>

datatype 'n list_op = Append 'n | Remove 'n

text \<open>The effect of a sequence of operations on the abstract sequence; \<^term>\<open>None\<close> when an
  operation is used outside its contract.\<close>

fun abs_run :: "'n list \<Rightarrow> 'n list_op list \<Rightarrow> 'n list option" where
  "abs_run xs [] = Some xs"
| "abs_run xs (Append e # ops) = (if e \<in> set xs then None else abs_run (xs @ [e]) ops)"
| "abs_run xs (Remove e # ops) = (if e \<in> set xs then abs_run (remove1 e xs) ops else None)"

fun run_ops :: "('s \<Rightarrow> 'n \<Rightarrow> 's res) \<Rightarrow> ('s \<Rightarrow> 'n \<Rightarrow> 's res) \<Rightarrow> 's \<Rightarrow> 'n list_op list \<Rightarrow> 's res" where
  "run_ops app rem s [] = Inr s"
| "run_ops app rem s (Append e # ops) = bindR (app s e) (\<lambda>s'. run_ops app rem s' ops)"
| "run_ops app rem s (Remove e # ops) = bindR (rem s e) (\<lambda>s'. run_ops app rem s' ops)"

text \<open>The same for lists that may be asked to remove a node they do not hold: the result tells whether it was there,
  and the list of the results belongs to the effect.\<close>

fun abs_results :: "'n list \<Rightarrow> 'n list_op list \<Rightarrow> (bool list \<times> 'n list) option" where
  "abs_results xs [] = Some ([], xs)"
| "abs_results xs (Append e # ops) = (if e \<in> set xs then None else abs_results (xs @ [e]) ops)"
| "abs_results xs (Remove e # ops) = map_option (\<lambda>(bs, ys). ((e \<in> set xs) # bs, ys)) (abs_results (remove1 e xs) ops)"

fun run_results :: "('s \<Rightarrow> 'n \<Rightarrow> 's res) \<Rightarrow> ('s \<Rightarrow> 'n \<Rightarrow> (bool \<times> 's) res) \<Rightarrow> 's \<Rightarrow> 'n list_op list \<Rightarrow> (bool list \<times> 's) res" where
  "run_results app rem s [] = Inr ([], s)"
| "run_results app rem s (Append e # ops) = bindR (app s e) (\<lambda>s'. run_results app rem s' ops)"
| "run_results app rem s (Remove e # ops) =
     bindR (rem s e) (\<lambda>(b, s'). bindR (run_results app rem s' ops) (\<lambda>(bs, s''). Inr (b # bs, s'')))"

locale intrusive_list =
  fixes inv :: "'s \<Rightarrow> 'n list \<Rightarrow> bool"
    and app :: "'s \<Rightarrow> 'n \<Rightarrow> 's res"
    and rem :: "'s \<Rightarrow> 'n \<Rightarrow> 's res"
  assumes app_law: "inv s xs \<Longrightarrow> e \<notin> set xs \<Longrightarrow> \<exists>s'. app s e = Inr s' \<and> inv s' (xs @ [e])"
    and rem_law: "inv s xs \<Longrightarrow> e \<in> set xs \<Longrightarrow> \<exists>s'. rem s e = Inr s' \<and> inv s' (remove1 e xs)"
begin

lemma run_refines:
  assumes "inv s xs" "abs_run xs ops = Some ys"
  shows "\<exists>s'. run_ops app rem s ops = Inr s' \<and> inv s' ys"
  using assms
proof (induction ops arbitrary: s xs)
  case (Cons op ops)
  show ?case
  proof (cases op)
    case (Append e)
    then have e: "e \<notin> set xs" "abs_run (xs @ [e]) ops = Some ys"
      using Cons.prems(2) by (simp_all split: if_splits)
    obtain s' where s': "app s e = Inr s'" "inv s' (xs @ [e])"
      using app_law [OF Cons.prems(1) e(1)] by blast
    show ?thesis using Cons.IH [OF s'(2) e(2)] by (simp add: Append s'(1))
  next
    case (Remove e)
    then have e: "e \<in> set xs" "abs_run (remove1 e xs) ops = Some ys"
      using Cons.prems(2) by (simp_all split: if_splits)
    obtain s' where s': "rem s e = Inr s'" "inv s' (remove1 e xs)"
      using rem_law [OF Cons.prems(1) e(1)] by blast
    show ?thesis using Cons.IH [OF s'(2) e(2)] by (simp add: Remove s'(1))
  qed
qed simp

lemma append_then_remove:
  assumes "inv s xs" "e \<notin> set xs"
  shows "\<exists>s'. run_ops app rem s [Append e, Remove e] = Inr s' \<and> inv s' xs"
  by (rule run_refines [OF assms(1)]) (simp add: assms(2) remove1_append)

end

locale searching_list =
  fixes inv :: "'s \<Rightarrow> 'n list \<Rightarrow> bool"
    and app :: "'s \<Rightarrow> 'n \<Rightarrow> 's res"
    and rem :: "'s \<Rightarrow> 'n \<Rightarrow> (bool \<times> 's) res"
  assumes append_law: "inv s xs \<Longrightarrow> e \<notin> set xs \<Longrightarrow> \<exists>s'. app s e = Inr s' \<and> inv s' (xs @ [e])"
    and remove_law: "inv s xs \<Longrightarrow> \<exists>s'. rem s e = Inr (e \<in> set xs, s') \<and> inv s' (remove1 e xs)"
begin

lemma run_results_refine:
  assumes "inv s xs" "abs_results xs ops = Some (bs, ys)"
  shows "\<exists>s'. run_results app rem s ops = Inr (bs, s') \<and> inv s' ys"
  using assms
proof (induction ops arbitrary: s xs bs)
  case (Cons op ops)
  show ?case
  proof (cases op)
    case (Append e)
    then have e: "e \<notin> set xs" "abs_results (xs @ [e]) ops = Some (bs, ys)"
      using Cons.prems(2) by (simp_all split: if_splits)
    obtain s' where s': "app s e = Inr s'" "inv s' (xs @ [e])"
      using append_law [OF Cons.prems(1) e(1)] by blast
    show ?thesis using Cons.IH [OF s'(2) e(2)] by (simp add: Append s'(1))
  next
    case (Remove e)
    then obtain cs where e: "abs_results (remove1 e xs) ops = Some (cs, ys)" "bs = (e \<in> set xs) # cs"
      using Cons.prems(2) by auto
    obtain s' where s': "rem s e = Inr (e \<in> set xs, s')" "inv s' (remove1 e xs)"
      using remove_law [OF Cons.prems(1)] by blast
    show ?thesis using Cons.IH [OF s'(2) e(1)] by (auto simp: Remove s'(1) e(2))
  qed
qed simp

end

text \<open>Without its result, such a list fulfils the contract above.\<close>

sublocale searching_list \<subseteq> plain: intrusive_list inv app "\<lambda>s e. bindR (rem s e) (\<lambda>(_, s'). Inr s')"
proof
  fix s xs e
  assume i: "inv s xs"
  show "\<exists>s'. app s e = Inr s' \<and> inv s' (xs @ [e])" if "e \<notin> set xs" using append_law [OF i that] .
  show "\<exists>s'. bindR (rem s e) (\<lambda>(_, s'). Inr s') = Inr s' \<and> inv s' (remove1 e xs)" if "e \<in> set xs"
    using remove_law [OF i, of e] by auto
qed

end
