(* ===== verification/SList.thy ===== *)
theory SList
  imports ListContract "HOL-Library.Multiset"
begin

text \<open>
  The intrusive singly linked list of \<^verbatim>\<open>include/collection/SList.h\<close> and its sorted
  variant of \<^verbatim>\<open>include/collection/SortedSList.h\<close>, at the level of pointers: a node is an
  address, the \<^verbatim>\<open>_next\<close> fields of all nodes form a heap, and the operations update
  the heap. The lemmas show that the operations implement list operations on the
  sequence of nodes that the pointers spell out.
\<close>

section \<open>Definitions\<close>

type_synonym node = nat
type_synonym ptr = "node option"
type_synonym next_heap = "node \<Rightarrow> ptr"

record slist =
  sl_head :: ptr
  sl_tail :: ptr
  sl_len :: u64

definition slist_init :: slist where
  "slist_init = \<lparr>sl_head = None, sl_tail = None, sl_len = 0\<rparr>"

text \<open>Writing through a pointer: a null pointer is not a valid target.\<close>

definition set_next :: "next_heap \<Rightarrow> ptr \<Rightarrow> ptr \<Rightarrow> next_heap res" where
  "set_next h p v = (case p of None \<Rightarrow> Inl Undefined | Some n \<Rightarrow> Inr (h(n := v)))"

text \<open>The iterator step \<^verbatim>\<open>operator++\<close>.\<close>

definition slist_iter_next :: "next_heap \<Rightarrow> ptr \<Rightarrow> ptr res" where
  "slist_iter_next h it = (case it of None \<Rightarrow> Inl Undefined | Some n \<Rightarrow> Inr (h n))"

definition slist_append :: "slist \<Rightarrow> next_heap \<Rightarrow> node \<Rightarrow> (slist \<times> next_heap \<times> ptr) res" where
  "slist_append l h e =
     bindR (if sl_head l = None then Inr (l\<lparr>sl_head := Some e\<rparr>, h)
            else bindR (set_next h (sl_tail l) (Some e)) (\<lambda>h'. Inr (l, h')))
       (\<lambda>(l, h). Inr (l\<lparr>sl_tail := Some e, sl_len := sl_len l + 1\<rparr>, h(e := None), Some e))"

definition slist_insert :: "slist \<Rightarrow> next_heap \<Rightarrow> ptr \<Rightarrow> node \<Rightarrow> slist \<times> next_heap \<times> ptr" where
  "slist_insert l h p e =
     (let h = h(e := (case p of Some q \<Rightarrow> h q | None \<Rightarrow> sl_head l));
          (l, h) = (case p of Some q \<Rightarrow> (l, h(q := Some e)) | None \<Rightarrow> (l\<lparr>sl_head := Some e\<rparr>, h));
          l = (if h e = None then l\<lparr>sl_tail := Some e\<rparr> else l)
      in (l\<lparr>sl_len := sl_len l + 1\<rparr>, h, Some e))"

text \<open>The search loop of \<^verbatim>\<open>remove\<close>; the value \<^term>\<open>None\<close> stands for a loop that does not end,
  as on a cyclic chain of nodes.\<close>

partial_function (option) slist_search :: "next_heap \<Rightarrow> node \<Rightarrow> ptr \<Rightarrow> ptr \<Rightarrow> (ptr \<times> ptr) option" where
  "slist_search h e t p =
     (case t of None \<Rightarrow> Some (t, p)
      | Some n \<Rightarrow> if n \<noteq> e then slist_search h e (h n) t else Some (t, p))"

declare slist_search.simps [code]

definition slist_remove :: "slist \<Rightarrow> next_heap \<Rightarrow> node \<Rightarrow> (bool \<times> slist \<times> next_heap) option" where
  "slist_remove l h e =
     (case slist_search h e (sl_head l) None of
        None \<Rightarrow> None
      | Some (None, p) \<Rightarrow> Some (False, l, h)
      | Some (Some _, p) \<Rightarrow>
          let (l, h) = (case p of Some q \<Rightarrow> (l, h(q := h e)) | None \<Rightarrow> (l\<lparr>sl_head := h e\<rparr>, h));
              l = (if h e = None then l\<lparr>sl_tail := p\<rparr> else l)
          in Some (True, l\<lparr>sl_len := sl_len l - 1\<rparr>, h))"

text \<open>\<^verbatim>\<open>SortedSList::insert\<close>: the comparison function is a parameter of the class.\<close>

partial_function (option) sorted_search ::
    "(node \<Rightarrow> node \<Rightarrow> bool) \<Rightarrow> next_heap \<Rightarrow> node \<Rightarrow> ptr \<Rightarrow> ptr \<Rightarrow> ptr option" where
  "sorted_search isless h e it p =
     (case it of None \<Rightarrow> Some p
      | Some n \<Rightarrow> if isless n e then sorted_search isless h e (h n) it else Some p)"

declare sorted_search.simps [code]

definition sorted_insert ::
    "(node \<Rightarrow> node \<Rightarrow> bool) \<Rightarrow> slist \<Rightarrow> next_heap \<Rightarrow> node \<Rightarrow> (slist \<times> next_heap \<times> ptr) option" where
  "sorted_insert isless l h e =
     map_option (\<lambda>p. slist_insert l h p e) (sorted_search isless h e (sl_head l) None)"

definition sorted_remove :: "slist \<Rightarrow> next_heap \<Rightarrow> node \<Rightarrow> (bool \<times> slist \<times> next_heap) option" where
  "sorted_remove l h e = slist_remove l h e"

text \<open>The abstraction: a chain of pointers spells out a list of nodes.\<close>

fun links :: "next_heap \<Rightarrow> ptr \<Rightarrow> node list \<Rightarrow> ptr \<Rightarrow> bool" where
  "links h p [] q \<longleftrightarrow> p = q"
| "links h p (x # xs) q \<longleftrightarrow> p = Some x \<and> links h (h x) xs q"

definition slist_inv :: "slist \<times> next_heap \<Rightarrow> node list \<Rightarrow> bool" where
  "slist_inv s xs \<longleftrightarrow> (case s of (l, h) \<Rightarrow>
     links h (sl_head l) xs None \<and> distinct xs \<and>
     sl_tail l = (if xs = [] then None else Some (last xs)) \<and>
     sl_len l = of_nat (length xs))"

text \<open>The sequence operations that the list implements.\<close>

definition insert_after :: "ptr \<Rightarrow> node \<Rightarrow> node list \<Rightarrow> node list" where
  "insert_after p e xs = (case p of None \<Rightarrow> e # xs
     | Some q \<Rightarrow> takeWhile (\<lambda>x. x \<noteq> q) xs @ q # e # tl (dropWhile (\<lambda>x. x \<noteq> q) xs))"

definition insert_sorted :: "(node \<Rightarrow> node \<Rightarrow> bool) \<Rightarrow> node \<Rightarrow> node list \<Rightarrow> node list" where
  "insert_sorted isless e xs =
     takeWhile (\<lambda>x. isless x e) xs @ e # dropWhile (\<lambda>x. isless x e) xs"

text \<open>The two operations of the list contract of \<^verbatim>\<open>ListContract\<close>.\<close>

definition slist_app :: "slist \<times> next_heap \<Rightarrow> node \<Rightarrow> (slist \<times> next_heap) res" where
  "slist_app s e = (case s of (l, h) \<Rightarrow> bindR (slist_append l h e) (\<lambda>(l', h', _). Inr (l', h')))"

definition slist_rem :: "slist \<times> next_heap \<Rightarrow> node \<Rightarrow> (bool \<times> slist \<times> next_heap) res" where
  "slist_rem s e = (case s of (l, h) \<Rightarrow>
     (case slist_remove l h e of None \<Rightarrow> Inl Undefined | Some (b, l', h') \<Rightarrow> Inr (b, l', h')))"

section \<open>Chains of links\<close>

lemma links_append [simp]:
  "links h p (xs @ ys) q \<longleftrightarrow> (\<exists>r. links h p xs r \<and> links h r ys q)"
  by (induction xs arbitrary: p) auto

lemma links_upd [simp]:
  "x \<notin> set xs \<Longrightarrow> links (h(x := v)) p xs q \<longleftrightarrow> links h p xs q"
  by (induction xs arbitrary: p) auto

lemma links_snoc_upd:
  assumes "links h p (xs @ [x]) q" "x \<notin> set xs"
  shows "links (h(x := v)) p (xs @ [x]) v"
  using assms by auto

lemma links_None: "links h None xs q \<longleftrightarrow> xs = [] \<and> q = None"
  by (cases xs) auto

lemma links_head: "xs \<noteq> [] \<Longrightarrow> links h p xs q \<Longrightarrow> p = Some (hd xs)"
  by (cases xs) auto

section \<open>The operations on sequences of nodes\<close>

lemma slist_search_found:
  assumes "links h t (ys @ e # zs) None" "e \<notin> set ys"
  shows "slist_search h e t p = Some (Some e, if ys = [] then p else Some (last ys))"
  using assms
proof (induction ys arbitrary: t p)
  case Nil
  then show ?case by (subst slist_search.simps) simp
next
  case (Cons y ys)
  then show ?case by (subst slist_search.simps) auto
qed

lemma slist_search_missing:
  assumes "links h t xs None" "e \<notin> set xs"
  shows "\<exists>q. slist_search h e t p = Some (None, q)"
  using assms
proof (induction xs arbitrary: t p)
  case Nil
  then show ?case by (subst slist_search.simps) simp
next
  case (Cons y ys)
  then show ?case by (subst slist_search.simps) auto
qed

lemma sorted_search_stop:
  assumes "links h t (ys @ zs) None" "\<forall>y \<in> set ys. isless y e" "zs \<noteq> [] \<Longrightarrow> \<not> isless (hd zs) e"
  shows "sorted_search isless h e t p = Some (if ys = [] then p else Some (last ys))"
  using assms
proof (induction ys arbitrary: t p)
  case Nil
  then show ?case by (subst sorted_search.simps) (cases zs; auto)
next
  case (Cons y ys)
  then show ?case by (subst sorted_search.simps) auto
qed

lemma slist_init_inv: "slist_inv (slist_init, h) []"
  by (simp add: slist_inv_def slist_init_def)

lemma slist_append_inv:
  assumes "slist_inv (l, h) xs" "e \<notin> set xs"
  shows "\<exists>l' h'. slist_append l h e = Inr (l', h', Some e) \<and> slist_inv (l', h') (xs @ [e])"
proof (cases xs rule: rev_cases)
  case Nil
  then show ?thesis using assms by (simp add: slist_inv_def slist_append_def)
next
  case (snoc ys y)
  have "links h (sl_head l) (ys @ [y]) None" "y \<notin> set ys" and t: "sl_tail l = Some y" "sl_head l \<noteq> None"
    using assms snoc by (cases "sl_head l"; auto simp: slist_inv_def links_None)+
  then have "links (h(y := Some e)) (sl_head l) (ys @ [y]) (Some e)" by (intro links_snoc_upd)
  then have "links (h(y := Some e, e := None)) (sl_head l) (xs @ [e]) None"
    using assms(2) snoc by auto
  then show ?thesis using assms snoc t
    by (auto simp: slist_inv_def slist_append_def set_next_def)
qed

lemma slist_insert_front_inv:
  assumes "slist_inv (l, h) xs" "e \<notin> set xs"
  shows "\<exists>l' h'. slist_insert l h None e = (l', h', Some e) \<and> slist_inv (l', h') (e # xs)"
  using assms by (cases xs) (auto simp: slist_inv_def slist_insert_def links_None)

lemma slist_insert_after_inv:
  assumes "slist_inv (l, h) (ys @ q # zs)" "e \<notin> set (ys @ q # zs)"
  shows "\<exists>l' h'. slist_insert l h (Some q) e = (l', h', Some e) \<and> slist_inv (l', h') (ys @ q # e # zs)"
  using assms by (cases zs) (auto simp: slist_inv_def slist_insert_def links_None)

lemma slist_remove_inv:
  assumes "slist_inv (l, h) (ys @ e # zs)"
  shows "\<exists>l' h'. slist_remove l h e = Some (True, l', h') \<and> slist_inv (l', h') (ys @ zs)"
proof -
  have s: "slist_search h e (sl_head l) None = Some (Some e, if ys = [] then None else Some (last ys))"
    using assms by (intro slist_search_found) (auto simp: slist_inv_def)
  show ?thesis
  proof (cases ys rule: rev_cases)
    case Nil
    then show ?thesis using assms s
      by (cases zs) (auto simp: slist_inv_def slist_remove_def links_None)
  next
    case (snoc ws w)
    then show ?thesis using assms s
      by (cases zs) (auto simp: slist_inv_def slist_remove_def links_None)
  qed
qed

lemma slist_remove_missing:
  assumes "slist_inv (l, h) xs" "e \<notin> set xs"
  shows "slist_remove l h e = Some (False, l, h)"
  using assms slist_search_missing [of h "sl_head l" xs e None]
  by (auto simp: slist_inv_def slist_remove_def)

lemma insert_after_split:
  "q \<notin> set ys \<Longrightarrow> insert_after (Some q) e (ys @ q # zs) = ys @ q # e # zs"
  by (simp add: insert_after_def takeWhile_append dropWhile_append)

lemma sorted_insert_inv:
  assumes "slist_inv (l, h) xs" "e \<notin> set xs"
  shows "\<exists>l' h'. sorted_insert isless l h e = Some (l', h', Some e)
    \<and> slist_inv (l', h') (insert_sorted isless e xs)"
proof -
  define ys zs where "ys = takeWhile (\<lambda>x. isless x e) xs" and "zs = dropWhile (\<lambda>x. isless x e) xs"
  have xs: "xs = ys @ zs" by (simp add: ys_def zs_def)
  have z: "\<not> isless (hd zs) e" if "zs \<noteq> []" using that unfolding zs_def by (rule hd_dropWhile)
  have y: "\<forall>y \<in> set ys. isless y e" by (auto simp: ys_def dest: set_takeWhileD)
  have "sorted_search isless h e (sl_head l) None = Some (if ys = [] then None else Some (last ys))"
    using assms(1) y z by (intro sorted_search_stop) (auto simp: slist_inv_def xs)
  moreover have "insert_sorted isless e xs = ys @ e # zs"
    by (simp add: insert_sorted_def ys_def zs_def)
  moreover have "\<exists>l' h'. slist_insert l h (if ys = [] then None else Some (last ys)) e = (l', h', Some e)
      \<and> slist_inv (l', h') (ys @ e # zs)"
  proof (cases ys rule: rev_cases)
    case Nil
    then show ?thesis using slist_insert_front_inv [OF assms] xs by simp
  next
    case (snoc ws w)
    then show ?thesis using slist_insert_after_inv [of l h ws w zs e] assms xs by simp
  qed
  ultimately show ?thesis by (auto simp: sorted_insert_def)
qed

lemma insert_sorted_sorted:
  assumes "sorted_wrt (\<lambda>x y. \<not> isless y x) xs"
    and "strict_weak isless"
  shows "sorted_wrt (\<lambda>x y. \<not> isless y x) (insert_sorted isless e xs)"
proof -
  define ys zs where "ys = takeWhile (\<lambda>x. isless x e) xs" and "zs = dropWhile (\<lambda>x. isless x e) xs"
  have xs: "xs = ys @ zs" by (simp add: ys_def zs_def)
  have y: "isless y e" if "y \<in> set ys" for y using that by (auto simp: ys_def dest: set_takeWhileD)
  have s: "sorted_wrt (\<lambda>x y. \<not> isless y x) (ys @ zs)" using assms(1) xs by simp
  have z: "\<not> isless z e" if "z \<in> set zs" for z
  proof (cases zs)
    case (Cons a as)
    then have "\<not> isless a e" using hd_dropWhile [of "\<lambda>x. isless x e" xs] by (simp add: zs_def)
    moreover have "z = a \<or> \<not> isless z a" using s Cons that by (auto simp: sorted_wrt_append)
    ultimately show ?thesis using strict_weakD(2) [OF assms(2)] by blast
  qed (use that in simp)
  show ?thesis using s y z strict_weakD(1) [OF assms(2)] unfolding insert_sorted_def ys_def [symmetric] zs_def [symmetric]
    by (auto simp: sorted_wrt_append)
qed

section \<open>The list contract\<close>

interpretation slist: searching_list slist_inv slist_app slist_rem
proof
  fix s :: "slist \<times> next_heap" and xs and e :: node
  obtain l h where s: "s = (l, h)" by (cases s)
  assume i: "slist_inv s xs"
  show "\<exists>s'. slist_app s e = Inr s' \<and> slist_inv s' (xs @ [e])" if "e \<notin> set xs"
    using slist_append_inv [of l h xs e] i that by (auto simp: s slist_app_def)
  show "\<exists>s'. slist_rem s e = Inr (e \<in> set xs, s') \<and> slist_inv s' (remove1 e xs)"
  proof (cases "e \<in> set xs")
    case True
    then obtain ys zs where xs: "xs = ys @ e # zs" "e \<notin> set ys"
      using split_list_first [OF True] by blast
    then show ?thesis using slist_remove_inv [of l h ys e zs] i
      by (auto simp: s slist_rem_def remove1_append)
  next
    case False
    then show ?thesis using slist_remove_missing [of l h xs e] i by (simp add: s slist_rem_def remove1_idem)
  qed
qed

text \<open>Claim C18. Every sequence of \<^verbatim>\<open>SList::append\<close> and \<^verbatim>\<open>SList::remove\<close> calls that appends only nodes outside the list runs to
  its end without dereferencing a null pointer; each remove, of a node that may or may not be in the list, returns
  whether it was; and head, tail, length and the \<^verbatim>\<open>_next\<close> pointers describe exactly the sequence that the same
  operations produce on an abstract list.\<close>

theorem slist_implements_list:
  assumes "abs_results [] ops = Some (bs, ys)"
  shows "\<exists>s. run_results slist_app slist_rem (slist_init, h) ops = Inr (bs, s) \<and> slist_inv s ys"
  using slist_init_inv assms by (rule slist.run_results_refine)

theorem slist_implements_list_witness:
  "\<exists>s. run_results slist_app slist_rem (slist_init, \<lambda>_. None)
     [Append 1, Append 2, Append 3, Remove 2, Remove 4, Append 2, Remove 1] = Inr ([True, False, True], s) \<and> slist_inv s [3, 2]"
  by (rule slist_implements_list) simp

text \<open>Claim C36. \<^verbatim>\<open>SortedSList::insert\<close> keeps the list sorted: on a well-formed list that is
  sorted with respect to a strict weak order, inserting a new node ends, keeps the
  pointer structure well formed, adds exactly this node and yields a sorted list.\<close>

theorem sorted_slist_insert_sorted:
  assumes "slist_inv (l, h) xs" "e \<notin> set xs"
    and "sorted_wrt (\<lambda>x y. \<not> isless y x) xs"
    and "strict_weak isless"
  shows "\<exists>l' h' ys. sorted_insert isless l h e = Some (l', h', Some e) \<and> slist_inv (l', h') ys
    \<and> sorted_wrt (\<lambda>x y. \<not> isless y x) ys \<and> mset ys = add_mset e (mset xs)"
proof -
  have "mset (insert_sorted isless e xs) = add_mset e (mset xs)"
    unfolding insert_sorted_def by simp (metis mset_append takeWhile_dropWhile_id)
  then show ?thesis
    using sorted_insert_inv [OF assms(1,2), of isless] insert_sorted_sorted [OF assms(3,4)] by blast
qed

theorem sorted_slist_insert_sorted_witness:
  "\<exists>l' h' ys. sorted_insert (<) \<lparr>sl_head = Some 1, sl_tail = Some 5, sl_len = 2\<rparr>
      ((\<lambda>_. None)(1 := Some 5)) 3 = Some (l', h', Some 3)
    \<and> slist_inv (l', h') ys \<and> sorted_wrt (\<lambda>x y. \<not> y < x) ys
    \<and> mset ys = add_mset 3 (mset [1, 5])"
proof (rule sorted_slist_insert_sorted)
  show "strict_weak ((<) :: nat \<Rightarrow> nat \<Rightarrow> bool)" by (rule strict_weak_key)
qed (simp_all add: slist_inv_def)

end
