(* ===== verification/DList.thy ===== *)
theory DList
  imports SList
begin

text \<open>
  The intrusive doubly linked list of \<^verbatim>\<open>include/collection/DList.h\<close> at the level of
  pointers: the \<^verbatim>\<open>_prev\<close> and \<^verbatim>\<open>_next\<close> fields of all nodes form a heap. The lemmas show
  that both directions of links always spell out the same sequence, and that the
  list meets the contract of \<^verbatim>\<open>ListContract\<close>.
\<close>

section \<open>Definitions\<close>

record dheap =
  dl_prev :: next_heap
  dl_next :: next_heap

record dlist =
  dl_head :: ptr
  dl_tail :: ptr
  dl_len :: u64

definition dlist_init :: dlist where
  "dlist_init = \<lparr>dl_head = None, dl_tail = None, dl_len = 0\<rparr>"

text \<open>Iterators are pairs of the previous and the current node.\<close>

definition dlist_begin :: "dlist \<Rightarrow> ptr \<times> ptr" where
  "dlist_begin l = (None, dl_head l)"

definition dlist_end :: "dlist \<Rightarrow> ptr \<times> ptr" where
  "dlist_end l = (dl_tail l, None)"

definition dlist_iter_dec :: "dheap \<Rightarrow> ptr \<times> ptr \<Rightarrow> ptr \<times> ptr" where
  "dlist_iter_dec h it = (case it of (p, n) \<Rightarrow>
     (case p of None \<Rightarrow> (None, None) | Some q \<Rightarrow> (dl_prev h q, p)))"

definition dlist_iter_inc :: "dheap \<Rightarrow> ptr \<times> ptr \<Rightarrow> (ptr \<times> ptr) res" where
  "dlist_iter_inc h it = (case it of (p, n) \<Rightarrow>
     (case n of None \<Rightarrow> Inl Undefined | Some q \<Rightarrow> Inr (n, dl_next h q)))"

definition dlist_append :: "dlist \<Rightarrow> dheap \<Rightarrow> node \<Rightarrow> (dlist \<times> dheap \<times> ptr \<times> ptr) res" where
  "dlist_append l h e =
     bindR (if dl_head l = None then Inr (l\<lparr>dl_head := Some e\<rparr>, h)
            else bindR (set_next (dl_next h) (dl_tail l) (Some e))
                   (\<lambda>n. Inr (l, h\<lparr>dl_next := n\<rparr>)))
       (\<lambda>(l, h).
          let h = h\<lparr>dl_prev := (dl_prev h)(e := dl_tail l)\<rparr>;
              h = h\<lparr>dl_next := (dl_next h)(e := None)\<rparr>;
              l = l\<lparr>dl_tail := Some e\<rparr>;
              l = l\<lparr>dl_len := dl_len l + 1\<rparr>
          in Inr (l, h, dl_prev h e, Some e))"

definition dlist_remove :: "dlist \<Rightarrow> dheap \<Rightarrow> node \<Rightarrow> dlist \<times> dheap" where
  "dlist_remove l h e =
     (let h = (case dl_prev h e of None \<Rightarrow> h
               | Some p \<Rightarrow> h\<lparr>dl_next := (dl_next h)(p := dl_next h e)\<rparr>);
          h = (case dl_next h e of None \<Rightarrow> h
               | Some n \<Rightarrow> h\<lparr>dl_prev := (dl_prev h)(n := dl_prev h e)\<rparr>);
          l = (if dl_head l = Some e then l\<lparr>dl_head := dl_next h e\<rparr> else l);
          l = (if dl_tail l = Some e then l\<lparr>dl_tail := dl_prev h e\<rparr> else l)
      in (l\<lparr>dl_len := dl_len l - 1\<rparr>, h))"

definition dlist_inv :: "dlist \<times> dheap \<Rightarrow> node list \<Rightarrow> bool" where
  "dlist_inv s xs \<longleftrightarrow> (case s of (l, h) \<Rightarrow>
     links (dl_next h) (dl_head l) xs None \<and> links (dl_prev h) (dl_tail l) (rev xs) None \<and>
     distinct xs \<and> dl_len l = of_nat (length xs))"

definition dlist_app :: "dlist \<times> dheap \<Rightarrow> node \<Rightarrow> (dlist \<times> dheap) res" where
  "dlist_app s e = (case s of (l, h) \<Rightarrow> bindR (dlist_append l h e) (\<lambda>(l', h', _). Inr (l', h')))"

definition dlist_rem :: "dlist \<times> dheap \<Rightarrow> node \<Rightarrow> (dlist \<times> dheap) res" where
  "dlist_rem s e = (case s of (l, h) \<Rightarrow> Inr (dlist_remove l h e))"

section \<open>The operations on sequences of nodes\<close>

lemma dlist_init_inv: "dlist_inv (dlist_init, h) []"
  by (simp add: dlist_inv_def dlist_init_def)

lemma dlist_append_inv:
  assumes "dlist_inv (l, h) xs" "e \<notin> set xs"
  shows "\<exists>l' h' p. dlist_append l h e = Inr (l', h', p, Some e) \<and> dlist_inv (l', h') (xs @ [e])"
proof (cases xs rule: rev_cases)
  case Nil
  then show ?thesis using assms by (simp add: dlist_inv_def dlist_append_def)
next
  case (snoc ys y)
  have "links (dl_next h) (dl_head l) (ys @ [y]) None" "y \<notin> set ys"
    and t: "dl_tail l = Some y" "dl_head l \<noteq> None"
    using assms snoc by (cases "dl_head l"; auto simp: dlist_inv_def links_None)+
  then have "links ((dl_next h)(y := Some e)) (dl_head l) (ys @ [y]) (Some e)" by (intro links_snoc_upd)
  then have "links ((dl_next h)(y := Some e, e := None)) (dl_head l) (xs @ [e]) None"
    using assms(2) snoc by auto
  then show ?thesis using assms snoc t
    by (auto simp: dlist_inv_def dlist_append_def set_next_def Let_def)
qed

lemma dlist_links_around:
  assumes "dlist_inv (l, h) (ys @ e # zs)"
  shows "dl_prev h e = (if ys = [] then None else Some (last ys))"
    and "dl_next h e = (if zs = [] then None else Some (hd zs))"
    and "dl_head l = Some (hd (ys @ [e]))" and "dl_tail l = Some (last (e # zs))"
proof -
  show "dl_prev h e = (if ys = [] then None else Some (last ys))"
    using assms by (cases ys rule: rev_cases) (auto simp: dlist_inv_def)
  show "dl_next h e = (if zs = [] then None else Some (hd zs))"
    using assms by (cases zs) (auto simp: dlist_inv_def)
  show "dl_head l = Some (hd (ys @ [e]))"
    using assms by (cases ys) (auto simp: dlist_inv_def)
  show "dl_tail l = Some (last (e # zs))"
    using assms by (cases zs rule: rev_cases) (auto simp: dlist_inv_def)
qed

lemma dlist_remove_inv:
  assumes i: "dlist_inv (l, h) (ys @ e # zs)"
  shows "dlist_inv (dlist_remove l h e) (ys @ zs)"
proof -
  note a = dlist_links_around [OF i]
  show ?thesis
  proof (cases ys rule: rev_cases)
    case Nil
    then show ?thesis using i a by (cases zs) (auto simp: dlist_inv_def dlist_remove_def Let_def)
  next
    case (snoc ws w)
    then have "dl_head l \<noteq> Some e" using i a(3) by (cases ws) (auto simp: dlist_inv_def)
    then show ?thesis using snoc i a(1,2,4) by (cases zs) (auto simp: dlist_inv_def dlist_remove_def Let_def)
  qed
qed

lemma dlist_remove_restores_iteration:
  assumes i: "dlist_inv (l, h) (ys @ e # zs)"
  shows "dlist_iter_inc h (dl_prev h e, Some e) = Inr (Some e, if zs = [] then None else Some (hd zs))"
  using dlist_links_around [OF i] by (simp add: dlist_iter_inc_def)

interpretation dlist: intrusive_list dlist_inv dlist_app dlist_rem
proof
  fix s :: "dlist \<times> dheap" and xs and e :: node
  obtain l h where s: "s = (l, h)" by (cases s)
  assume i: "dlist_inv s xs"
  show "\<exists>s'. dlist_app s e = Inr s' \<and> dlist_inv s' (xs @ [e])" if "e \<notin> set xs"
    using dlist_append_inv [of l h xs e] i that by (auto simp: s dlist_app_def)
  show "\<exists>s'. dlist_rem s e = Inr s' \<and> dlist_inv s' (remove1 e xs)" if m: "e \<in> set xs"
  proof -
    obtain ys zs where xs: "xs = ys @ e # zs" "e \<notin> set ys"
      using split_list_first [OF m] by blast
    then show ?thesis using dlist_remove_inv [of l h ys e zs] i
      by (auto simp: s dlist_rem_def remove1_append)
  qed
qed

text \<open>Claim C19. Every sequence of \<^verbatim>\<open>DList::append\<close> and \<^verbatim>\<open>DList::remove\<close> calls that appends
  only nodes outside the list and removes only nodes inside it runs to its end
  without dereferencing a null pointer, and leaves the \<^verbatim>\<open>_next\<close> links from the head
  and the \<^verbatim>\<open>_prev\<close> links from the tail describing the same sequence, namely the one
  that the operations produce on an abstract list.\<close>

theorem dlist_implements_list:
  assumes "abs_run [] ops = Some ys"
  shows "\<exists>s. run_ops dlist_app dlist_rem (dlist_init, h) ops = Inr s \<and> dlist_inv s ys"
  using dlist_init_inv assms by (rule dlist.run_refines)

theorem dlist_implements_list_witness:
  "\<exists>s. run_ops dlist_app dlist_rem (dlist_init, \<lparr>dl_prev = \<lambda>_. None, dl_next = \<lambda>_. None\<rparr>)
     [Append 4, Append 7, Append 9, Remove 4, Remove 9, Append 4] = Inr s \<and> dlist_inv s [7, 4]"
  by (rule dlist_implements_list) simp

end
