(* ===== verification/Treap.thy ===== *)
theory Treap
  imports Prelude
begin

text \<open>
  The treap of \<^verbatim>\<open>include/collection/Treap.h\<close>: a search tree over the keys that is a heap
  over the priorities. Nodes carry their identity (their address), so that \<^verbatim>\<open>remove\<close>
  looks for the node itself. The pointer-to-pointer loops of the code walk down one
  path of the tree and become recursion on the tree.
\<close>

section \<open>Definitions\<close>

text \<open>A node holds its left subtree, its address, \<^verbatim>\<open>_key\<close>, \<^verbatim>\<open>_prio\<close> and its right subtree.\<close>

datatype 'k treap = Nil_t | TNode "'k treap" nat 'k u32 "'k treap"

record 'k treap_state =
  tr_prio :: u32
  tr_root :: "'k treap"

definition treap_init :: "'k treap_state" where
  "treap_init = \<lparr>tr_prio = 314159265, tr_root = Nil_t\<rparr>"

text \<open>\<^verbatim>\<open>_prio\<close> is an \<^verbatim>\<open>int\<close>: priorities are compared as signed numbers.\<close>

definition prio_less :: "u32 \<Rightarrow> u32 \<Rightarrow> bool" where
  "prio_less a b \<longleftrightarrow> sint a < sint b"

fun treap_find :: "'k::linorder treap \<Rightarrow> 'k \<Rightarrow> nat option" where
  "treap_find Nil_t key = None"
| "treap_find (TNode l n k p r) key =
     (if k = key then Some n else if key < k then treap_find l key else treap_find r key)"

text \<open>The second loop of \<^verbatim>\<open>insert\<close>: the subtree below the new node is split at its key.\<close>

fun treap_split :: "'k::linorder \<Rightarrow> 'k treap \<Rightarrow> 'k treap \<times> 'k treap" where
  "treap_split key Nil_t = (Nil_t, Nil_t)"
| "treap_split key (TNode l n k p r) =
     (if key < k then (case treap_split key l of (a, b) \<Rightarrow> (a, TNode b n k p r))
      else (case treap_split key r of (a, b) \<Rightarrow> (TNode l n k p a, b)))"

text \<open>The first loop of \<^verbatim>\<open>insert\<close> descends while the priority of the node is smaller.\<close>

fun treap_place :: "u32 \<Rightarrow> nat \<Rightarrow> 'k::linorder \<Rightarrow> 'k treap \<Rightarrow> 'k treap" where
  "treap_place prio node key Nil_t = TNode Nil_t node key prio Nil_t"
| "treap_place prio node key (TNode l n k p r) =
     (if prio_less p prio
      then (if key < k then TNode (treap_place prio node key l) n k p r
            else TNode l n k p (treap_place prio node key r))
      else (case treap_split key (TNode l n k p r) of (a, b) \<Rightarrow> TNode a node key prio b))"

definition treap_insert :: "'k::linorder treap_state \<Rightarrow> nat \<Rightarrow> 'k \<Rightarrow> 'k treap_state" where
  "treap_insert t node key =
     \<lparr>tr_prio = tr_prio t + 0x9e3779b9,
      tr_root = treap_place (tr_prio t) node key (tr_root t)\<rparr>"

text \<open>\<^verbatim>\<open>remove_from\<close> rotates the node down until it has at most one child; the result is
  the tree that replaces it.\<close>

fun treap_join :: "'k treap \<Rightarrow> 'k treap \<Rightarrow> 'k treap" where
  "treap_join Nil_t r = r"
| "treap_join l Nil_t = l"
| "treap_join (TNode ll ln lk lp lr) (TNode rl rn rk rp rr) =
     (if prio_less lp rp then TNode ll ln lk lp (treap_join lr (TNode rl rn rk rp rr))
      else TNode (treap_join (TNode ll ln lk lp lr) rl) rn rk rp rr)"

text \<open>The search of \<^verbatim>\<open>remove\<close>. \<^term>\<open>None\<close>: the search path does not meet the node, which
  \<^verbatim>\<open>remove\<close> does not expect.\<close>

fun treap_cut :: "nat \<Rightarrow> 'k::linorder \<Rightarrow> 'k treap \<Rightarrow> 'k treap option" where
  "treap_cut node key Nil_t = None"
| "treap_cut node key (TNode l n k p r) =
     (if n = node then Some (treap_join l r)
      else if key < k then map_option (\<lambda>l'. TNode l' n k p r) (treap_cut node key l)
      else map_option (\<lambda>r'. TNode l n k p r') (treap_cut node key r))"

definition treap_remove :: "'k::linorder treap_state \<Rightarrow> nat \<Rightarrow> 'k \<Rightarrow> 'k treap_state option" where
  "treap_remove t node key = map_option (\<lambda>r. t\<lparr>tr_root := r\<rparr>) (treap_cut node key (tr_root t))"

text \<open>The entries of a tree, in key order.\<close>

fun entries :: "'k treap \<Rightarrow> ('k \<times> nat) list" where
  "entries Nil_t = []"
| "entries (TNode l n k p r) = entries l @ (k, n) # entries r"

fun bst :: "'k::linorder treap \<Rightarrow> bool" where
  "bst Nil_t \<longleftrightarrow> True"
| "bst (TNode l n k p r) \<longleftrightarrow> bst l \<and> bst r
     \<and> (\<forall>x \<in> fst ` set (entries l). x < k) \<and> (\<forall>x \<in> fst ` set (entries r). k < x)"

definition root_ge :: "u32 \<Rightarrow> 'k treap \<Rightarrow> bool" where
  "root_ge p t \<longleftrightarrow> (case t of Nil_t \<Rightarrow> True | TNode _ _ _ q _ \<Rightarrow> \<not> prio_less q p)"

fun heap_ordered :: "'k treap \<Rightarrow> bool" where
  "heap_ordered Nil_t \<longleftrightarrow> True"
| "heap_ordered (TNode l n k p r) \<longleftrightarrow>
     heap_ordered l \<and> heap_ordered r \<and> root_ge p l \<and> root_ge p r"

text \<open>The invariant relates the tree to the map from keys to nodes that it stores; no node
  is in the tree twice.\<close>

definition treap_inv :: "'k::linorder treap_state \<Rightarrow> ('k \<rightharpoonup> nat) \<Rightarrow> bool" where
  "treap_inv t m \<longleftrightarrow> bst (tr_root t) \<and> heap_ordered (tr_root t)
     \<and> inj_on snd (set (entries (tr_root t))) \<and> m = treap_find (tr_root t)"

definition treap_lookup :: "'k::linorder treap_state \<Rightarrow> 'k \<Rightarrow> nat option" where
  "treap_lookup t key = treap_find (tr_root t) key"

text \<open>Sequences of operations, and their effect on an abstract map.\<close>

datatype 'k index_op = Ins nat 'k | Del nat 'k

fun abs_index_run :: "('k \<rightharpoonup> nat) \<Rightarrow> 'k index_op list \<Rightarrow> ('k \<rightharpoonup> nat) option" where
  "abs_index_run m [] = Some m"
| "abs_index_run m (Ins n k # ops) =
     (if m k = None \<and> n \<notin> ran m then abs_index_run (m(k \<mapsto> n)) ops else None)"
| "abs_index_run m (Del n k # ops) =
     (if m k = Some n then abs_index_run (m(k := None)) ops else None)"

fun index_run :: "('s \<Rightarrow> nat \<Rightarrow> 'k \<Rightarrow> 's) \<Rightarrow> ('s \<Rightarrow> nat \<Rightarrow> 'k \<Rightarrow> 's option) \<Rightarrow> 's \<Rightarrow> 'k index_op list \<Rightarrow> 's option" where
  "index_run ins rem s [] = Some s"
| "index_run ins rem s (Ins n k # ops) = index_run ins rem (ins s n k) ops"
| "index_run ins rem s (Del n k # ops) = Option.bind (rem s n k) (\<lambda>s'. index_run ins rem s' ops)"

text \<open>The contract of an index from keys to nodes, as its users see it.\<close>

locale keyed_index =
  fixes inv :: "'s \<Rightarrow> ('k \<rightharpoonup> nat) \<Rightarrow> bool"
    and lookup :: "'s \<Rightarrow> 'k \<Rightarrow> nat option"
    and ins :: "'s \<Rightarrow> nat \<Rightarrow> 'k \<Rightarrow> 's"
    and rem :: "'s \<Rightarrow> nat \<Rightarrow> 'k \<Rightarrow> 's option"
  assumes lookup_law: "inv s m \<Longrightarrow> lookup s k = m k"
    and ins_law: "inv s m \<Longrightarrow> m k = None \<Longrightarrow> n \<notin> ran m \<Longrightarrow> inv (ins s n k) (m(k \<mapsto> n))"
    and rem_law: "inv s m \<Longrightarrow> m k = Some n \<Longrightarrow> \<exists>s'. rem s n k = Some s' \<and> inv s' (m(k := None))"
begin

lemma index_run_refines:
  assumes "inv s m" "abs_index_run m ops = Some m'"
  shows "\<exists>s'. index_run ins rem s ops = Some s' \<and> inv s' m' \<and> (\<forall>k. lookup s' k = m' k)"
  using assms
proof (induction ops arbitrary: s m)
  case Nil
  then show ?case using lookup_law by auto
next
  case (Cons op ops)
  show ?case
  proof (cases op)
    case (Ins n k)
    then have a: "m k = None" "n \<notin> ran m" "abs_index_run (m(k \<mapsto> n)) ops = Some m'"
      using Cons.prems(2) by (simp_all split: if_splits)
    show ?thesis using Cons.IH [OF ins_law [OF Cons.prems(1) a(1,2)] a(3)] by (simp add: Ins)
  next
    case (Del n k)
    then have a: "m k = Some n" "abs_index_run (m(k := None)) ops = Some m'"
      using Cons.prems(2) by (simp_all split: if_splits)
    obtain s' where s': "rem s n k = Some s'" "inv s' (m(k := None))"
      using rem_law [OF Cons.prems(1) a(1)] by blast
    show ?thesis using Cons.IH [OF s'(2) a(2)] by (simp add: Del s'(1))
  qed
qed

end

section \<open>Order of the entries\<close>

lemma entries_split:
  "treap_split key t = (a, b) \<Longrightarrow> bst t \<Longrightarrow>
     entries t = entries a @ entries b \<and> bst a \<and> bst b
     \<and> (\<forall>x \<in> fst ` set (entries a). x \<le> key) \<and> (\<forall>x \<in> fst ` set (entries b). key < x)"
proof (induction t arbitrary: a b)
  case (TNode l n k p r)
  show ?case
  proof (cases "key < k")
    case True
    obtain c d where cd: "treap_split key l = (c, d)" by fastforce
    with TNode True show ?thesis by (force dest: less_trans)
  next
    case False
    obtain c d where cd: "treap_split key r = (c, d)" by fastforce
    with TNode False show ?thesis by (force simp: not_less)
  qed
qed simp

lemma set_entries_split:
  "treap_split key t = (a, b) \<Longrightarrow> set (entries t) = set (entries a) \<union> set (entries b)"
  by (induction t arbitrary: a b) (auto split: if_splits prod.splits)

lemma set_entries_place:
  "set (entries (treap_place prio node key t)) = insert (key, node) (set (entries t))"
  by (induction t) (auto dest: set_entries_split split: prod.splits)

lemma bst_place:
  assumes "bst t" "key \<notin> fst ` set (entries t)"
  shows "bst (treap_place prio node key t)"
  using assms
proof (induction t)
  case (TNode l n k p r)
  show ?case
  proof (cases "prio_less p prio")
    case True
    then show ?thesis using TNode by (auto simp: set_entries_place)
  next
    case False
    obtain a b where ab: "treap_split key (TNode l n k p r) = (a, b)" by fastforce
    have "\<forall>x \<in> fst ` set (entries a). x \<noteq> key"
      using set_entries_split [OF ab] TNode.prems(2) by force
    then show ?thesis using entries_split [OF ab TNode.prems(1)] False ab by fastforce
  qed
qed simp

lemma set_entries_join: "set (entries (treap_join l r)) = set (entries l) \<union> set (entries r)"
  by (induction l r rule: treap_join.induct) auto

lemma bst_join:
  assumes "bst l" "bst r" "\<forall>x \<in> fst ` set (entries l). \<forall>y \<in> fst ` set (entries r). x < y"
  shows "bst (treap_join l r)"
  using assms by (induction l r rule: treap_join.induct) (auto simp: set_entries_join)

lemma bst_cut:
  assumes "bst t" "treap_cut node key t = Some t'"
  shows "bst t' \<and> set (entries t') \<subseteq> set (entries t)"
  using assms
proof (induction t arbitrary: t')
  case (TNode l n k p r)
  have j: "bst (treap_join l r)" using TNode.prems(1) by (intro bst_join) force+
  show ?case
  proof (cases "n = node")
    case True
    then show ?thesis using TNode.prems j by (auto simp: set_entries_join)
  next
    case False
    show ?thesis
    proof (cases "key < k")
      case True
      then obtain l' where "treap_cut node key l = Some l'" "t' = TNode l' n k p r"
        using TNode.prems(2) False by auto
      then show ?thesis using TNode.IH(1) TNode.prems(1) by fastforce
    next
      case Fk: False
      then obtain r' where "treap_cut node key r = Some r'" "t' = TNode l n k p r'"
        using TNode.prems(2) False by auto
      then show ?thesis using TNode.IH(2) TNode.prems(1) by fastforce
    qed
  qed
qed simp

section \<open>Heap order\<close>

lemma prio_less_not_sym: "prio_less a b \<Longrightarrow> \<not> prio_less b a"
  by (simp add: prio_less_def)

lemma prio_less_negtrans: "\<not> prio_less b a \<Longrightarrow> \<not> prio_less c b \<Longrightarrow> \<not> prio_less c a"
  by (simp add: prio_less_def)

lemma root_ge_simps [simp]:
  "root_ge p Nil_t"
  "root_ge p (TNode l n k q r) \<longleftrightarrow> \<not> prio_less q p"
  by (simp_all add: root_ge_def)

lemma root_ge_trans: "root_ge p t \<Longrightarrow> \<not> prio_less p q \<Longrightarrow> root_ge q t"
  by (cases t) (auto dest: prio_less_negtrans)

lemma heap_split:
  "treap_split key t = (a, b) \<Longrightarrow> heap_ordered t \<Longrightarrow>
     heap_ordered a \<and> heap_ordered b \<and> (\<forall>p. root_ge p t \<longrightarrow> root_ge p a \<and> root_ge p b)"
proof (induction t arbitrary: a b)
  case (TNode l n k p r)
  obtain c d where cd: "treap_split key l = (c, d)" by fastforce
  obtain e f where ef: "treap_split key r = (e, f)" by fastforce
  have "root_ge q c \<and> root_ge q d \<and> root_ge q e \<and> root_ge q f" if "\<not> prio_less p q" for q
  proof -
    have "root_ge q l" "root_ge q r"
      using TNode.prems(2) that root_ge_trans by auto
    then show ?thesis using TNode.IH(1) [OF cd] TNode.IH(2) [OF ef] TNode.prems(2) by simp
  qed
  then show ?case
    using TNode.IH(1) [OF cd] TNode.IH(2) [OF ef] TNode.prems cd ef
    by (auto split: if_splits)
qed simp

lemma root_ge_place:
  assumes "root_ge q t" "\<not> prio_less prio q"
  shows "root_ge q (treap_place prio node key t)"
  using assms by (cases t) (auto split: prod.splits)

lemma heap_place: "heap_ordered t \<Longrightarrow> heap_ordered (treap_place prio node key t)"
proof (induction t)
  case (TNode l n k p r)
  show ?case
  proof (cases "prio_less p prio")
    case True
    then show ?thesis using TNode by (auto simp: root_ge_place prio_less_not_sym)
  next
    case False
    obtain a b where ab: "treap_split key (TNode l n k p r) = (a, b)" by fastforce
    have "root_ge prio (TNode l n k p r)" using False by simp
    then show ?thesis using heap_split [OF ab TNode.prems] False ab by (auto simp del: treap_split.simps)
  qed
qed simp

lemma root_ge_join: "root_ge q l \<Longrightarrow> root_ge q r \<Longrightarrow> root_ge q (treap_join l r)"
  by (induction l r rule: treap_join.induct) auto

lemma heap_join: "heap_ordered l \<Longrightarrow> heap_ordered r \<Longrightarrow> heap_ordered (treap_join l r)"
  by (induction l r rule: treap_join.induct) (auto simp: root_ge_join dest: prio_less_not_sym)

lemma heap_cut:
  assumes "heap_ordered t" "treap_cut node key t = Some t'"
  shows "heap_ordered t' \<and> (\<forall>q. root_ge q t \<longrightarrow> root_ge q t')"
  using assms
proof (induction t arbitrary: t')
  case (TNode l n k p r)
  have up: "root_ge q l \<and> root_ge q r" if "\<not> prio_less p q" for q
    using TNode.prems(1) that root_ge_trans by auto
  consider "n = node" | l' where "treap_cut node key l = Some l'" "t' = TNode l' n k p r"
    | r' where "treap_cut node key r = Some r'" "t' = TNode l n k p r'"
    using TNode.prems(2) by (auto split: if_splits)
  then show ?case
  proof cases
    case 1
    then show ?thesis using TNode.prems up by (auto simp: heap_join root_ge_join)
  next
    case 2
    then show ?thesis using TNode.prems(1) TNode.IH(1) [of l'] by simp
  next
    case 3
    then show ?thesis using TNode.prems(1) TNode.IH(2) [of r'] by simp
  qed
qed simp

section \<open>Lookups\<close>

lemma find_iff:
  "bst t \<Longrightarrow> treap_find t key = Some n \<longleftrightarrow> (key, n) \<in> set (entries t)"
  by (induction t) force+

lemma find_None_iff_keys:
  "bst t \<Longrightarrow> treap_find t key = None \<longleftrightarrow> key \<notin> fst ` set (entries t)"
  using find_iff [of t key] by (cases "treap_find t key") force+

lemma find_place:
  assumes "bst t" "treap_find t key = None"
  shows "treap_find (treap_place prio node key t) k =
    (if k = key then Some node else treap_find t k)"
proof -
  have f: "key \<notin> fst ` set (entries t)" using assms find_None_iff_keys by blast
  have b: "bst (treap_place prio node key t)" using assms(1) f by (rule bst_place)
  have "treap_find (treap_place prio node key t) k = Some m \<longleftrightarrow>
      (if k = key then Some node else treap_find t k) = Some m" for m
    using f find_iff [OF b] find_iff [OF assms(1)] by (force simp: set_entries_place)
  then show ?thesis by (metis option.exhaust)
qed

lemma cut_entries:
  assumes "bst t" "inj_on snd (set (entries t))" "(key, node) \<in> set (entries t)"
  shows "\<exists>t'. treap_cut node key t = Some t' \<and> set (entries t') = set (entries t) - {(key, node)}"
  using assms
proof (induction t)
  case (TNode l n k p r)
  have sub: "inj_on snd (set (entries l))" "inj_on snd (set (entries r))"
    using TNode.prems(2) by (auto simp: inj_on_def)
  consider "k = key" "n = node" | "(key, node) \<in> set (entries l)" | "(key, node) \<in> set (entries r)"
    using TNode.prems(3) by auto
  then show ?case
  proof cases
    case 1
    then show ?thesis using TNode.prems(1) by (force simp: set_entries_join)
  next
    case 2
    then have k: "key < k" using TNode.prems(1) by force
    have n: "n \<noteq> node" using TNode.prems(2) 2 k by (force simp: inj_on_def)
    obtain l' where l': "treap_cut node key l = Some l'" "set (entries l') = set (entries l) - {(key, node)}"
      using TNode.IH(1) sub(1) 2 TNode.prems(1) by auto
    have "(key, node) \<notin> set (entries r)" using TNode.prems(1) k by force
    then show ?thesis using l' k n by auto
  next
    case 3
    then have k: "k < key" using TNode.prems(1) by force
    have n: "n \<noteq> node" using TNode.prems(2) 3 k by (force simp: inj_on_def)
    obtain r' where r': "treap_cut node key r = Some r'" "set (entries r') = set (entries r) - {(key, node)}"
      using TNode.IH(2) sub(2) 3 TNode.prems(1) by auto
    have "(key, node) \<notin> set (entries l)" using TNode.prems(1) k by force
    then show ?thesis using r' k n by auto
  qed
qed simp

lemma find_cong_entries:
  assumes "bst t" "bst t'"
    and "\<And>n. (k, n) \<in> set (entries t') \<longleftrightarrow> f k = Some n"
  shows "treap_find t' k = f k"
  using find_iff [OF assms(2), of k] assms(3) by (metis option.exhaust)

lemma treap_insert_inv:
  assumes "treap_inv t m" "m k = None" "n \<notin> ran m"
  shows "treap_inv (treap_insert t n k) (m(k \<mapsto> n))"
proof -
  have b: "bst (tr_root t)" and m: "m = treap_find (tr_root t)"
    and i: "inj_on snd (set (entries (tr_root t)))" and h: "heap_ordered (tr_root t)"
    using assms(1) by (auto simp: treap_inv_def)
  have k: "k \<notin> fst ` set (entries (tr_root t))" using assms(2) m find_None_iff_keys [OF b] by metis
  have "(k', n) \<notin> set (entries (tr_root t))" for k'
    using assms(3) find_iff [OF b, of k' n] by (auto simp: m ran_def)
  then have "inj_on snd (insert (k, n) (set (entries (tr_root t))))" using i by (auto simp: inj_on_def)
  moreover have "m(k \<mapsto> n) = treap_find (treap_place (tr_prio t) n k (tr_root t))"
    using find_place [OF b] assms(2) by (auto simp: m)
  ultimately show ?thesis using bst_place [OF b k] heap_place [OF h]
    by (simp add: treap_inv_def treap_insert_def set_entries_place)
qed

lemma treap_remove_inv:
  assumes "treap_inv t m" "m k = Some n"
  shows "\<exists>t'. treap_remove t n k = Some t' \<and> treap_inv t' (m(k := None))"
proof -
  have b: "bst (tr_root t)" and m: "m = treap_find (tr_root t)"
    and i: "inj_on snd (set (entries (tr_root t)))" and h: "heap_ordered (tr_root t)"
    using assms(1) by (auto simp: treap_inv_def)
  have kn: "(k, n) \<in> set (entries (tr_root t))" using assms(2) m find_iff [OF b] by metis
  obtain r where r: "treap_cut n k (tr_root t) = Some r"
      "set (entries r) = set (entries (tr_root t)) - {(k, n)}"
    using cut_entries [OF b i kn] by blast
  have br: "bst r" using bst_cut [OF b r(1)] by blast
  have "treap_find r x = (m(k := None)) x" for x
  proof (rule find_cong_entries [OF b br])
    fix q
    show "(x, q) \<in> set (entries r) \<longleftrightarrow> (m(k := None)) x = Some q"
      using find_iff [OF b, of x q] find_iff [OF b, of k q] assms(2) by (auto simp: r(2) m)
  qed
  moreover have "inj_on snd (set (entries r))" using i r(2) by (auto intro: inj_on_subset)
  ultimately show ?thesis using br heap_cut [OF h r(1)] r(1)
    by (auto simp: treap_inv_def treap_remove_def)
qed

interpretation treap: keyed_index treap_inv treap_lookup treap_insert treap_remove
  by unfold_locales
    (simp add: treap_inv_def treap_lookup_def, rule treap_insert_inv, assumption+, rule treap_remove_inv)

text \<open>Claim C8. The treap implements a map from keys to nodes: after any sequence of
  insertions of new nodes under new keys and removals of stored nodes, every removal
  has found its node, every lookup returns what the abstract map holds, and the tree
  still is a search tree on the keys and a heap on the (wrapping, signed) priorities.\<close>

theorem treap_implements_map:
  assumes "abs_index_run Map.empty ops = Some m"
  shows "\<exists>t. index_run treap_insert treap_remove treap_init ops = Some t
    \<and> (\<forall>k. treap_find (tr_root t) k = m k) \<and> bst (tr_root t) \<and> heap_ordered (tr_root t)"
proof -
  have "treap_inv treap_init Map.empty" by (auto simp: treap_inv_def treap_init_def)
  from treap.index_run_refines [OF this assms] show ?thesis
    by (auto simp: treap_inv_def treap_lookup_def)
qed

theorem treap_implements_map_witness:
  "\<exists>t. index_run treap_insert treap_remove treap_init
        [Ins 1 (30::int), Ins 2 10, Ins 3 20, Del 1 30, Ins 4 15] = Some t
    \<and> (\<forall>k. treap_find (tr_root t) k = [10 \<mapsto> 2, 20 \<mapsto> 3, 15 \<mapsto> 4] k)
    \<and> bst (tr_root t) \<and> heap_ordered (tr_root t)"
  by (rule treap_implements_map) (auto simp: ran_def fun_eq_iff)

end
