(* ===== verification/QuickSort.thy ===== *)
theory QuickSort
  imports Prelude "HOL-Library.Multiset"
begin

text \<open>
  The in-place quicksort of \<^verbatim>\<open>include/collection/QuickSort.h\<close>. The array is a list that
  is updated by index, indices are signed, and an index outside the array makes the
  access undefined. \<^verbatim>\<open>partition\<close> returns its \<^verbatim>\<open>ssize_t\<close> position through an \<^verbatim>\<open>int\<close>.
\<close>

section \<open>Definitions\<close>

definition arr_ok :: "'a list \<Rightarrow> int \<Rightarrow> bool" where
  "arr_ok a i \<longleftrightarrow> 0 \<le> i \<and> i < int (length a)"

definition arr_get :: "'a list \<Rightarrow> int \<Rightarrow> 'a res" where
  "arr_get a i = (if arr_ok a i then Inr (a ! nat i) else Inl Undefined)"

text \<open>\<^verbatim>\<open>Util::swap\<close> on two elements of the array.\<close>

definition swap :: "'a list \<Rightarrow> int \<Rightarrow> int \<Rightarrow> 'a list res" where
  "swap a i j = (if arr_ok a i \<and> arr_ok a j
     then Inr (a[nat i := a ! nat j, nat j := a ! nat i]) else Inl Undefined)"

function partition_loop ::
    "('a \<Rightarrow> 'a \<Rightarrow> bool) \<Rightarrow> 'a list \<Rightarrow> int \<Rightarrow> int \<Rightarrow> int \<Rightarrow> ('a list \<times> int) res" where
  "partition_loop cmp a right i si =
     (if i < right
      then bindR (arr_get a i) (\<lambda>x. bindR (arr_get a right) (\<lambda>pivot.
             if cmp x pivot
             then bindR (swap a i si) (\<lambda>a'. partition_loop cmp a' right (i + 1) (si + 1))
             else partition_loop cmp a right (i + 1) si))
      else Inr (a, si))"
  by pat_completeness auto
termination
  by (relation "measure (\<lambda>(cmp, a, right, i, si). nat (right - i))") auto

definition to_int32 :: "int \<Rightarrow> int" where
  "to_int32 x = sint (word_of_int x :: u32)"

definition qs_partition :: "('a \<Rightarrow> 'a \<Rightarrow> bool) \<Rightarrow> 'a list \<Rightarrow> int \<Rightarrow> int \<Rightarrow> int \<Rightarrow> ('a list \<times> int) res" where
  "qs_partition cmp a left right pivot_i =
     bindR (swap a pivot_i right) (\<lambda>a.
     bindR (partition_loop cmp a right left left) (\<lambda>(a, si).
     bindR (swap a si right) (\<lambda>a. Inr (a, to_int32 si))))"

text \<open>The recursive sort; \<^term>\<open>None\<close> stands for a recursion that does not end.\<close>

partial_function (option) qs_sort ::
    "('a \<Rightarrow> 'a \<Rightarrow> bool) \<Rightarrow> 'a list \<Rightarrow> int \<Rightarrow> int \<Rightarrow> 'a list res option" where
  "qs_sort cmp a left right =
     (if right > left
      then (case qs_partition cmp a left right ((left + right) div 2) of
              Inl e \<Rightarrow> Some (Inl e)
            | Inr (a, pivot_i) \<Rightarrow>
                Option.bind (qs_sort cmp a left (pivot_i - 1)) (\<lambda>r.
                  case r of Inl e \<Rightarrow> Some (Inl e)
                  | Inr a \<Rightarrow> qs_sort cmp a (pivot_i + 1) right))
      else Some (Inr a))"

declare qs_sort.simps [code]

definition quicksort :: "('a \<Rightarrow> 'a \<Rightarrow> bool) \<Rightarrow> 'a list \<Rightarrow> 'a list res option" where
  "quicksort cmp a = (if length a > 1 then qs_sort cmp a 0 (int (length a) - 1) else Some (Inr a))"

text \<open>Two arrays with the same elements that differ at most between two indices.\<close>

definition perm_within :: "int \<Rightarrow> int \<Rightarrow> 'a list \<Rightarrow> 'a list \<Rightarrow> bool" where
  "perm_within l r a b \<longleftrightarrow> length b = length a \<and> mset b = mset a
     \<and> (\<forall>j < length a. int j < l \<or> r < int j \<longrightarrow> b ! j = a ! j)"

section \<open>Permutations within a segment\<close>

lemma perm_within_refl [simp]: "perm_within l r a a"
  by (simp add: perm_within_def)

lemma perm_within_trans:
  "perm_within l r a b \<Longrightarrow> perm_within l r b c \<Longrightarrow> perm_within l r a c"
  by (simp add: perm_within_def)

lemma perm_within_mono:
  "perm_within l r a b \<Longrightarrow> l' \<le> l \<Longrightarrow> r \<le> r' \<Longrightarrow> perm_within l' r' a b"
  by (auto simp: perm_within_def)

lemma perm_within_swap:
  assumes "l \<le> i" "i \<le> r" "l \<le> j" "j \<le> r" "0 \<le> l" "r < int (length a)"
  shows "\<exists>b. swap a i j = Inr b \<and> perm_within l r a b
    \<and> b ! nat i = a ! nat j \<and> b ! nat j = a ! nat i
    \<and> (\<forall>k. k \<noteq> nat i \<longrightarrow> k \<noteq> nat j \<longrightarrow> b ! k = a ! k)"
proof -
  have "nat j < length a" "nat i < length a" using assms by auto
  then have "mset (a[nat i := a ! nat j, nat j := a ! nat i]) = mset a" by (rule mset_swap)
  then show ?thesis using assms
    by (auto simp: swap_def arr_ok_def perm_within_def nth_list_update)
qed

lemma perm_within_segment:
  assumes "perm_within l r a b" "0 \<le> l" "r < int (length a)"
    and "\<And>j. l \<le> int j \<Longrightarrow> int j \<le> r \<Longrightarrow> P (a ! j)"
    and "l \<le> int k" "int k \<le> r"
  shows "P (b ! k)"
proof -
  let ?n = "nat l" and ?m = "nat (r + 1)"
  have len: "length b = length a" using assms(1) by (simp add: perm_within_def)
  have nm: "?n \<le> ?m" "?m \<le> length a" using assms by auto
  have t: "take ?n b = take ?n a" using assms(1,2) len by (intro nth_equalityI) (auto simp: perm_within_def)
  have d: "drop ?m b = drop ?m a" using assms(1) len by (intro nth_equalityI) (auto simp: perm_within_def)
  have seg: "mset c = mset (take ?n c) + mset (take (?m - ?n) (drop ?n c)) + mset (drop ?m c)"
    for c :: "'a list"
    using nm(1) by (metis append_take_drop_id drop_drop le_add_diff_inverse2 mset_append union_assoc)
  have "mset (take (?m - ?n) (drop ?n b)) = mset (take (?m - ?n) (drop ?n a))"
    using seg [of a] seg [of b] assms(1) t d by (simp add: perm_within_def)
  then have eq: "set (take (?m - ?n) (drop ?n b)) = set (take (?m - ?n) (drop ?n a))"
    by (rule mset_eq_setD)
  have "b ! k = take (?m - ?n) (drop ?n b) ! (k - ?n)" using assms nm len by simp
  then have "b ! k \<in> set (take (?m - ?n) (drop ?n b))"
    using assms(5,6) nm len by (auto simp: in_set_conv_nth intro!: exI [of _ "k - ?n"])
  then obtain i where "i < ?m - ?n" "b ! k = a ! (?n + i)"
    using nm unfolding eq by (auto simp: in_set_conv_nth)
  then show ?thesis using assms(4) [of "?n + i"] assms(2) by auto
qed

section \<open>Partition\<close>

lemma to_int32_small: "0 \<le> x \<Longrightarrow> x < 2 ^ 31 \<Longrightarrow> to_int32 x = x"
  by (simp add: to_int32_def signed_of_int signed_take_bit_int_eq_self)

lemma partition_loop_spec:
  assumes "0 \<le> left" "left \<le> si" "si \<le> i" "i \<le> right" "right < int (length a)"
    and "\<And>j. left \<le> int j \<Longrightarrow> int j < si \<Longrightarrow> cmp (a ! j) (a ! nat right)"
    and "\<And>j. si \<le> int j \<Longrightarrow> int j < i \<Longrightarrow> \<not> cmp (a ! j) (a ! nat right)"
  shows "\<exists>b s. partition_loop cmp a right i si = Inr (b, s) \<and> si \<le> s \<and> s \<le> right
    \<and> perm_within left (right - 1) a b
    \<and> (\<forall>j. left \<le> int j \<longrightarrow> int j < s \<longrightarrow> cmp (b ! j) (a ! nat right))
    \<and> (\<forall>j. s \<le> int j \<longrightarrow> int j < right \<longrightarrow> \<not> cmp (b ! j) (a ! nat right))"
  using assms
proof (induction "nat (right - i)" arbitrary: a i si)
  case 0
  then have "partition_loop cmp a right i si = Inr (a, si)" "i = right" by auto
  then show ?case using "0.prems" by (intro exI [of _ a] exI [of _ si]) auto
next
  case (Suc n)
  have n: "n = nat (right - (i + 1))" and ir: "i < right" using Suc.hyps(2) by auto
  have ok: "arr_get a i = Inr (a ! nat i)" "arr_get a right = Inr (a ! nat right)"
    using Suc.prems ir by (auto simp: arr_get_def arr_ok_def)
  show ?case
  proof (cases "cmp (a ! nat i) (a ! nat right)")
    case True
    obtain b where b: "swap a i si = Inr b" "perm_within left (right - 1) a b"
        "b ! nat i = a ! nat si" "b ! nat si = a ! nat i"
        "\<And>k. k \<noteq> nat i \<Longrightarrow> k \<noteq> nat si \<Longrightarrow> b ! k = a ! k"
      using perm_within_swap [of left i "right - 1" si a] Suc.prems ir by auto
    have len: "length b = length a" using b(2) by (simp add: perm_within_def)
    have br: "b ! nat right = a ! nat right" using b(5) Suc.prems ir by auto
    have lt: "cmp (b ! j) (b ! nat right)" if "left \<le> int j" "int j < si + 1" for j
      using that b(4) b(5) [of j] br True Suc.prems(1-3) Suc.prems(6) [of j] by (cases "j = nat si"; cases "j = nat i") auto
    have ge: "\<not> cmp (b ! j) (b ! nat right)" if "si + 1 \<le> int j" "int j < i + 1" for j
      using that b(3) b(5) [of j] br Suc.prems(1-3) Suc.prems(7) [of j] Suc.prems(7) [of "nat si"]
      by (cases "j = nat i"; cases "j = nat si") auto
    obtain c s where c: "partition_loop cmp b right (i + 1) (si + 1) = Inr (c, s)" "si + 1 \<le> s" "s \<le> right"
        "perm_within left (right - 1) b c"
        "\<And>j. left \<le> int j \<Longrightarrow> int j < s \<Longrightarrow> cmp (c ! j) (b ! nat right)"
        "\<And>j. s \<le> int j \<Longrightarrow> int j < right \<Longrightarrow> \<not> cmp (c ! j) (b ! nat right)"
      using Suc.hyps(1) [OF n, of "si + 1" b] Suc.prems(1-5) ir lt ge len by auto
    have "partition_loop cmp a right i si = Inr (c, s)"
      using ir ok True b(1) c(1) by (subst partition_loop.simps) simp
    then show ?thesis using c br perm_within_trans [OF b(2) c(4)]
      by (intro exI [of _ c] exI [of _ s]) auto
  next
    case False
    have ge: "\<not> cmp (a ! j) (a ! nat right)" if "si \<le> int j" "int j < i + 1" for j
      using that Suc.prems(7) [of j] False by (cases "int j = i") auto
    obtain c s where c: "partition_loop cmp a right (i + 1) si = Inr (c, s)" "si \<le> s" "s \<le> right"
        "perm_within left (right - 1) a c"
        "\<And>j. left \<le> int j \<Longrightarrow> int j < s \<Longrightarrow> cmp (c ! j) (a ! nat right)"
        "\<And>j. s \<le> int j \<Longrightarrow> int j < right \<Longrightarrow> \<not> cmp (c ! j) (a ! nat right)"
      using Suc.hyps(1) [OF n, of si a] Suc.prems ir ge by auto
    have "partition_loop cmp a right i si = Inr (c, s)"
      using ir ok False c(1) by (subst partition_loop.simps) simp
    then show ?thesis using c by (intro exI [of _ c] exI [of _ s]) auto
  qed
qed
lemma qs_partition_spec:
  assumes "0 \<le> left" "left \<le> pv" "pv \<le> right" "right < int (length a)" "length a < 2 ^ 31"
  shows "\<exists>b p. qs_partition cmp a left right pv = Inr (b, p) \<and> left \<le> p \<and> p \<le> right
    \<and> perm_within left right a b
    \<and> (\<forall>j. left \<le> int j \<longrightarrow> int j < p \<longrightarrow> cmp (b ! j) (b ! nat p))
    \<and> (\<forall>j. p < int j \<longrightarrow> int j \<le> right \<longrightarrow> \<not> cmp (b ! j) (b ! nat p))"
proof -
  obtain b where b: "swap a pv right = Inr b" "perm_within left right a b"
    using perm_within_swap [of left pv right right a] assms by auto
  have lb: "length b = length a" using b(2) by (simp add: perm_within_def)
  obtain c s where c: "partition_loop cmp b right left left = Inr (c, s)" "left \<le> s" "s \<le> right"
      "perm_within left (right - 1) b c"
      "\<And>j. left \<le> int j \<Longrightarrow> int j < s \<Longrightarrow> cmp (c ! j) (b ! nat right)"
      "\<And>j. s \<le> int j \<Longrightarrow> int j < right \<Longrightarrow> \<not> cmp (c ! j) (b ! nat right)"
    using partition_loop_spec [of left left left right b cmp] assms lb by auto
  have cr: "c ! nat right = b ! nat right" using c(4) assms lb by (auto simp: perm_within_def)
  have lc: "length c = length a" using c(4) lb by (simp add: perm_within_def)
  obtain d where d: "swap c s right = Inr d" "perm_within left right c d"
      "d ! nat s = c ! nat right" "d ! nat right = c ! nat s"
      "\<And>k. k \<noteq> nat s \<Longrightarrow> k \<noteq> nat right \<Longrightarrow> d ! k = c ! k"
    using perm_within_swap [of left s right right c] assms c(2,3) lc by auto
  have "to_int32 s = s" using c(2,3) assms by (intro to_int32_small) auto
  then have "qs_partition cmp a left right pv = Inr (d, s)"
    using b(1) c(1) d(1) by (simp add: qs_partition_def)
  moreover have "perm_within left right a d"
    using perm_within_trans [OF perm_within_trans [OF b(2) perm_within_mono [OF c(4)]] d(2)] by simp
  moreover have "cmp (d ! j) (d ! nat s)" if "left \<le> int j" "int j < s" for j
    using that c(3) c(5) [of j] d(3) d(5) [of j] cr by auto
  moreover have "\<not> cmp (d ! j) (d ! nat s)" if "s < int j" "int j \<le> right" for j
  proof (cases "int j = right")
    case True
    then have "d ! j = c ! nat s" using d(4) by auto
    then show ?thesis using c(2) c(6) [of "nat s"] that True d(3) cr assms(1) by auto
  next
    case False
    then have "j \<noteq> nat s" "j \<noteq> nat right" using that c(2,3) assms(1,2) by auto
    then show ?thesis using False that c(6) [of j] d(3) d(5) [of j] cr by auto
  qed
  ultimately show ?thesis using c(2,3) by blast
qed

section \<open>Sorting\<close>

lemma qs_sort_spec:
  assumes "strict_weak cmp" "0 \<le> left" "right < int (length a)" "length a < 2 ^ 31"
  shows "\<exists>b. qs_sort cmp a left right = Some (Inr b) \<and> perm_within left right a b
    \<and> (\<forall>i j. left \<le> int i \<longrightarrow> i < j \<longrightarrow> int j \<le> right \<longrightarrow> \<not> cmp (b ! j) (b ! i))"
  using assms
proof (induction "nat (right - left + 1)" arbitrary: a left right rule: less_induct)
  case less
  show ?case
  proof (cases "left < right")
    case False
    then show ?thesis by (subst qs_sort.simps) auto
  next
    case True
    then have "left \<le> (left + right) div 2" "(left + right) div 2 \<le> right" by linarith+
    then obtain b p where b: "qs_partition cmp a left right ((left + right) div 2) = Inr (b, p)"
        "left \<le> p" "p \<le> right" "perm_within left right a b"
        "\<And>j. left \<le> int j \<Longrightarrow> int j < p \<Longrightarrow> cmp (b ! j) (b ! nat p)"
        "\<And>j. p < int j \<Longrightarrow> int j \<le> right \<Longrightarrow> \<not> cmp (b ! j) (b ! nat p)"
      using qs_partition_spec [of left "(left + right) div 2" right a cmp] less.prems by auto
    have lb: "length b = length a" using b(4) by (simp add: perm_within_def)
    obtain c where c: "qs_sort cmp b left (p - 1) = Some (Inr c)" "perm_within left (p - 1) b c"
        "\<And>i j. left \<le> int i \<Longrightarrow> i < j \<Longrightarrow> int j \<le> p - 1 \<Longrightarrow> \<not> cmp (c ! j) (c ! i)"
      using less.hyps [of "p - 1" left b] less.prems b(2,3) lb by auto
    have lc: "length c = length a" using c(2) lb by (simp add: perm_within_def)
    obtain d where d: "qs_sort cmp c (p + 1) right = Some (Inr d)" "perm_within (p + 1) right c d"
        "\<And>i j. p + 1 \<le> int i \<Longrightarrow> i < j \<Longrightarrow> int j \<le> right \<Longrightarrow> \<not> cmp (d ! j) (d ! i)"
      using less.hyps [of right "p + 1" c] less.prems b(2,3) lc by auto
    have run: "qs_sort cmp a left right = Some (Inr d)"
      using True b(1) c(1) d(1) by (subst qs_sort.simps) simp
    have "perm_within left right b c" "perm_within left right c d"
      using perm_within_mono [OF c(2)] perm_within_mono [OF d(2)] b(2,3) by simp_all
    then have perm: "perm_within left right a d" using b(4) perm_within_trans by blast
    have keep: "d ! j = c ! j" if "int j \<le> p" for j
      using that d(2) b(3) less.prems lc by (auto simp: perm_within_def)
    have cp: "c ! j = b ! j" if "p \<le> int j" "int j \<le> right" for j
      using that c(2) less.prems lb by (auto simp: perm_within_def)
    have pivot: "d ! nat p = b ! nat p" using keep [of "nat p"] cp [of "nat p"] b(2,3) less.prems(2) by simp
    have lo: "cmp (d ! j) (d ! nat p)" if "left \<le> int j" "int j < p" for j
    proof -
      have "cmp (c ! j) (b ! nat p)"
        using that b(3,5) less.prems lb
        by (intro perm_within_segment [OF c(2), where P = "\<lambda>x. cmp x (b ! nat p)" and k = j]) auto
      then show ?thesis using keep [of j] that pivot by simp
    qed
    have hi: "\<not> cmp (d ! j) (d ! nat p)" if "p < int j" "int j \<le> right" for j
      unfolding pivot using that b(2,6) cp less.prems lc
      by (intro perm_within_segment [OF d(2), where P = "\<lambda>x. \<not> cmp x (b ! nat p)" and k = j]) auto
    have "\<not> cmp (d ! j) (d ! i)" if ij: "left \<le> int i" "i < j" "int j \<le> right" for i j
    proof -
      consider "int j < p" | "int j = p" | "int i < p" "p < int j" | "int i = p" | "p < int i"
        using ij by linarith
      then show ?thesis
      proof cases
        case 1 then show ?thesis using c(3) [of i j] ij keep [of i] keep [of j] by auto
      next
        case 2
        then have "cmp (d ! i) (d ! j)" using lo [of i] ij by auto
        then show ?thesis by (rule strict_weakD(1) [OF less.prems(1)])
      next
        case 3
        then have "\<not> cmp (d ! nat p) (d ! i)" using lo [of i] ij strict_weakD(1) [OF less.prems(1)] by blast
        then show ?thesis using hi [of j] 3 ij strict_weakD(2) [OF less.prems(1)] by blast
      next
        case 4 then show ?thesis using hi [of j] ij by auto
      next
        case 5 then show ?thesis using d(3) [of i j] ij by auto
      qed
    qed
    then show ?thesis using run perm by blast
  qed
qed

text \<open>Claim C15. \<^verbatim>\<open>Quicksort::sort\<close> sorts: for every comparison function that is a strict weak
  order and every array of fewer than 2^31 elements, the recursion ends, never
  accesses an element outside the array, and leaves a permutation of the array in
  which no element compares less than one before it.\<close>

theorem quicksort_sorts:
  assumes "strict_weak cmp" "length a < 2 ^ 31"
  shows "\<exists>b. quicksort cmp a = Some (Inr b) \<and> mset b = mset a \<and> sorted_wrt (\<lambda>x y. \<not> cmp y x) b"
proof (cases "length a > 1")
  case True
  then show ?thesis using qs_sort_spec [of cmp 0 "int (length a) - 1" a] assms
    by (auto simp: quicksort_def perm_within_def sorted_wrt_iff_nth_less)
next
  case False
  then show ?thesis by (cases a) (auto simp: quicksort_def)
qed

theorem quicksort_sorts_witness:
  "strict_weak ((<) :: int \<Rightarrow> int \<Rightarrow> bool) \<and>
   (\<exists>b. quicksort (<) [3, 1, 2, 1 :: int] = Some (Inr b) \<and> mset b = mset [3, 1, 2, 1]
      \<and> sorted_wrt (\<lambda>x y. \<not> y < x) b)"
proof
  show w: "strict_weak ((<) :: int \<Rightarrow> int \<Rightarrow> bool)" by (rule strict_weak_key)
  show "\<exists>b. quicksort (<) [3, 1, 2, 1 :: int] = Some (Inr b) \<and> mset b = mset [3, 1, 2, 1]
      \<and> sorted_wrt (\<lambda>x y. \<not> y < x) b"
    by (rule quicksort_sorts [OF w]) simp
qed

end
