(* ===== verification/RegionManager.thy ===== *)
theory RegionManager
  imports MathUtil "HOL-Library.Multiset"
begin

text \<open>
  The region manager of \<^verbatim>\<open>include/region/RegionManager.h\<close>, which hands out chunks of a
  resource (memory, I/O ports), and the port manager of \<^verbatim>\<open>include/region/PortManager.h\<close>
  on top of it. The doubly linked list of regions is a sequence (\<^verbatim>\<open>DList\<close> implements
  one, see \<^verbatim>\<open>DList.thy\<close>) and a pointer to a region is its position. All sizes and
  addresses are 64-bit words, so that the wrap-around of the code's sums and
  differences is part of the model.
\<close>

section \<open>Definitions\<close>

record region =
  raddr :: u64
  rsize :: u64

definition total_count :: "region list \<Rightarrow> u64" where
  "total_count rs = foldl (\<lambda>s r. s + rsize r) 0 rs"

definition remove_reg :: "region list \<Rightarrow> nat \<Rightarrow> region list" where
  "remove_reg rs i = take i rs @ drop (Suc i) rs"

text \<open>\<^verbatim>\<open>remove_from\<close> takes a range out of the region at a position and returns the number
  of units it reports.\<close>

definition remove_from :: "region list \<Rightarrow> nat \<Rightarrow> u64 \<Rightarrow> u64 \<Rightarrow> u64 \<times> region list" where
  "remove_from rs i start cnt =
     (let r = rs ! i in
      if start \<le> raddr r \<and> start + cnt \<ge> raddr r + rsize r then (rsize r, remove_reg rs i)
      else if start \<le> raddr r
        then (cnt, rs[i := \<lparr>raddr = start + cnt, rsize = rsize r - ((start + cnt) - raddr r)\<rparr>])
      else if start + cnt \<ge> raddr r + rsize r
        then (cnt, rs[i := r\<lparr>rsize := start - raddr r\<rparr>])
      else (cnt, rs[i := r\<lparr>rsize := start - raddr r\<rparr>]
              @ [\<lparr>raddr = start + cnt, rsize = (raddr r + rsize r) - (start + cnt)\<rparr>]))"

text \<open>The loop of \<^verbatim>\<open>alloc_at\<close>. After a removal the iterator is reset to the beginning and then
  advanced by the loop header, which dereferences it; \<^term>\<open>None\<close> stands for a loop that does
  not end.\<close>

partial_function (option) alloc_at_loop ::
    "u64 \<Rightarrow> u64 \<Rightarrow> bool \<Rightarrow> region list \<Rightarrow> nat \<Rightarrow> u64 \<Rightarrow> (u64 \<times> region list) res option" where
  "alloc_at_loop start cnt free_required rs i tot =
     (if i \<ge> length rs then Some (Inr (tot, rs))
      else if overlapped start cnt (raddr (rs ! i)) (rsize (rs ! i)) then
        (if free_required \<and> \<not> (start \<ge> raddr (rs ! i)
              \<and> start + cnt \<le> raddr (rs ! i) + rsize (rs ! i))
         then Some (Inl (Throw E_EXISTS))
         else (case remove_from rs i start cnt of (res, rs') \<Rightarrow>
                if free_required then Some (Inr (tot + res, rs'))
                else if rs' = [] then Some (Inl Undefined)
                else alloc_at_loop start cnt free_required rs' 1 (tot + res)))
      else alloc_at_loop start cnt free_required rs (Suc i) tot)"

declare alloc_at_loop.simps [code]

definition alloc_at :: "region list \<Rightarrow> u64 \<Rightarrow> u64 \<Rightarrow> bool \<Rightarrow> (u64 \<times> region list) res option" where
  "alloc_at rs start cnt free_required = alloc_at_loop start cnt free_required rs 0 0"

text \<open>The start of the aligned block in a region: \<^verbatim>\<open>(addr + align - 1) & ~(align - 1)\<close>.\<close>

definition aligned_start :: "region \<Rightarrow> u64 \<Rightarrow> u64" where
  "aligned_start r align = (raddr r + align - 1) AND NOT (align - 1)"

fun get_reg :: "region list \<Rightarrow> nat \<Rightarrow> u64 \<Rightarrow> u64 \<Rightarrow> nat option" where
  "get_reg [] i cnt align = None"
| "get_reg (r # rs) i cnt align =
     (if rsize r \<ge> cnt \<and> rsize r - (aligned_start r align - raddr r) \<ge> cnt then Some i
      else get_reg rs (Suc i) cnt align)"

definition alloc :: "region list \<Rightarrow> u64 \<Rightarrow> u64 \<Rightarrow> (u64 \<times> region list) res" where
  "alloc rs cnt align = (case get_reg rs 0 cnt align of
      None \<Rightarrow> Inl (Throw E_CAPACITY)
    | Some i \<Rightarrow>
        let r = rs ! i;
            org = raddr r;
            start = aligned_start r align;
            cnt = cnt + (start - raddr r);
            r = r\<lparr>raddr := raddr r + cnt, rsize := rsize r - cnt\<rparr>;
            (r, new) = (if start > org
              then (if rsize r > 0 then (r, [\<lparr>raddr = org, rsize = start - org\<rparr>])
                    else (\<lparr>raddr = org, rsize = start - org\<rparr>, []))
              else (r, []));
            rs = rs[i := r] @ new
        in Inr (start, if rsize r = 0 then remove_reg rs i else rs))"

text \<open>The search loop of \<^verbatim>\<open>free\<close>: the region that ends at the start of the freed range and the
  one that begins at its end.\<close>

fun free_find :: "u64 \<Rightarrow> u64 \<Rightarrow> region list \<Rightarrow> nat \<Rightarrow> nat option \<Rightarrow> nat option \<Rightarrow> nat option \<times> nat option" where
  "free_find start cnt [] i p n = (p, n)"
| "free_find start cnt (r # rs) i p n =
     (let (p, n) = (if raddr r + rsize r = start then (Some i, n)
                    else if raddr r = start + cnt then (p, Some i) else (p, n))
      in if n \<noteq> None \<and> p \<noteq> None then (p, n) else free_find start cnt rs (Suc i) p n)"

definition free_reg :: "region list \<Rightarrow> u64 \<Rightarrow> u64 \<Rightarrow> region list" where
  "free_reg rs start cnt = (case free_find start cnt rs 0 None None of
      (Some p, Some n) \<Rightarrow>
        remove_reg (rs[p := (rs ! p)\<lparr>rsize := rsize (rs ! p) + (cnt + rsize (rs ! n))\<rparr>]) n
    | (None, Some n) \<Rightarrow>
        rs[n := \<lparr>raddr = raddr (rs ! n) - cnt, rsize = rsize (rs ! n) + cnt\<rparr>]
    | (Some p, None) \<Rightarrow> rs[p := (rs ! p)\<lparr>rsize := rsize (rs ! p) + cnt\<rparr>]
    | (None, None) \<Rightarrow> rs @ [\<lparr>raddr = start, rsize = cnt\<rparr>])"

text \<open>\<^verbatim>\<open>PortManager\<close>: ports are \<^verbatim>\<open>uint16_t\<close>, counts are \<^verbatim>\<open>uint\<close>.\<close>

datatype pm_mode = FREE | USED

record port_manager =
  pm_mode :: pm_mode
  pm_ports :: "region list"

definition pm_free :: "port_manager \<Rightarrow> u16 \<Rightarrow> u32 \<Rightarrow> port_manager res option" where
  "pm_free pm start cnt = Some (Inr (pm\<lparr>pm_ports := free_reg (pm_ports pm) (ucast start) (ucast cnt)\<rparr>))"

definition pm_take :: "port_manager \<Rightarrow> u16 \<Rightarrow> u32 \<Rightarrow> port_manager res option" where
  "pm_take pm start cnt =
     map_option (\<lambda>r. bindR r (\<lambda>(_, rs). Inr (pm\<lparr>pm_ports := rs\<rparr>)))
       (alloc_at (pm_ports pm) (ucast start) (ucast cnt) True)"

definition pm_add :: "port_manager \<Rightarrow> u16 \<Rightarrow> u32 \<Rightarrow> port_manager res option" where
  "pm_add pm start cnt = (if pm_mode pm = FREE then pm_free pm start cnt else pm_take pm start cnt)"

definition pm_remove :: "port_manager \<Rightarrow> u16 \<Rightarrow> u32 \<Rightarrow> port_manager res option" where
  "pm_remove pm start cnt = (if pm_mode pm = FREE then pm_take pm start cnt else pm_free pm start cnt)"

text \<open>What a region list stands for: the set of units it holds. A well-formed list has
  non-empty regions that do not wrap around and neither overlap nor touch.\<close>

definition reg_end :: "region \<Rightarrow> nat" where
  "reg_end r = unat (raddr r) + unat (rsize r)"

definition reg_units :: "region \<Rightarrow> nat set" where
  "reg_units r = {unat (raddr r) ..< reg_end r}"

definition units :: "region list \<Rightarrow> nat set" where
  "units rs = (\<Union>r \<in> set rs. reg_units r)"

definition reg_ok :: "region \<Rightarrow> bool" where
  "reg_ok r \<longleftrightarrow> 0 < rsize r \<and> reg_end r < 2 ^ 64"

definition apart :: "region \<Rightarrow> region \<Rightarrow> bool" where
  "apart r s \<longleftrightarrow> reg_end r < unat (raddr s) \<or> reg_end s < unat (raddr r)"

text \<open>The alignment padding of a region does not exceed the region.\<close>

definition pad_fits :: "u64 \<Rightarrow> region \<Rightarrow> bool" where
  "pad_fits align r \<longleftrightarrow> raddr r \<le> aligned_start r align \<and> unat (aligned_start r align) \<le> reg_end r"

text \<open>The same for all regions that \<^verbatim>\<open>get\<close> considers for a request. For a shorter region the difference
  \<^verbatim>\<open>size - (start - addr)\<close> wraps around.\<close>

definition pads_fit :: "region list \<Rightarrow> u64 \<Rightarrow> u64 \<Rightarrow> bool" where
  "pads_fit rs cnt align \<longleftrightarrow> (\<forall>r \<in> set rs. cnt \<le> rsize r \<longrightarrow> pad_fits align r)"

definition regs_ok :: "region list \<Rightarrow> bool" where
  "regs_ok rs \<longleftrightarrow> (\<forall>r \<in> set rs. reg_ok r) \<and> sorted_wrt apart rs"

text \<open>The contract that the memory managers rely on, with the requests that the manager can
  serve correctly, and the runs of a client that allocates aligned blocks and frees
  blocks it owns.\<close>

definition blk :: "u64 \<times> u64 \<Rightarrow> nat set" where
  "blk b = {unat (fst b) ..< unat (fst b) + unat (snd b)}"

definition alloc_block :: "region list \<Rightarrow> u64 \<Rightarrow> u64 \<Rightarrow> (u64 \<times> region list) option" where
  "alloc_block rs cnt align = (case alloc rs cnt align of Inl _ \<Rightarrow> None | Inr x \<Rightarrow> Some x)"

inductive pool_reach ::
    "('s \<Rightarrow> u64 \<Rightarrow> u64 \<Rightarrow> bool) \<Rightarrow> ('s \<Rightarrow> u64 \<Rightarrow> u64 \<Rightarrow> (u64 \<times> 's) option) \<Rightarrow> ('s \<Rightarrow> u64 \<Rightarrow> u64 \<Rightarrow> 's)
       \<Rightarrow> 's \<Rightarrow> 's \<Rightarrow> (u64 \<times> u64) list \<Rightarrow> bool"
  for adm :: "'s \<Rightarrow> u64 \<Rightarrow> u64 \<Rightarrow> bool" and al :: "'s \<Rightarrow> u64 \<Rightarrow> u64 \<Rightarrow> (u64 \<times> 's) option"
    and fr :: "'s \<Rightarrow> u64 \<Rightarrow> u64 \<Rightarrow> 's" and s0 :: 's
where
  pool_init: "pool_reach adm al fr s0 s0 []"
| pool_alloc: "pool_reach adm al fr s0 s bs \<Longrightarrow> 0 < c \<Longrightarrow> adm s c align \<Longrightarrow> al s c align = Some (a, s') \<Longrightarrow>
    pool_reach adm al fr s0 s' ((a, c) # bs)"
| pool_free: "pool_reach adm al fr s0 s bs \<Longrightarrow> (a, c) \<in> set bs \<Longrightarrow>
    pool_reach adm al fr s0 (fr s a c) (remove1 (a, c) bs)"

definition disjoint_blocks :: "(u64 \<times> u64) list \<Rightarrow> bool" where
  "disjoint_blocks bs \<longleftrightarrow> sorted_wrt (\<lambda>x y. blk x \<inter> blk y = {}) bs"

locale region_pool =
  fixes ok :: "'s \<Rightarrow> bool" and pool :: "'s \<Rightarrow> nat set" and adm :: "'s \<Rightarrow> u64 \<Rightarrow> u64 \<Rightarrow> bool"
    and al :: "'s \<Rightarrow> u64 \<Rightarrow> u64 \<Rightarrow> (u64 \<times> 's) option" and fr :: "'s \<Rightarrow> u64 \<Rightarrow> u64 \<Rightarrow> 's"
  assumes al_law: "ok s \<Longrightarrow> 0 < c \<Longrightarrow> adm s c align \<Longrightarrow> al s c align = Some (a, s') \<Longrightarrow> ok s' \<and> blk (a, c) \<subseteq> pool s
      \<and> pool s' = pool s - blk (a, c) \<and> unat a + unat c < 2 ^ 64"
    and fr_law: "ok s \<Longrightarrow> 0 < c \<Longrightarrow> unat a + unat c < 2 ^ 64 \<Longrightarrow> blk (a, c) \<inter> pool s = {} \<Longrightarrow>
      ok (fr s a c) \<and> pool (fr s a c) = pool s \<union> blk (a, c)"
begin

lemma reach_inv:
  assumes "pool_reach adm al fr s0 s bs" "ok s0"
  shows "ok s \<and> disjoint_blocks bs \<and> (\<forall>b \<in> set bs. blk b \<inter> pool s = {})
    \<and> pool s \<union> (\<Union>b \<in> set bs. blk b) = pool s0
    \<and> (\<forall>b \<in> set bs. 0 < snd b \<and> unat (fst b) + unat (snd b) < 2 ^ 64)"
  using assms
proof (induction rule: pool_reach.induct)
  case pool_init
  then show ?case by (simp add: disjoint_blocks_def)
next
  case (pool_alloc s bs c align a s')
  then have I: "ok s" "disjoint_blocks bs" "\<forall>b \<in> set bs. blk b \<inter> pool s = {}"
      "pool s \<union> (\<Union>b \<in> set bs. blk b) = pool s0"
      "\<forall>b \<in> set bs. 0 < snd b \<and> unat (fst b) + unat (snd b) < 2 ^ 64" by auto
  have A: "ok s'" "blk (a, c) \<subseteq> pool s" "pool s' = pool s - blk (a, c)" "unat a + unat c < 2 ^ 64"
    using al_law [OF I(1) pool_alloc.hyps(2-4)] by auto
  have "blk (a, c) \<inter> blk b = {}" if "b \<in> set bs" for b using A(2) I(3) that by blast
  then have "disjoint_blocks ((a, c) # bs)" using I(2) by (simp add: disjoint_blocks_def)
  moreover have "blk b \<inter> pool s' = {}" if "b \<in> set ((a, c) # bs)" for b using A(3) I(3) that by auto
  moreover have "pool s' \<union> (\<Union>b \<in> set ((a, c) # bs). blk b) = pool s0" using A(2,3) I(4) by auto
  ultimately show ?case using A(1,4) I(5) pool_alloc.hyps(2) by auto
next
  case (pool_free s bs a c)
  then have I: "ok s" "disjoint_blocks bs" "\<forall>b \<in> set bs. blk b \<inter> pool s = {}"
      "pool s \<union> (\<Union>b \<in> set bs. blk b) = pool s0"
      "\<forall>b \<in> set bs. 0 < snd b \<and> unat (fst b) + unat (snd b) < 2 ^ 64" by auto
  have m: "0 < c" "unat a + unat c < 2 ^ 64" "blk (a, c) \<inter> pool s = {}" using I(3,5) pool_free.hyps(2) by auto
  have F: "ok (fr s a c)" "pool (fr s a c) = pool s \<union> blk (a, c)" using fr_law [OF I(1) m] by auto
  obtain ys zs where bs: "bs = ys @ (a, c) # zs" "(a, c) \<notin> set ys"
    using split_list_first [OF pool_free.hyps(2)] by blast
  have r: "remove1 (a, c) bs = ys @ zs" using bs by (simp add: remove1_append)
  have d: "blk (a, c) \<inter> blk b = {}" if "b \<in> set (ys @ zs)" for b
    using I(2) that by (auto simp: bs disjoint_blocks_def sorted_wrt_append)
  have "disjoint_blocks (ys @ zs)" using I(2) by (simp add: bs disjoint_blocks_def sorted_wrt_append)
  moreover have "blk b \<inter> pool (fr s a c) = {}" if "b \<in> set (ys @ zs)" for b
    using that d [OF that] I(3) F(2) by (auto simp: bs)
  moreover have "pool (fr s a c) \<union> (\<Union>b \<in> set (ys @ zs). blk b) = pool s0"
    using F(2) I(4) by (auto simp: bs)
  moreover have "\<forall>b \<in> set (ys @ zs). 0 < snd b \<and> unat (fst b) + unat (snd b) < 2 ^ 64"
    using I(5) by (auto simp: bs)
  ultimately show ?case using F(1) unfolding r by blast
qed

end

section \<open>Well-formed region lists\<close>

lemma apart_sym: "apart r s \<longleftrightarrow> apart s r"
  by (auto simp: apart_def)

lemma regs_ok_Nil [simp]: "regs_ok []"
  by (simp add: regs_ok_def)

lemma regs_ok_Cons: "regs_ok (r # rs) \<longleftrightarrow> reg_ok r \<and> regs_ok rs \<and> (\<forall>s \<in> set rs. apart r s)"
  by (auto simp: regs_ok_def)

lemma regs_ok_middle: "regs_ok (ys @ r # zs) \<longleftrightarrow> regs_ok (r # ys @ zs)"
  by (auto simp: regs_ok_def sorted_wrt_append apart_sym)

lemma regs_ok_perm: "mset rs = mset rs' \<Longrightarrow> regs_ok rs \<longleftrightarrow> regs_ok rs'"
proof (induction rs arbitrary: rs')
  case (Cons r rs)
  then have "r \<in> set rs'" by (metis list.set_intros(1) mset_eq_setD)
  then obtain ys zs where z: "rs' = ys @ r # zs" by (auto dest: split_list)
  have m: "mset rs = mset (ys @ zs)" using Cons.prems by (simp add: z)
  have "regs_ok (r # rs) \<longleftrightarrow> regs_ok (r # ys @ zs)"
    unfolding regs_ok_Cons using Cons.IH [OF m] mset_eq_setD [OF m] by auto
  then show ?case by (simp add: z regs_ok_middle)
qed simp

lemma units_simps [simp]:
  "units [] = {}" "units (r # rs) = reg_units r \<union> units rs" "units (xs @ ys) = units xs \<union> units ys"
  by (auto simp: units_def)

lemma units_perm: "mset rs = mset rs' \<Longrightarrow> units rs = units rs'"
  unfolding units_def using mset_eq_setD [of rs rs'] by simp

lemma mset_remove_reg: "i < length rs \<Longrightarrow> add_mset (rs ! i) (mset (remove_reg rs i)) = mset rs"
proof -
  assume "i < length rs"
  then have "mset rs = mset (take i rs @ rs ! i # drop (Suc i) rs)" by (simp only: id_take_nth_drop [symmetric])
  then show ?thesis by (simp add: remove_reg_def)
qed

lemma mset_update_reg: "i < length rs \<Longrightarrow> mset (rs[i := r]) = add_mset r (mset (remove_reg rs i))"
  using mset_remove_reg [of i rs] by (simp add: mset_update) (metis add_mset_remove_trivial)

lemma reg_ok_size: "reg_ok r \<Longrightarrow> 0 < unat (rsize r)"
  by (simp add: reg_ok_def word_less_nat_alt)

lemma apart_disjoint: "apart r s \<Longrightarrow> reg_units r \<inter> reg_units s = {}"
  by (auto simp: apart_def reg_units_def reg_end_def)

lemma apart_part:
  assumes "apart r s" "unat (raddr r) \<le> unat (raddr r')" "reg_end r' \<le> reg_end r"
  shows "apart r' s"
  using assms by (auto simp: apart_def)

lemma reg_units_part:
  "unat (raddr r) \<le> unat (raddr r') \<Longrightarrow> reg_end r' \<le> reg_end r \<Longrightarrow> reg_units r' \<subseteq> reg_units r"
  by (auto simp: reg_units_def)

lemma regs_ok_disjoint: "regs_ok (r # rs) \<Longrightarrow> reg_units r \<inter> units rs = {}"
  using apart_disjoint by (fastforce simp: regs_ok_Cons units_def)

text \<open>Replacing a region by parts of it that are apart from each other.\<close>

lemma regs_ok_replace:
  assumes "regs_ok (r # rest)" "regs_ok new"
    and "\<And>n. n \<in> set new \<Longrightarrow> unat (raddr r) \<le> unat (raddr n) \<and> reg_end n \<le> reg_end r"
  shows "regs_ok (new @ rest)"
  using assms(2,3)
proof (induction new)
  case Nil
  then show ?case using assms(1) by (simp add: regs_ok_Cons)
next
  case (Cons n new)
  have "apart n s" if "s \<in> set rest" for s
    using apart_part [of r s n] Cons.prems(2) [of n] assms(1) that by (auto simp: regs_ok_Cons)
  then show ?case using Cons by (auto simp: regs_ok_Cons)
qed

lemma units_replace:
  assumes "regs_ok (r # rest)" "units new = reg_units r - X" "X \<subseteq> reg_units r"
  shows "units (new @ rest) = units (r # rest) - X"
  using regs_ok_disjoint [OF assms(1)] assms(2,3) by auto

section \<open>Allocation\<close>

lemma get_reg_Some:
  "get_reg rs k cnt align = Some i \<Longrightarrow> \<exists>j < length rs. i = k + j \<and> cnt \<le> rsize (rs ! j)
     \<and> cnt \<le> rsize (rs ! j) - (aligned_start (rs ! j) align - raddr (rs ! j))"
proof (induction rs arbitrary: k)
  case (Cons a rs)
  show ?case
  proof (cases "cnt \<le> rsize a \<and> cnt \<le> rsize a - (aligned_start a align - raddr a)")
    case True
    then show ?thesis using Cons.prems by (intro exI [of _ 0]) simp
  next
    case False
    then obtain j where "j < length rs" "i = Suc k + j" "cnt \<le> rsize (rs ! j)"
        "cnt \<le> rsize (rs ! j) - (aligned_start (rs ! j) align - raddr (rs ! j))"
      using Cons.IH [of "Suc k"] Cons.prems by (auto split: if_splits)
    then show ?thesis by (intro exI [of _ "Suc j"]) simp
  qed
qed simp

lemma get_reg_None:
  "get_reg rs k cnt align = None \<Longrightarrow> r \<in> set rs \<Longrightarrow> \<not> (cnt \<le> rsize r
     \<and> cnt \<le> rsize r - (aligned_start r align - raddr r))"
  by (induction rs arbitrary: k) (auto split: if_splits)

lemma aligned_start_dvd: "2 ^ k dvd unat (aligned_start r (2 ^ k))"
  by (simp add: aligned_start_def pow2_minus_1_mask unat_and_not_mask dvd_minus_mod)

lemma pad_room:
  assumes "reg_ok r" "pad_fits align r"
  shows "cnt \<le> rsize r - (aligned_start r align - raddr r) \<longleftrightarrow>
    unat (aligned_start r align) + unat cnt \<le> reg_end r"
proof -
  have le: "unat (raddr r) \<le> unat (aligned_start r align)" "unat (aligned_start r align) \<le> reg_end r"
    using assms(2) by (auto simp: pad_fits_def word_le_nat_alt)
  then have p: "unat (aligned_start r align - raddr r) = unat (aligned_start r align) - unat (raddr r)"
    by (intro unat_diff_small) (simp add: word_le_nat_alt)
  have "unat (rsize r - (aligned_start r align - raddr r))
      = unat (rsize r) - (unat (aligned_start r align) - unat (raddr r))"
    using le by (subst unat_diff_small) (auto simp: word_le_nat_alt p reg_end_def)
  then show ?thesis using le by (auto simp: word_le_nat_alt reg_end_def)
qed

lemma remove_reg_update [simp]: "remove_reg (rs[j := x]) j = remove_reg rs j"
  by (simp add: remove_reg_def)

lemma unat_word_simps:
  fixes a b :: u64
  shows "unat a + unat b < 2 ^ 64 \<Longrightarrow> unat (a + b) = unat a + unat b"
    and "unat b \<le> unat a \<Longrightarrow> unat (a - b) = unat a - unat b"
  by (simp_all add: unat_add_small unat_diff_small word_le_nat_alt)

lemma alloc_cut:
  assumes ok: "regs_ok rs" and j: "j < length rs" "get_reg rs 0 cnt align = Some j"
    and fits: "pad_fits align (rs ! j)" and cnt: "0 < unat cnt"
  defines "r \<equiv> rs ! j" and "S \<equiv> unat (aligned_start (rs ! j) align)"
  assumes room: "S + unat cnt \<le> reg_end r"
  shows "\<exists>rs' new. alloc rs cnt align = Inr (aligned_start r align, rs')
    \<and> mset rs' = mset (new @ remove_reg rs j) \<and> regs_ok new
    \<and> (\<forall>n \<in> set new. unat (raddr r) \<le> unat (raddr n) \<and> reg_end n \<le> reg_end r)
    \<and> units new = reg_units r - {S ..< S + unat cnt} \<and> {S ..< S + unat cnt} \<subseteq> reg_units r"
proof -
  have rok: "reg_ok r" using ok j(1) by (auto simp: regs_ok_def r_def)
  define A E where "A = unat (raddr r)" and "E = reg_end r"
  have E: "E = A + unat (rsize r)" "E < 2 ^ 64" using rok by (auto simp: A_def E_def reg_end_def reg_ok_def)
  have AS: "A \<le> S" using fits by (auto simp: pad_fits_def word_le_nat_alt A_def S_def r_def)
  have SE: "S + unat cnt \<le> E" using room by (simp add: E_def)
  define st where "st = aligned_start r align"
  have S: "unat st = S" by (simp add: st_def S_def r_def)
  define c where "c = cnt + (st - raddr r)"
  have c: "unat c = unat cnt + (S - A)"
    using AS SE E by (simp add: c_def unat_word_simps S A_def [symmetric])
  define r1 where "r1 = r\<lparr>raddr := raddr r + c, rsize := rsize r - c\<rparr>"
  have r1: "unat (raddr r1) = S + unat cnt" "unat (rsize r1) = E - (S + unat cnt)"
    using AS SE E c by (simp_all add: r1_def unat_word_simps A_def [symmetric])
  have pre: "unat (st - raddr r) = S - A" using AS by (simp add: unat_word_simps S A_def)
  have gt: "raddr r < st \<longleftrightarrow> A < S" by (simp add: word_less_nat_alt A_def S)
  have z: "rsize r1 = 0 \<longleftrightarrow> E = S + unat cnt" using SE r1(2) by (simp add: unat_eq_zero [symmetric])
  have al: "alloc rs cnt align =
     (let (r2, new) = (if raddr r < st then (if rsize r1 > 0 then (r1, [\<lparr>raddr = raddr r, rsize = st - raddr r\<rparr>])
         else (\<lparr>raddr = raddr r, rsize = st - raddr r\<rparr>, [])) else (r1, []));
       rs = rs[j := r2] @ new in Inr (st, if rsize r2 = 0 then remove_reg rs j else rs))"
    using j(2) by (simp add: alloc_def Let_def r_def [symmetric] st_def [symmetric] c_def [symmetric] r1_def [symmetric])
  define front where "front = \<lparr>raddr = raddr r, rsize = st - raddr r\<rparr>"
  have front: "unat (raddr front) = A" "unat (rsize front) = S - A" "reg_end front = S"
    using AS pre by (simp_all add: front_def A_def [symmetric] reg_end_def)
  have r1e: "reg_end r1 = E" using r1 SE by (simp add: reg_end_def)
  have ru: "reg_units r = {A ..< E}" by (simp add: reg_units_def A_def E_def)
  have r1ok: "reg_ok r1" if "E \<noteq> S + unat cnt"
    using r1e E(2) z that by (simp add: reg_ok_def word_gt_0)
  have fok: "reg_ok front" if "A < S"
    using front SE E(2) that by (simp add: reg_ok_def word_less_nat_alt)
  have al': "alloc rs cnt align = Inr (st,
      if A = S then (if E = S + unat cnt then remove_reg rs j else rs[j := r1])
      else (if E = S + unat cnt then rs[j := front] else rs[j := r1] @ [front]))"
  proof -
    have f0: "rsize front \<noteq> 0" if "A < S" using front(2) that by (auto simp: unat_eq_zero [symmetric])
    have r0: "0 < rsize r1 \<longleftrightarrow> E \<noteq> S + unat cnt" using z by (simp add: word_gt_0)
    show ?thesis unfolding al front_def [symmetric] gt r0 using AS z f0
      by (cases "A = S"; cases "E = S + unat cnt") simp_all
  qed
  define new where "new = (if A = S then [] else [front]) @ (if E = S + unat cnt then [] else [r1])"
  have m: "mset (if A = S then (if E = S + unat cnt then remove_reg rs j else rs[j := r1])
      else (if E = S + unat cnt then rs[j := front] else rs[j := r1] @ [front])) = mset (new @ remove_reg rs j)"
    using j(1) by (simp add: new_def mset_update_reg)
  have "regs_ok new" using AS fok r1ok front r1 cnt by (auto simp: new_def regs_ok_Cons apart_def)
  moreover have "\<forall>n \<in> set new. unat (raddr r) \<le> unat (raddr n) \<and> reg_end n \<le> reg_end r"
    using AS SE front(1,3) r1(1) r1e by (auto simp: new_def A_def E_def)
  moreover have "units new = reg_units r - {S ..< S + unat cnt}"
  proof -
    have "reg_units front = {A ..< S}" "reg_units r1 = {S + unat cnt ..< E}"
      by (simp_all add: reg_units_def front(1,3) r1(1) r1e)
    then show ?thesis using AS SE by (auto simp: new_def ru)
  qed
  moreover have "{S ..< S + unat cnt} \<subseteq> reg_units r" using AS SE by (auto simp: ru)
  ultimately show ?thesis using al' m unfolding st_def by blast
qed

lemma alloc_effect:
  assumes ok: "regs_ok rs" and cnt: "0 < unat cnt" and fits: "pads_fit rs cnt align"
    and al: "alloc rs cnt align = Inr (a, rs')"
  shows "regs_ok rs' \<and> {unat a ..< unat a + unat cnt} \<subseteq> units rs
    \<and> units rs' = units rs - {unat a ..< unat a + unat cnt} \<and> (\<exists>r. a = aligned_start r align)"
proof -
  obtain j where g: "get_reg rs 0 cnt align = Some j"
    using al by (auto simp: alloc_def split: option.splits)
  then have j: "j < length rs" "cnt \<le> rsize (rs ! j) - (aligned_start (rs ! j) align - raddr (rs ! j))" "cnt \<le> rsize (rs ! j)"
    using get_reg_Some [OF g] by auto
  have rok: "reg_ok (rs ! j)" "pad_fits align (rs ! j)" using ok fits j(1,3) by (auto simp: regs_ok_def pads_fit_def)
  have room: "unat (aligned_start (rs ! j) align) + unat cnt \<le> reg_end (rs ! j)"
    using j(2) pad_room [OF rok] by blast
  obtain new where new: "a = aligned_start (rs ! j) align" "mset rs' = mset (new @ remove_reg rs j)" "regs_ok new"
      "\<And>n. n \<in> set new \<Longrightarrow> unat (raddr (rs ! j)) \<le> unat (raddr n) \<and> reg_end n \<le> reg_end (rs ! j)"
      "units new = reg_units (rs ! j) - {unat a ..< unat a + unat cnt}"
      "{unat a ..< unat a + unat cnt} \<subseteq> reg_units (rs ! j)"
    using alloc_cut [OF ok j(1) g rok(2) cnt room] al by auto
  have p: "mset rs = mset (rs ! j # remove_reg rs j)" using mset_remove_reg [OF j(1)] by simp
  have ok': "regs_ok (rs ! j # remove_reg rs j)" using ok regs_ok_perm [OF p] by blast
  have "units rs' = units rs - {unat a ..< unat a + unat cnt}"
    using units_replace [OF ok' new(5,6)] units_perm [OF new(2)] units_perm [OF p] by simp
  moreover have "regs_ok rs'" using regs_ok_replace [OF ok' new(3,4)] regs_ok_perm [OF new(2)] by blast
  moreover have "{unat a ..< unat a + unat cnt} \<subseteq> units rs"
    using new(6) units_perm [OF p] by auto
  ultimately show ?thesis using new(1) by blast
qed

lemma aligned_start_least:
  assumes "pad_fits (2 ^ k) r" "k < 64" "2 ^ k dvd x" "unat (raddr r) \<le> x"
  shows "unat (aligned_start r (2 ^ k)) \<le> x"
proof (cases "unat (raddr r) + 2 ^ k \<le> 2 ^ 64")
  case True
  then have "unat (aligned_start r (2 ^ k)) = (unat (raddr r) + 2 ^ k - 1) div 2 ^ k * 2 ^ k"
    using unat_round_up [of k "raddr r"] assms(2) by (simp add: aligned_start_def round_up_def)
  moreover obtain q where q: "x = 2 ^ k * q" using assms(3) by (rule dvdE)
  have "(unat (raddr r) + 2 ^ k - 1) div 2 ^ k \<le> q"
  proof -
    have "unat (raddr r) + 2 ^ k - 1 < 2 ^ k * Suc q" using assms(4) q zero_less_power [of "2::nat" k]
      by (simp only: mult_Suc_right) linarith
    then have "(unat (raddr r) + 2 ^ k - 1) div 2 ^ k < Suc q" by (simp add: less_mult_imp_div_less mult.commute)
    then show ?thesis by simp
  qed
  ultimately show ?thesis by (simp add: q)
next
  case False
  have b: "unat (raddr r) < 2 ^ 64" using unat_bound [of "raddr r"] by simp
  have p: "unat (2 ^ k - 1 :: u64) = 2 ^ k - 1"
    using assms(2) by (subst unat_diff_small) (simp_all add: word_le_nat_alt unat_pow2)
  have k: "(2::nat) ^ k \<le> 2 ^ 63" using assms(2) by (intro power_increasing) auto
  have w: "unat (raddr r + 2 ^ k - 1) < 2 ^ k"
  proof -
    have "unat (raddr r + (2 ^ k - 1)) = (unat (raddr r) + (2 ^ k - 1)) mod 2 ^ 64"
      by (simp only: unat_word_ariths p len64)
    also have "\<dots> = unat (raddr r) + (2 ^ k - 1) - 2 ^ 64"
      using False b k by (subst mod_if) (auto simp: le_mod_geq)
    finally show ?thesis using b zero_less_power [of "2::nat" k] by (simp only: add_diff_eq) linarith
  qed
  then have "unat (aligned_start r (2 ^ k)) = 0"
    by (simp add: aligned_start_def pow2_minus_1_mask unat_and_not_mask)
  then show ?thesis by simp
qed

lemma alloc_error: "alloc rs cnt align = Inl e \<Longrightarrow> e = Throw E_CAPACITY"
  by (auto simp: alloc_def Let_def split: option.splits prod.splits if_splits)

lemma alloc_fails:
  assumes ok: "regs_ok rs" and fits: "pads_fit rs cnt (2 ^ k)" and k: "k < 64"
    and al: "alloc rs cnt (2 ^ k) = Inl e" and r: "r \<in> set rs"
    and x: "2 ^ k dvd x" "unat (raddr r) \<le> x"
  shows "\<not> x + unat cnt \<le> reg_end r"
proof -
  have g: "get_reg rs 0 cnt (2 ^ k) = None"
    using al by (auto simp: alloc_def Let_def split: option.splits prod.splits if_splits)
  show ?thesis
  proof (cases "cnt \<le> rsize r")
    case True
    then have rok: "reg_ok r" "pad_fits (2 ^ k) r" using ok fits r by (auto simp: regs_ok_def pads_fit_def)
    have "\<not> unat (aligned_start r (2 ^ k)) + unat cnt \<le> reg_end r"
      using get_reg_None [OF g r] pad_room [OF rok] True by blast
    then show ?thesis using aligned_start_least [OF rok(2) k x] by linarith
  next
    case False
    then show ?thesis using x(2) by (simp add: word_le_nat_alt reg_end_def)
  qed
qed

section \<open>Freeing\<close>

lemma reg_end_eq:
  assumes "reg_ok r"
  shows "raddr r + rsize r = v \<longleftrightarrow> reg_end r = unat v"
proof -
  have "unat (raddr r + rsize r) = reg_end r"
    using assms by (simp add: reg_ok_def reg_end_def unat_word_simps)
  then show ?thesis by (metis word_unat_eq_iff)
qed

lemma free_find_spec:
  assumes "free_find start cnt rs i p n = (p', n')"
  shows "(p' = p \<or> (\<exists>j < length rs. p' = Some (i + j) \<and> raddr (rs ! j) + rsize (rs ! j) = start))
    \<and> (n' = n \<or> (\<exists>j < length rs. n' = Some (i + j) \<and> raddr (rs ! j) = start + cnt))
    \<and> (p' = None \<longrightarrow> p = None \<and> (\<forall>r \<in> set rs. raddr r + rsize r \<noteq> start))
    \<and> (n' = None \<longrightarrow> n = None \<and> (\<forall>r \<in> set rs. raddr r + rsize r = start \<or> raddr r \<noteq> start + cnt))"
  using assms
proof (induction rs arbitrary: i p n)
  case (Cons r rs)
  define q m where "q = (if raddr r + rsize r = start then Some i else p)"
    and "m = (if raddr r + rsize r \<noteq> start \<and> raddr r = start + cnt then Some i else n)"
  have step: "free_find start cnt (r # rs) i p n =
      (if m \<noteq> None \<and> q \<noteq> None then (q, m) else free_find start cnt rs (Suc i) q m)"
    by (simp add: q_def m_def Let_def)
  show ?case
  proof (cases "m \<noteq> None \<and> q \<noteq> None")
    case True
    have "p' = q" "n' = m" using Cons.prems unfolding step if_P [OF True] by simp_all
    moreover have "q = p \<or> q = Some i \<and> raddr r + rsize r = start" by (simp add: q_def)
    moreover have "m = n \<or> m = Some i \<and> raddr r = start + cnt" by (simp add: m_def)
    ultimately show ?thesis using True by fastforce
  next
    case False
    have f: "free_find start cnt rs (Suc i) q m = (p', n')"
      using Cons.prems unfolding step if_not_P [OF False] .
    note I = Cons.IH [OF f]
    have 1: "p' = p \<or> (\<exists>j < length (r # rs). p' = Some (i + j) \<and> raddr ((r # rs) ! j) + rsize ((r # rs) ! j) = start)"
    proof (cases "p' = q")
      case True
      then show ?thesis by (cases "raddr r + rsize r = start") (auto simp: q_def intro: exI [of _ 0])
    next
      case False
      then obtain j where "j < length rs" "p' = Some (Suc i + j)" "raddr (rs ! j) + rsize (rs ! j) = start"
        using I by auto
      then show ?thesis by (intro disjI2 exI [of _ "Suc j"]) simp
    qed
    have 2: "n' = n \<or> (\<exists>j < length (r # rs). n' = Some (i + j) \<and> raddr ((r # rs) ! j) = start + cnt)"
    proof (cases "n' = m")
      case True
      then show ?thesis
        by (cases "raddr r + rsize r \<noteq> start \<and> raddr r = start + cnt") (auto simp: m_def intro: exI [of _ 0])
    next
      case False
      then obtain j where "j < length rs" "n' = Some (Suc i + j)" "raddr (rs ! j) = start + cnt"
        using I by auto
      then show ?thesis by (intro disjI2 exI [of _ "Suc j"]) simp
    qed
    have 3: "p' = None \<longrightarrow> p = None \<and> (\<forall>r \<in> set (r # rs). raddr r + rsize r \<noteq> start)"
      using I by (auto simp: q_def split: if_splits)
    have 4: "n' = None \<longrightarrow> n = None \<and> (\<forall>r \<in> set (r # rs). raddr r + rsize r = start \<or> raddr r \<noteq> start + cnt)"
      using I by (auto simp: m_def split: if_splits)
    show ?thesis using 1 2 3 4 by blast
  qed
qed simp

lemma range_outside:
  assumes "reg_ok s" "{B ..< B + C} \<inter> reg_units s = {}" "0 < C"
  shows "reg_end s \<le> B \<or> B + C \<le> unat (raddr s)"
proof (rule ccontr)
  assume n: "\<not> ?thesis"
  have "0 < unat (rsize s)" using assms(1) by (rule reg_ok_size)
  then have "max B (unat (raddr s)) \<in> {B ..< B + C} \<inter> reg_units s"
    using n assms(3) by (auto simp: reg_units_def reg_end_def)
  then show False using assms(2) by blast
qed

lemma mset_remove_pair:
  assumes "p < length rs" "n < length rs" "p \<noteq> n"
  shows "\<exists>rest. mset rs = mset (rs ! p # rs ! n # rest)
    \<and> mset (remove_reg (rs[p := x]) n) = mset (x # rest)"
proof -
  have n: "rs[p := x] ! n = rs ! n" using assms(3) by simp
  have a: "add_mset (rs ! n) (mset (remove_reg (rs[p := x]) n)) = mset (rs[p := x])"
    using mset_remove_reg [of n "rs[p := x]"] assms(2) n by simp
  have "x \<in> set (rs[p := x])" using assms(1) by (simp add: set_update_memI)
  have b: "mset (rs[p := x]) = add_mset x (mset (remove_reg rs p))" using assms(1) by (rule mset_update_reg)
  have c: "mset rs = add_mset (rs ! p) (mset (remove_reg rs p))" using mset_remove_reg [OF assms(1)] by simp
  have "rs ! n \<in># mset (remove_reg rs p)"
  proof -
    have "n < p \<or> p < n" using assms(3) by linarith
    then show ?thesis using assms(1,2)
      by (auto simp: remove_reg_def in_set_conv_nth intro: exI [of _ n] exI [of _ "n - Suc p"])
  qed
  then obtain M where M: "mset (remove_reg rs p) = add_mset (rs ! n) M" by (metis mset_add)
  obtain rest where rest: "mset rest = M" using ex_mset by blast
  have "mset (remove_reg (rs[p := x]) n) = add_mset x M" using a b M by simp
  then show ?thesis using c M rest by (intro exI [of _ rest]) simp
qed

lemma free_merge:
  assumes ok: "regs_ok (old @ rest)" and X: "reg_ok X"
    and B: "{B ..< B + C} \<inter> units (old @ rest) = {}" "0 < C"
    and u: "reg_units X = units old \<union> {B ..< B + C}"
    and ap: "\<And>s. s \<in> set rest \<Longrightarrow> reg_ok s \<Longrightarrow> \<forall>o' \<in> set old. apart o' s \<Longrightarrow>
      reg_end s \<le> B \<or> B + C \<le> unat (raddr s) \<Longrightarrow> apart X s"
  shows "regs_ok (X # rest) \<and> units (X # rest) = units (old @ rest) \<union> {B ..< B + C}"
proof -
  have o: "sorted_wrt apart (old @ rest)" "\<forall>s \<in> set (old @ rest). reg_ok s" using ok by (auto simp: regs_ok_def)
  have "apart X s" if s: "s \<in> set rest" for s
  proof (rule ap [OF s])
    show "reg_ok s" using o s by auto
    show "\<forall>o' \<in> set old. apart o' s" using o s by (auto simp: sorted_wrt_append)
    show "reg_end s \<le> B \<or> B + C \<le> unat (raddr s)"
      using s o B by (intro range_outside) (auto simp: units_def)
  qed
  then show ?thesis using X u o by (auto simp: regs_ok_def sorted_wrt_append)
qed

lemma free_effect:
  assumes ok: "regs_ok rs" and C: "0 < unat cnt" and nw: "unat start + unat cnt < 2 ^ 64"
    and dis: "{unat start ..< unat start + unat cnt} \<inter> units rs = {}"
  shows "regs_ok (free_reg rs start cnt)
    \<and> units (free_reg rs start cnt) = units rs \<union> {unat start ..< unat start + unat cnt}"
proof -
  define B C' where "B = unat start" and "C' = unat cnt"
  have e: "unat (start + cnt) = B + C'" using nw by (simp add: B_def C'_def unat_word_simps)
  obtain p n where f: "free_find start cnt rs 0 None None = (p, n)" by fastforce
  note F = free_find_spec [OF f]
  have rok: "reg_ok r" if "r \<in> set rs" for r using ok that by (simp add: regs_ok_def)
  have ends: "raddr r + rsize r = start \<longleftrightarrow> reg_end r = B" if "r \<in> set rs" for r
    using reg_end_eq [OF rok [OF that]] by (simp add: B_def)
  have adds: "raddr r = start + cnt \<longleftrightarrow> unat (raddr r) = B + C'" for r
    using e by (metis word_unat_eq_iff)
  have P: "i < length rs \<and> reg_end (rs ! i) = B" if "p = Some i" for i
  proof -
    have "i < length rs" "raddr (rs ! i) + rsize (rs ! i) = start" using F [THEN conjunct1] that by auto
    then show ?thesis using ends [of "rs ! i"] by simp
  qed
  have N: "i < length rs \<and> unat (raddr (rs ! i)) = B + C'" if "n = Some i" for i
  proof -
    have "i < length rs" "raddr (rs ! i) = start + cnt" using F [THEN conjunct2, THEN conjunct1] that by auto
    then show ?thesis using adds [of "rs ! i"] by simp
  qed
  have nP: "reg_end r \<noteq> B" if "p = None" "r \<in> set rs" for r using F that ends by auto
  have nN: "reg_end r = B \<or> unat (raddr r) \<noteq> B + C'" if "n = None" "r \<in> set rs" for r
    using F that ends adds by auto
  have goal: "regs_ok ys \<and> units ys = units rs \<union> {B ..< B + C'}"
    if ys: "mset ys = mset (X # rest)" and rs: "mset rs = mset (old @ rest)" and "reg_ok X"
      and u: "reg_units X = units old \<union> {B ..< B + C'}"
      and ap: "\<And>s. s \<in> set rest \<Longrightarrow> reg_ok s \<Longrightarrow> \<forall>o' \<in> set old. apart o' s \<Longrightarrow>
      reg_end s \<le> B \<or> B + C' \<le> unat (raddr s) \<Longrightarrow> apart X s" for ys X rest old
  proof -
    have "regs_ok (old @ rest)" using ok regs_ok_perm [OF rs] by blast
    moreover have "{B ..< B + C'} \<inter> units (old @ rest) = {}" using dis units_perm [OF rs] by (simp add: B_def C'_def)
    ultimately have "regs_ok (X # rest) \<and> units (X # rest) = units (old @ rest) \<union> {B ..< B + C'}"
      using that C by (intro free_merge) (auto simp: C'_def)
    then show ?thesis using regs_ok_perm [OF ys] units_perm [OF ys] units_perm [OF rs] by simp
  qed
  have C': "0 < C'" "B + C' < 2 ^ 64" using C nw by (simp_all add: C'_def B_def)
  have "regs_ok (free_reg rs start cnt) \<and> units (free_reg rs start cnt) = units rs \<union> {B ..< B + C'}"
  proof (cases p)
    case None
    note p = None
    show ?thesis
    proof (cases n)
      case None
      define X where "X = \<lparr>raddr = start, rsize = cnt\<rparr>"
      have X: "unat (raddr X) = B" "reg_end X = B + C'" by (simp_all add: X_def B_def C'_def reg_end_def)
      have "apart X s" if "s \<in> set rs" "reg_end s \<le> B \<or> B + C' \<le> unat (raddr s)" for s
        using that X nP [OF p that(1)] nN [OF None that(1)] by (auto simp: apart_def)
      then show ?thesis using f p None X C' C
        by (intro goal [of _ X rs "[]"]) (auto simp: free_reg_def X_def reg_ok_def reg_units_def word_gt_0)
    next
      case (Some i)
      note i = N [OF Some]
      define X where "X = \<lparr>raddr = raddr (rs ! i) - cnt, rsize = rsize (rs ! i) + cnt\<rparr>"
      have ri: "reg_ok (rs ! i)" using rok i by simp
      then have "reg_end (rs ! i) < 2 ^ 64" by (simp add: reg_ok_def)
      then have X: "unat (raddr X) = B" "reg_end X = reg_end (rs ! i)" "unat (rsize X) = unat (rsize (rs ! i)) + C'"
        using i by (auto simp: X_def reg_end_def unat_word_simps C'_def)
      have "apart X s" if "s \<in> set rs" "apart (rs ! i) s" "reg_end s \<le> B \<or> B + C' \<le> unat (raddr s)" for s
        using that X i C'(1) nP [OF p that(1)] by (auto simp: apart_def reg_end_def)
      moreover have "set (remove_reg rs i) \<subseteq> set rs"
        by (auto simp: remove_reg_def dest: in_set_takeD in_set_dropD)
      ultimately show ?thesis using f p Some X ri i C' mset_remove_reg [of i rs]
        by (intro goal [of _ X "remove_reg rs i" "[rs ! i]"])
          (auto simp: free_reg_def X_def [symmetric] mset_update_reg reg_ok_def reg_units_def reg_end_def word_gt_0 unat_eq_zero [symmetric])
    qed
  next
    case (Some j)
    note p = Some and j = P [OF Some]
    have rj: "reg_ok (rs ! j)" using rok j by simp
    show ?thesis
    proof (cases n)
      case None
      define X where "X = (rs ! j)\<lparr>rsize := rsize (rs ! j) + cnt\<rparr>"
      have X: "raddr X = raddr (rs ! j)" "reg_end X = B + C'" "unat (rsize X) = unat (rsize (rs ! j)) + C'"
        using j C'(2) by (auto simp: X_def reg_end_def unat_word_simps C'_def)
      have "apart X s" if "s \<in> set rs" "apart (rs ! j) s" "reg_end s \<le> B \<or> B + C' \<le> unat (raddr s)" for s
        using that X j C'(1) nN [OF None that(1)] by (auto simp: apart_def reg_end_def)
      moreover have "set (remove_reg rs j) \<subseteq> set rs"
        by (auto simp: remove_reg_def dest: in_set_takeD in_set_dropD)
      ultimately show ?thesis using f p None X rj j C' mset_remove_reg [of j rs]
        by (intro goal [of _ X "remove_reg rs j" "[rs ! j]"])
          (auto simp: free_reg_def X_def [symmetric] mset_update_reg reg_ok_def reg_units_def reg_end_def word_gt_0 unat_eq_zero [symmetric])
    next
      case (Some i)
      note i = N [OF Some]
      have ri: "reg_ok (rs ! i)" using rok i by simp
      have ij: "j \<noteq> i" using i j C'(1) by (auto simp: reg_end_def)
      define X where "X = (rs ! j)\<lparr>rsize := rsize (rs ! j) + (cnt + rsize (rs ! i))\<rparr>"
      have "reg_end (rs ! i) < 2 ^ 64" using ri by (simp add: reg_ok_def)
      then have X: "raddr X = raddr (rs ! j)" "reg_end X = reg_end (rs ! i)"
          "unat (rsize X) = unat (rsize (rs ! j)) + (C' + unat (rsize (rs ! i)))"
        using i j by (auto simp: X_def reg_end_def unat_word_simps C'_def)
      obtain rest where rest: "mset rs = mset (rs ! j # rs ! i # rest)"
          "mset (remove_reg (rs[j := X]) i) = mset (X # rest)"
        using mset_remove_pair [of j rs i X] i j ij by blast
      have "apart X s" if "apart (rs ! j) s" "apart (rs ! i) s" "reg_end s \<le> B \<or> B + C' \<le> unat (raddr s)" for s
        using that X i j C'(1) by (auto simp: apart_def reg_end_def)
      then show ?thesis using f p Some X ri rj i j C' rest
        by (intro goal [of _ X rest "[rs ! j, rs ! i]"])
          (auto simp: free_reg_def X_def [symmetric] reg_ok_def reg_units_def reg_end_def word_gt_0 unat_eq_zero [symmetric])
    qed
  qed
  then show ?thesis by (simp add: B_def C'_def)
qed

section \<open>Allocation at a given place\<close>

lemma remove_from_inside:
  assumes ok: "regs_ok rs" and i: "i < length rs" and C: "0 < unat cnt"
    and B: "unat (raddr (rs ! i)) \<le> unat start" "unat start + unat cnt \<le> reg_end (rs ! i)"
  shows "\<exists>rs'. remove_from rs i start cnt = (cnt, rs') \<and> regs_ok rs'
    \<and> units rs' = units rs - {unat start ..< unat start + unat cnt}"
proof -
  define r where "r = rs ! i"
  have rok: "reg_ok r" using ok i by (auto simp: regs_ok_def r_def)
  define A E S where "A = unat (raddr r)" and "E = reg_end r" and "S = unat start"
  have E: "E = A + unat (rsize r)" "E < 2 ^ 64" using rok by (auto simp: A_def E_def reg_end_def reg_ok_def)
  have AS: "A \<le> S" and SE: "S + unat cnt \<le> E" using B by (simp_all add: A_def S_def E_def r_def)
  have sc: "unat (start + cnt) = S + unat cnt" using SE E by (simp add: S_def unat_word_simps)
  have re: "unat (raddr r + rsize r) = E" using E by (simp add: A_def unat_word_simps)
  define front rear where "front = r\<lparr>rsize := start - raddr r\<rparr>"
    and "rear = \<lparr>raddr = start + cnt, rsize = (raddr r + rsize r) - (start + cnt)\<rparr>"
  have front: "unat (raddr front) = A" "unat (rsize front) = S - A" "reg_end front = S"
    using AS by (simp_all add: front_def reg_end_def unat_word_simps S_def A_def)
  have rear: "unat (raddr rear) = S + unat cnt" "unat (rsize rear) = E - (S + unat cnt)" "reg_end rear = E"
    using SE re sc by (simp_all add: rear_def reg_end_def unat_word_simps)
  have c1: "start \<le> raddr r \<longleftrightarrow> A = S" using AS by (auto simp: word_le_nat_alt A_def S_def)
  have c2: "raddr r + rsize r \<le> start + cnt \<longleftrightarrow> E = S + unat cnt" using SE by (auto simp: word_le_nat_alt re sc)
  have sz: "rsize r = cnt" if "A = S" "E = S + unat cnt" using that E by (simp add: word_unat_eq_iff)
  have bk: "\<lparr>raddr = start + cnt, rsize = rsize r - (start + cnt - raddr r)\<rparr> = rear"
    by (simp add: rear_def algebra_simps)
  define new where "new = (if A = S then [] else [front]) @ (if E = S + unat cnt then [] else [rear])"
  define rs' where "rs' = (if A = S then (if E = S + unat cnt then remove_reg rs i else rs[i := rear])
      else (if E = S + unat cnt then rs[i := front] else rs[i := front] @ [rear]))"
  have rem: "remove_from rs i start cnt = (cnt, rs')"
    using sz c1 c2 bk unfolding remove_from_def r_def [symmetric] Let_def front_def [symmetric] rear_def [symmetric] rs'_def
    by (cases "A = S"; cases "E = S + unat cnt") simp_all
  have m: "mset rs' = mset (new @ remove_reg rs i)" using i by (simp add: rs'_def new_def mset_update_reg)
  have p: "mset rs = mset (rs ! i # remove_reg rs i)" using mset_remove_reg [OF i] by simp
  have ok': "regs_ok (r # remove_reg rs i)" using ok regs_ok_perm [OF p] by (simp add: r_def)
  have "regs_ok new" using AS SE front rear E(2) C
    by (auto simp: new_def regs_ok_Cons apart_def reg_ok_def word_less_nat_alt)
  moreover have "unat (raddr r) \<le> unat (raddr n) \<and> reg_end n \<le> reg_end r" if "n \<in> set new" for n
    using that AS SE front(1,3) rear(1,3) by (auto simp: new_def A_def E_def split: if_splits)
  ultimately have "regs_ok rs'" using regs_ok_replace [OF ok'] regs_ok_perm [OF m] by blast
  moreover have "units new = reg_units r - {S ..< S + unat cnt}"
  proof -
    have "reg_units front = {A ..< S}" "reg_units rear = {S + unat cnt ..< E}" "reg_units r = {A ..< E}"
      by (simp_all add: reg_units_def front(1,3) rear(1,3) A_def E_def)
    then show ?thesis using AS SE by (auto simp: new_def)
  qed
  then have "units rs' = units rs - {S ..< S + unat cnt}"
    using units_replace [OF ok'] units_perm [OF m] units_perm [OF p] AS SE
    by (auto simp: r_def [symmetric] reg_units_def A_def E_def)
  ultimately show ?thesis using rem by (auto simp: S_def)
qed

lemma overlapped_region:
  assumes "reg_ok r" "0 < unat cnt" "unat start + unat cnt < 2 ^ 64"
  shows "overlapped start cnt (raddr r) (rsize r) \<longleftrightarrow>
    {unat start ..< unat start + unat cnt} \<inter> reg_units r \<noteq> {}"
  using assms unfolding reg_units_def reg_end_def
  by (intro overlapped_iff) (auto simp: reg_ok_def reg_end_def word_less_nat_alt)

lemma alloc_at_loop_required:
  assumes ok: "\<forall>r \<in> set rs. reg_ok r" and C: "0 < unat cnt" "unat start + unat cnt < 2 ^ 64"
  defines "R \<equiv> {unat start ..< unat start + unat cnt}"
  shows "alloc_at_loop start cnt True rs i tot =
    (case find (\<lambda>j. R \<inter> reg_units (rs ! j) \<noteq> {}) [i..<length rs] of
       None \<Rightarrow> Some (Inr (tot, rs))
     | Some j \<Rightarrow> if R \<subseteq> reg_units (rs ! j)
         then Some (Inr (tot + fst (remove_from rs j start cnt), snd (remove_from rs j start cnt)))
         else Some (Inl (Throw E_EXISTS)))"
proof (induction "length rs - i" arbitrary: i)
  case 0
  then show ?case by (subst alloc_at_loop.simps) simp
next
  case (Suc n)
  then have i: "i < length rs" and n: "n = length rs - Suc i" by auto
  then have r: "reg_ok (rs ! i)" using ok by simp
  have l: "[i..<length rs] = i # [Suc i..<length rs]" using i by (simp add: upt_conv_Cons)
  show ?case
  proof (cases "R \<inter> reg_units (rs ! i) \<noteq> {}")
    case True
    then have o: "overlapped start cnt (raddr (rs ! i)) (rsize (rs ! i))"
      using overlapped_region [OF r C] by (simp add: R_def)
    have re: "reg_end (rs ! i) < 2 ^ 64" using r by (simp add: reg_ok_def)
    have "start \<ge> raddr (rs ! i) \<and> start + cnt \<le> raddr (rs ! i) + rsize (rs ! i) \<longleftrightarrow> R \<subseteq> reg_units (rs ! i)"
      using C re by (auto simp: word_le_nat_alt unat_word_simps reg_end_def R_def reg_units_def)
    then show ?thesis using True i l o
      by (subst alloc_at_loop.simps) (simp split: prod.split)
  next
    case False
    then have o: "\<not> overlapped start cnt (raddr (rs ! i)) (rsize (rs ! i))"
      using overlapped_region [OF r C] by (simp add: R_def)
    then show ?thesis using False i l Suc.hyps(1) [OF n]
      by (subst alloc_at_loop.simps) simp
  qed
qed

interpretation regmng: region_pool regs_ok units pads_fit alloc_block free_reg
proof
  fix s s' and c align a :: u64
  assume ok: "regs_ok s" and c: "0 < c"
  show "regs_ok s' \<and> blk (a, c) \<subseteq> units s \<and> units s' = units s - blk (a, c) \<and> unat a + unat c < 2 ^ 64"
    if "pads_fit s c align" "alloc_block s c align = Some (a, s')"
  proof -
    have "alloc s c align = Inr (a, s')" using that(2) by (auto simp: alloc_block_def split: sum.splits)
    then have E: "regs_ok s'" "blk (a, c) \<subseteq> units s" "units s' = units s - blk (a, c)"
      using alloc_effect [OF ok _ that(1), of a s'] c by (auto simp: blk_def word_less_nat_alt)
    have "unat a + unat c - 1 \<in> units s" using E(2) c by (auto simp: blk_def word_less_nat_alt)
    then have "unat a + unat c < 2 ^ 64" using ok by (force simp: units_def reg_units_def regs_ok_def reg_ok_def)
    then show ?thesis using E by blast
  qed
  show "regs_ok (free_reg s a c) \<and> units (free_reg s a c) = units s \<union> blk (a, c)"
    if "unat a + unat c < 2 ^ 64" "blk (a, c) \<inter> units s = {}"
    using free_effect [OF ok, of c a] c that by (auto simp: blk_def word_less_nat_alt)
qed

lemma range_in_one_region:
  assumes "regs_ok rs" "{B ..< B + C} \<subseteq> units rs" "0 < C"
  shows "\<exists>r \<in> set rs. {B ..< B + C} \<subseteq> reg_units r"
proof -
  have "B \<in> units rs" using assms(2,3) by auto
  then obtain r where r: "r \<in> set rs" "B \<in> reg_units r" by (auto simp: units_def)
  have "B + C \<le> reg_end r"
  proof (rule ccontr)
    assume n: "\<not> ?thesis"
    then have "reg_end r \<in> units rs" using assms(2) r(2) by (auto simp: reg_units_def)
    then obtain s where s: "s \<in> set rs" "reg_end r \<in> reg_units s" by (auto simp: units_def)
    then have "r \<noteq> s" by (auto simp: reg_units_def)
    then have "apart r s" using assms(1) r(1) s(1) by (auto simp: regs_ok_def sorted_wrt_iff_nth_less in_set_conv_nth)
       (metis apart_sym linorder_neqE_nat)
    then show False using s(2) r(2) by (auto simp: apart_def reg_units_def)
  qed
  then show ?thesis using r by (auto simp: reg_units_def)
qed

lemma alloc_at_required_cases:
  assumes ok: "regs_ok rs" and C: "0 < unat cnt" "unat start + unat cnt < 2 ^ 64"
  defines "R \<equiv> {unat start ..< unat start + unat cnt}"
  shows "(R \<subseteq> units rs \<longrightarrow> (\<exists>rs'. alloc_at rs start cnt True = Some (Inr (cnt, rs')) \<and> regs_ok rs'
        \<and> units rs' = units rs - R))
    \<and> (R \<inter> units rs = {} \<longrightarrow> alloc_at rs start cnt True = Some (Inr (0, rs)))
    \<and> (R \<inter> units rs \<noteq> {} \<and> \<not> R \<subseteq> units rs \<longrightarrow> alloc_at rs start cnt True = Some (Inl (Throw E_EXISTS)))"
proof -
  have rok: "\<forall>r \<in> set rs. reg_ok r" using ok by (simp add: regs_ok_def)
  have uni: "s = r" if "r \<in> set rs" "s \<in> set rs" "R \<subseteq> reg_units r" "R \<inter> reg_units s \<noteq> {}" for r s
  proof (rule ccontr)
    assume "s \<noteq> r"
    then have "apart r s" using ok that by (auto simp: regs_ok_def sorted_wrt_iff_nth_less in_set_conv_nth)
       (metis apart_sym linorder_neqE_nat)
    then show False using apart_disjoint that by blast
  qed
  note L = alloc_at_loop_required [OF rok C, of 0 0, folded R_def]
  show ?thesis
  proof (cases "find (\<lambda>j. R \<inter> reg_units (rs ! j) \<noteq> {}) [0..<length rs]")
    case None
    then have "R \<inter> units rs = {}" by (auto simp: find_None_iff units_def in_set_conv_nth) blast
    moreover have "unat start \<in> R" using C by (simp add: R_def)
    then have "\<not> R \<subseteq> units rs" using calculation by blast
    ultimately show ?thesis using L None by (simp add: alloc_at_def)
  next
    case (Some j)
    then have j: "j < length rs" "R \<inter> reg_units (rs ! j) \<noteq> {}" by (auto simp: find_Some_iff)
    have sub: "reg_units (rs ! j) \<subseteq> units rs" unfolding units_def using nth_mem [OF j(1)] by blast
    then have i: "R \<inter> units rs \<noteq> {}" using j(2) by blast
    show ?thesis
    proof (cases "R \<subseteq> reg_units (rs ! j)")
      case True
      then have "unat (raddr (rs ! j)) \<le> unat start" "unat start + unat cnt \<le> reg_end (rs ! j)"
        using C(1) by (auto simp: R_def reg_units_def)
      from remove_from_inside [OF ok j(1) C(1) this] obtain rs' where
        "remove_from rs j start cnt = (cnt, rs')" "regs_ok rs'" "units rs' = units rs - R" by (auto simp: R_def)
      moreover have "R \<subseteq> units rs" using True sub by blast
      ultimately show ?thesis using L Some True i by (simp add: alloc_at_def)
    next
      case False
      then have "\<not> R \<subseteq> units rs"
        using range_in_one_region [OF ok, of "unat start" "unat cnt"] C(1) uni [of _ "rs ! j"] j
        by (auto simp: R_def [symmetric])
      then show ?thesis using L Some False i by (simp add: alloc_at_def)
    qed
  qed
qed

text \<open>The behaviours of the loop that its callers do not expect: on the last region the
  reset iterator is advanced although the list is empty; the region that moved to the
  front is skipped; and an alignment padding larger than the region makes the
  difference in \<^verbatim>\<open>get\<close> wrap around, so that \<^verbatim>\<open>alloc\<close> returns units that are not free.\<close>

lemma alloc_at_last_region:
  "alloc_at [\<lparr>raddr = 0x1000, rsize = 0x1000\<rparr>] 0x1000 0x1000 False = Some (Inl Undefined)"
  by code_simp

lemma alloc_at_skips_first:
  "alloc_at [\<lparr>raddr = 0, rsize = 4\<rparr>, \<lparr>raddr = 8, rsize = 4\<rparr>] 0 16 False
     = Some (Inr (4, [\<lparr>raddr = 8, rsize = 4\<rparr>]))"
  by code_simp

lemma alloc_padding_wraps:
  "alloc [\<lparr>raddr = 1, rsize = 1\<rparr>] 1 0x1000
     = Inr (0x1000, [\<lparr>raddr = 0x1001, rsize = - 4095\<rparr>, \<lparr>raddr = 1, rsize = 4095\<rparr>])"
  by code_simp

lemma alloc_at_counts_too_much:
  "alloc_at [\<lparr>raddr = 8, rsize = 8\<rparr>, \<lparr>raddr = 32, rsize = 8\<rparr>] 4 8 False
     = Some (Inr (8, [\<lparr>raddr = 12, rsize = 4\<rparr>, \<lparr>raddr = 32, rsize = 8\<rparr>]))"
  by code_simp

lemma used_ports_remove_never_fails:
  assumes "pm_mode pm = USED"
  shows "\<exists>pm'. pm_remove pm start cnt = Some (Inr pm')"
  using assms by (simp add: pm_remove_def pm_free_def)

lemma used_ports_add_loses_ports:
  "pm_add \<lparr>pm_mode = USED, pm_ports = []\<rparr> start cnt = Some (Inr \<lparr>pm_mode = USED, pm_ports = []\<rparr>)"
proof -
  have "alloc_at [] s c True = Some (Inr (0, []))" for s c
    unfolding alloc_at_def by (subst alloc_at_loop.simps) simp
  then show ?thesis by (simp add: pm_add_def pm_take_def)
qed

text \<open>Although a free range is required, a range of which no unit is free is accepted and reported as 0 units.\<close>

lemma alloc_at_nothing_free:
  assumes "regs_ok rs" "0 < unat cnt" "unat start + unat cnt < 2 ^ 64" "{unat start ..< unat start + unat cnt} \<inter> units rs = {}"
  shows "alloc_at rs start cnt True = Some (Inr (0, rs))"
  using alloc_at_required_cases [OF assms(1-3)] assms(4) by simp

section \<open>Properties\<close>

text \<open>Claim C5. \<^verbatim>\<open>RegionManager::alloc\<close> for a power-of-two alignment, on a well-formed list in which every
  region that is long enough for the request also contains its alignment padding (otherwise the test in \<^verbatim>\<open>get\<close> wraps
  around): on success the returned block is aligned, lies completely in the
  free units, exactly this block leaves the free units and the list stays well formed;
  on failure it throws \<^verbatim>\<open>E_CAPACITY\<close> and no region contains an aligned block of that size.\<close>

theorem alloc_correct:
  assumes "regs_ok rs" "0 < cnt" "k < 64" "pads_fit rs cnt (2 ^ k)"
  shows "case alloc rs cnt (2 ^ k) of
      Inr (a, rs') \<Rightarrow> 2 ^ k dvd unat a \<and> regs_ok rs'
        \<and> {unat a ..< unat a + unat cnt} \<subseteq> units rs
        \<and> units rs' = units rs - {unat a ..< unat a + unat cnt}
    | Inl e \<Rightarrow> e = Throw E_CAPACITY \<and> (\<forall>r \<in> set rs. \<forall>x. 2 ^ k dvd x \<longrightarrow> unat (raddr r) \<le> x \<longrightarrow>
        \<not> x + unat cnt \<le> reg_end r)"
proof (cases "alloc rs cnt (2 ^ k)")
  case (Inl e)
  then show ?thesis using alloc_error [OF Inl] alloc_fails [OF assms(1,4,3) Inl] by auto
next
  case (Inr x)
  obtain a rs' where x: "x = (a, rs')" by (cases x)
  then show ?thesis using alloc_effect [OF assms(1) _ assms(4), of a rs'] assms(2) aligned_start_dvd Inr
    by (auto simp: word_less_nat_alt)
qed

theorem alloc_correct_witness:
  "\<exists>rs'. alloc [\<lparr>raddr = 0x1000, rsize = 0x3000\<rparr>] 0x1000 (2 ^ 13) = Inr (0x2000, rs') \<and> regs_ok rs'
    \<and> units rs' = units [\<lparr>raddr = 0x1000, rsize = 0x3000\<rparr>]
        - {unat (0x2000 :: u64) ..< unat (0x2000 :: u64) + unat (0x1000 :: u64)}"
proof -
  let ?rs = "[\<lparr>raddr = 0x1000, rsize = 0x3000\<rparr>] :: region list"
  have a: "alloc ?rs 0x1000 (2 ^ 13)
      = Inr (0x2000, [\<lparr>raddr = 0x3000, rsize = 0x1000\<rparr>, \<lparr>raddr = 0x1000, rsize = 0x1000\<rparr>])" by code_simp
  have "regs_ok ?rs" by (simp add: regs_ok_def reg_ok_def reg_end_def)
  moreover have "pads_fit ?rs 0x1000 (2 ^ 13)" by code_simp
  ultimately show ?thesis using alloc_correct [of ?rs "0x1000" 13] unfolding a by simp
qed

text \<open>Claim C6. \<^verbatim>\<open>RegionManager::free\<close> merges: freeing a non-empty range that is not free yet
  adds exactly this range to the free units, and the list stays well formed, that is,
  no two regions overlap or touch.\<close>

theorem free_correct:
  assumes "regs_ok rs" "0 < cnt" "unat start + unat cnt < 2 ^ 64"
    and "{unat start ..< unat start + unat cnt} \<inter> units rs = {}"
  shows "regs_ok (free_reg rs start cnt)
    \<and> units (free_reg rs start cnt) = units rs \<union> {unat start ..< unat start + unat cnt}"
  using free_effect [OF assms(1) _ assms(3,4)] assms(2) by (simp add: word_less_nat_alt)

theorem free_correct_witness:
  "regs_ok (free_reg [\<lparr>raddr = 0, rsize = 4\<rparr>, \<lparr>raddr = 8, rsize = 4\<rparr>] 4 4)
    \<and> units (free_reg [\<lparr>raddr = 0, rsize = 4\<rparr>, \<lparr>raddr = 8, rsize = 4\<rparr>] 4 4)
      = units [\<lparr>raddr = 0, rsize = 4\<rparr>, \<lparr>raddr = 8, rsize = 4\<rparr>] \<union> {unat (4::u64) ..< unat (4::u64) + unat (4::u64)}"
  by (rule free_correct) (auto simp: regs_ok_def reg_ok_def reg_end_def apart_def reg_units_def)

text \<open>Claim C1. Conservation: whatever sequence of allocations, of any size and alignment, and of releases of owned
  blocks a client performs on a well-formed region manager, the blocks it owns never overlap each other or the free
  units, and together with the free units they make up exactly the units that were free at the beginning. Every
  allocation is made when each region that is long enough for it also contains its alignment padding, which always holds for alignment
  1 and for regions that are aligned themselves; without this, \<^verbatim>\<open>alloc\<close> may return units that are not free.\<close>

theorem blocks_never_overlap:
  assumes "pool_reach pads_fit alloc_block free_reg rs0 rs bs" "regs_ok rs0"
  shows "regs_ok rs \<and> disjoint_blocks bs \<and> (\<forall>b \<in> set bs. blk b \<inter> units rs = {})
    \<and> units rs \<union> (\<Union>b \<in> set bs. blk b) = units rs0"
  using regmng.reach_inv [OF assms] by blast

theorem blocks_never_overlap_witness:
  "\<exists>rs. pool_reach pads_fit alloc_block free_reg [\<lparr>raddr = 1, rsize = 15\<rparr>] rs [(4, 3)]
    \<and> regs_ok rs \<and> disjoint_blocks [(4, 3)] \<and> (\<forall>b \<in> set [(4, 3)]. blk b \<inter> units rs = {})
    \<and> units rs \<union> (\<Union>b \<in> set [(4, 3)]. blk b) = units [\<lparr>raddr = 1, rsize = 15\<rparr>]"
proof -
  let ?r0 = "[\<lparr>raddr = 1, rsize = 15\<rparr>] :: region list" and ?r1 = "[\<lparr>raddr = 3, rsize = 13\<rparr>] :: region list"
    and ?r2 = "[\<lparr>raddr = 7, rsize = 9\<rparr>, \<lparr>raddr = 3, rsize = 1\<rparr>] :: region list"
  have "pool_reach pads_fit alloc_block free_reg ?r0 ?r1 [(1, 2)]"
    by (rule pool_alloc [OF pool_init, of _ _ _ 1]) (simp, code_simp, code_simp)
  then have "pool_reach pads_fit alloc_block free_reg ?r0 ?r2 [(4, 3), (1, 2)]"
    by (rule pool_alloc [of _ _ _ _ _ _ _ 4]) (simp, code_simp, code_simp)
  then have "pool_reach pads_fit alloc_block free_reg ?r0 (free_reg ?r2 1 2) (remove1 (1, 2) [(4, 3), (1, 2)])"
    by (rule pool_free) simp
  then have r: "pool_reach pads_fit alloc_block free_reg ?r0 (free_reg ?r2 1 2) [(4, 3)]" by simp
  have "regs_ok ?r0" by (simp add: regs_ok_def reg_ok_def reg_end_def)
  from blocks_never_overlap [OF r this] r show ?thesis by blast
qed

text \<open>Claim C35. \<^verbatim>\<open>RegionManager::alloc_at\<close> with \<^verbatim>\<open>free_required\<close>, the operation behind the port
  allocation, for a non-empty range of which at least one unit is free: if all its units are free, it is taken out of the free
  units and reported with its full length; otherwise the call throws \<^verbatim>\<open>E_EXISTS\<close>.\<close>

theorem alloc_at_required_correct:
  assumes "regs_ok rs" "0 < unat cnt" "unat start + unat cnt < 2 ^ 64"
    and "R = {unat start ..< unat start + unat cnt}" "R \<inter> units rs \<noteq> {}"
  shows "if R \<subseteq> units rs
      then \<exists>rs'. alloc_at rs start cnt True = Some (Inr (cnt, rs')) \<and> regs_ok rs' \<and> units rs' = units rs - R
      else alloc_at rs start cnt True = Some (Inl (Throw E_EXISTS))"
  using alloc_at_required_cases [OF assms(1-3)] assms(4,5) by simp

theorem alloc_at_required_correct_witness:
  "alloc_at [\<lparr>raddr = 0, rsize = 8\<rparr>] 6 4 True = Some (Inl (Throw E_EXISTS))"
proof -
  let ?rs = "[\<lparr>raddr = 0, rsize = 8\<rparr>] :: region list" and ?R = "{6 ..< 10} :: nat set"
  have u: "units ?rs = {0 ..< 8}" by (simp add: reg_units_def reg_end_def)
  have "9 \<in> ?R" "9 \<notin> units ?rs" "6 \<in> ?R" "6 \<in> units ?rs" unfolding u by simp_all
  then have n: "\<not> ?R \<subseteq> units ?rs" "?R \<inter> units ?rs \<noteq> {}" by blast+
  have "regs_ok ?rs" by (simp add: regs_ok_def reg_ok_def reg_end_def)
  from alloc_at_required_correct [OF this, of 4 6 ?R] n
  have "if ?R \<subseteq> units ?rs
      then \<exists>rs'. alloc_at ?rs 6 4 True = Some (Inr (4, rs')) \<and> regs_ok rs' \<and> units rs' = units ?rs - ?R
      else alloc_at ?rs 6 4 True = Some (Inl (Throw E_EXISTS))" by simp
  then show ?thesis using n(1) by (simp only: if_False)
qed

end
