(* ===== verification/Bus.thy ===== *)
theory Bus
  imports MathUtil
begin

text \<open>
  The device bus of the virtual machine monitor (\<^verbatim>\<open>apps/vancouver/bus/bus.h\<close>), its messages
  (\<^verbatim>\<open>bus/message.h\<close>) and the range check of \<^verbatim>\<open>bus/helper.h\<close>. A receive function works on
  the state of the machine and on the message, both of which it may change.
\<close>

section \<open>Messages\<close>

datatype io_type = TYPE_B | TYPE_W | TYPE_L

record io_in =
  in_type :: io_type
  in_port :: u16
  in_value :: u32

record io_out =
  out_type :: io_type
  out_port :: u16
  out_value :: u32

datatype irq_type = ASSERT_IRQ | ASSERT_NOTIFY | DEASSERT_IRQ

datatype legacy_type =
  GATE_A20 | FAST_A20 | RESET | INIT | NMI | INTR | DEASS_INTR | INTA

datatype ps2_type = NOTIFY | READ_KEY | SEND_COMMAND

text \<open>\<^verbatim>\<open>in_range\<close> of \<^verbatim>\<open>bus/helper.h\<close>, on 64-bit values.\<close>

definition bus_in_range :: "u64 \<Rightarrow> u64 \<Rightarrow> u64 \<Rightarrow> bool" where
  "bus_in_range address base sz \<longleftrightarrow> base \<le> address \<and> address \<le> base + sz - 1"

text \<open>The flag tests \<^verbatim>\<open>x & FLAG\<close> of the device models.\<close>

definition flag :: "'a::len word \<Rightarrow> 'a word \<Rightarrow> bool" where
  "flag x m \<longleftrightarrow> x AND m \<noteq> 0"

section \<open>The bus\<close>

type_synonym ('d, 's, 'm) recv = "'d \<Rightarrow> 's \<Rightarrow> 'm \<Rightarrow> bool \<times> 's \<times> 'm"

record ('d, 's, 'm) dbus =
  bus_debug_counter :: u64
  bus_list_size :: nat
  bus_list :: "('d \<times> ('d, 's, 'm) recv) list"

definition dbus_init :: "('d, 's, 'm) dbus" where
  "dbus_init = \<lparr>bus_debug_counter = 0, bus_list_size = 0, bus_list = []\<rparr>"

text \<open>\<^verbatim>\<open>add\<close> doubles the capacity when the array is full and stores the new entry behind the
  others.\<close>

definition dbus_add :: "('d, 's, 'm) dbus \<Rightarrow> 'd \<Rightarrow> ('d, 's, 'm) recv \<Rightarrow> ('d, 's, 'm) dbus" where
  "dbus_add b dev func =
     (let b = (if length (bus_list b) \<ge> bus_list_size b
               then b\<lparr>bus_list_size := (if bus_list_size b > 0 then bus_list_size b * 2 else 1)\<rparr> else b)
      in b\<lparr>bus_list := bus_list b @ [(dev, func)]\<rparr>)"

fun dbus_deliver :: "bool \<Rightarrow> bool \<Rightarrow> ('d \<times> ('d, 's, 'm) recv) list \<Rightarrow> 's \<Rightarrow> 'm \<Rightarrow> bool \<times> 's \<times> 'm" where
  "dbus_deliver earlyout res [] s m = (res, s, m)"
| "dbus_deliver earlyout res ((dev, func) # es) s m =
     (if earlyout \<and> res then (res, s, m)
      else (case func dev s m of (r, s', m') \<Rightarrow> dbus_deliver earlyout (res \<or> r) es s' m'))"

definition dbus_send :: "('d, 's, 'm) dbus \<Rightarrow> bool \<Rightarrow> 's \<Rightarrow> 'm \<Rightarrow> ('d, 's, 'm) dbus \<times> bool \<times> 's \<times> 'm" where
  "dbus_send b earlyout s m =
     (b\<lparr>bus_debug_counter := bus_debug_counter b + 1\<rparr>,
      dbus_deliver earlyout False (rev (bus_list b)) s m)"

definition dbus_send_fifo :: "('d, 's, 'm) dbus \<Rightarrow> 's \<Rightarrow> 'm \<Rightarrow> ('d, 's, 'm) dbus \<times> bool \<times> 's \<times> 'm" where
  "dbus_send_fifo b s m =
     (b\<lparr>bus_debug_counter := bus_debug_counter b + 1\<rparr>,
      (case dbus_deliver False False (bus_list b) s m of (_, s', m') \<Rightarrow> (False, s', m')))"

text \<open>\<^verbatim>\<open>send_rr\<close> takes the function from entry \<^verbatim>\<open>i\<close> and the device from entry
  \<^verbatim>\<open>(i + start) % count\<close>.\<close>

fun dbus_rr :: "('d \<times> ('d, 's, 'm) recv) list \<Rightarrow> nat list \<Rightarrow> u32 \<Rightarrow> 's \<Rightarrow> 'm \<Rightarrow> bool \<times> u32 \<times> 's \<times> 'm" where
  "dbus_rr es [] start s m = (False, start, s, m)"
| "dbus_rr es (i # is) start s m =
     (case snd (es ! i) (fst (es ! ((i + unat start) mod length es))) s m of (r, s', m') \<Rightarrow>
        if r then (True, of_nat ((i + unat start + 1) mod length es), s', m')
        else dbus_rr es is start s' m')"

definition dbus_send_rr :: "('d, 's, 'm) dbus \<Rightarrow> u32 \<Rightarrow> 's \<Rightarrow> 'm \<Rightarrow> ('d, 's, 'm) dbus \<times> bool \<times> u32 \<times> 's \<times> 'm" where
  "dbus_send_rr b start s m =
     (b\<lparr>bus_debug_counter := bus_debug_counter b + 1\<rparr>,
      dbus_rr (bus_list b) [0..<length (bus_list b)] start s m)"

text \<open>The array of a bus built by \<^verbatim>\<open>add\<close> is never overrun.\<close>

definition dbus_inv :: "('d, 's, 'm) dbus \<Rightarrow> bool" where
  "dbus_inv b \<longleftrightarrow> length (bus_list b) \<le> bus_list_size b"

section \<open>Lemmas\<close>

lemma and_exp: "(x :: 'a::len word) AND 2 ^ k = (if bit x k then 2 ^ k else 0)"
  by (rule bit_word_eqI) (auto simp: bit_simps)

lemma flag_exp: "flag (x :: 'a::len word) (2 ^ k) \<longleftrightarrow> bit x k"
  by (simp add: flag_def and_exp_eq_0_iff_not_bit)

lemma flag_not: "k < LENGTH('a) \<Longrightarrow> flag (NOT x) (2 ^ k) \<longleftrightarrow> \<not> flag (x :: 'a::len word) (2 ^ k)"
  by (simp add: flag_exp bit_not_iff)

lemma dbus_add_inv: "dbus_inv b \<Longrightarrow> dbus_inv (dbus_add b dev func)"
  by (cases "bus_list b") (auto simp: dbus_inv_def dbus_add_def Let_def)

lemma dbus_deliver_append:
  "dbus_deliver False res (es @ fs) s m =
     (case dbus_deliver False res es s m of (r, s', m') \<Rightarrow> dbus_deliver False r fs s' m')"
  by (induction False res es s m rule: dbus_deliver.induct) (auto split: prod.splits)

lemma dbus_deliver_found: "fst (dbus_deliver True True es s m)"
  by (cases es) auto

lemma bus_in_range_port:
  fixes port base :: u16
  assumes "unat base + n \<le> 2 ^ 16" "0 < n"
  shows "bus_in_range (ucast port) (ucast base) (of_nat n) \<longleftrightarrow>
    unat base \<le> unat port \<and> unat port < unat base + n"
proof -
  have n: "unat (of_nat n :: u64) = n" using assms by (simp add: unat_of_nat)
  have p: "unat (ucast port :: u64) = unat port" "unat (ucast base :: u64) = unat base"
    using unat_bound [of port] unat_bound [of base] by (simp_all add: unat_ucast)
  have "in_range (ucast port) (ucast base) (of_nat n :: u64) \<longleftrightarrow>
      unat base \<le> unat port \<and> unat port < unat base + n"
    using in_range_iff [of "of_nat n" "ucast base" "ucast port"] assms n p
    by (simp add: word_less_nat_alt)
  then show ?thesis by (simp add: in_range_def bus_in_range_def)
qed

end
