(* ===== verification/Pic8259.thy ===== *)
theory Pic8259
  imports Bus
begin

text \<open>
  The interrupt controller model of \<^verbatim>\<open>apps/vancouver/model/pic8259.cc\<close>. An operation maps
  the state of the device to the new state and the list of messages that it sends, in
  order. The answer of the three-wire PIC bus to a cascaded request is a parameter of
  the operations that ask it.
\<close>

section \<open>Definitions\<close>

text \<open>\<^verbatim>\<open>ICW1\<close> and \<^verbatim>\<open>OCW1\<close> are the same value 0 of \<^verbatim>\<open>ICW_MODE\<close>.\<close>

datatype icw_mode = OCW1 | ICW2 | ICW3 | ICW4

record pic =
  pic_base :: u16
  upstream_irq :: u32
  elcr_base :: u16
  virq :: u8
  icw1 :: u8
  icw2 :: u8
  icw3 :: u8
  icw4 :: u8
  icw_mode :: icw_mode
  rotate_on_aeoi :: bool
  smm :: bool
  read_isr_reg :: bool
  poll_mode :: bool
  prio_lowest :: u8
  imr :: u8
  isr :: u8
  irr :: u8
  elcr :: u8
  notify :: u8

datatype pic_msg =
    SendNotify u8 u8
  | SendLegacy legacy_type
  | SendIrq irq_type u32

definition ICW1_IC4 :: u8 where "ICW1_IC4 = 0x01"
definition ICW1_SNGL :: u8 where "ICW1_SNGL = 0x02"
definition ICW1_LTIM :: u8 where "ICW1_LTIM = 0x08"
definition ICW4_AEOI :: u8 where "ICW4_AEOI = 0x02"
definition ICW4_MS :: u8 where "ICW4_MS = 0x04"
definition ICW4_BUF :: u8 where "ICW4_BUF = 0x08"
definition ICW4_SFNM :: u8 where "ICW4_SFNM = 0x10"

definition is_slave :: "pic \<Rightarrow> bool" where
  "is_slave s = (if flag (icw4 s) ICW4_BUF then flag (NOT (icw4 s)) ICW4_MS else virq s \<noteq> 0)"

definition rotate_prios :: "pic \<Rightarrow> pic" where
  "rotate_prios s = s\<lparr>prio_lowest := (prio_lowest s + 1) AND 7\<rparr>"

text \<open>\<^verbatim>\<open>(_prio_lowest + 1 + i) & 7\<close> and the mask of an interrupt index.\<close>

definition prio_index :: "pic \<Rightarrow> nat \<Rightarrow> u8" where
  "prio_index s i = (prio_lowest s + 1 + of_nat i) AND 7"

definition irq_bit :: "u8 \<Rightarrow> u8" where
  "irq_bit idx = push_bit (unat idx) 1"

text \<open>The scan of \<^verbatim>\<open>prioritize_irq\<close>: the result and the last value of \<^verbatim>\<open>irq_index\<close>.\<close>

definition blocks :: "pic \<Rightarrow> u8 \<Rightarrow> bool" where
  "blocks s irq \<longleftrightarrow> \<not> smm s \<and> flag (isr s) irq \<and> \<not> (flag (icw4 s) ICW4_SFNM \<and> flag (icw3 s) irq)"

fun pic_scan :: "pic \<Rightarrow> u8 \<Rightarrow> nat list \<Rightarrow> u8 \<Rightarrow> bool \<times> u8" where
  "pic_scan s state [] v = (False, v)"
| "pic_scan s state (i # is) v =
     (let idx = prio_index s i; irq = irq_bit idx
      in if blocks s irq then (False, idx)
         else if flag state irq then (True, idx)
         else pic_scan s state is idx)"

text \<open>The notification of released level-triggered lines at the start of \<^verbatim>\<open>prioritize_irq\<close>.\<close>

definition pic_notify :: "pic \<Rightarrow> pic \<times> pic_msg list" where
  "pic_notify s =
     (let tonotify = NOT (irr s) AND notify s
      in if tonotify \<noteq> 0
         then (s\<lparr>notify := notify s AND NOT tonotify\<rparr>, [SendNotify (virq s) tonotify])
         else (s, []))"

text \<open>\<^verbatim>\<open>prioritize_irq(irq_index, false)\<close>; the first argument is the old value of the
  reference parameter.\<close>

definition prioritize_peek :: "u8 \<Rightarrow> pic \<Rightarrow> bool \<times> u8 \<times> pic \<times> pic_msg list" where
  "prioritize_peek v s =
     (case pic_notify s of (s, ms) \<Rightarrow>
      case pic_scan s (irr s AND NOT (imr s)) [0..<8] v of (found, idx) \<Rightarrow> (found, idx, s, ms))"

definition propagate_irq :: "bool \<Rightarrow> pic \<Rightarrow> pic \<times> pic_msg list" where
  "propagate_irq send_deassert s =
     (case prioritize_peek 0 s of (found, _, s, ms) \<Rightarrow>
        (s, ms @ (if found
                  then (if virq s = 0 then [SendLegacy INTR] else [SendIrq ASSERT_IRQ (upstream_irq s)])
                  else if send_deassert \<and> virq s = 0 then [SendLegacy DEASS_INTR] else [])))"

definition specific_eoi :: "u8 \<Rightarrow> pic \<Rightarrow> pic \<times> pic_msg list" where
  "specific_eoi irq s = propagate_irq False (s\<lparr>isr := isr s AND NOT irq\<rparr>)"

fun eoi_scan :: "pic \<Rightarrow> nat list \<Rightarrow> u8 option" where
  "eoi_scan s [] = None"
| "eoi_scan s (i # is) =
     (let irq = irq_bit (prio_index s i)
      in if flag (isr s) irq \<and> \<not> (smm s \<and> flag (NOT (imr s)) irq) then Some irq else eoi_scan s is)"

definition non_specific_eoi :: "pic \<Rightarrow> pic \<times> pic_msg list" where
  "non_specific_eoi s = (case eoi_scan s [0..<8] of None \<Rightarrow> (s, []) | Some irq \<Rightarrow> specific_eoi irq s)"

text \<open>What \<^verbatim>\<open>prioritize_irq(irq_index, true)\<close> does with the interrupt it found.\<close>

definition ack_irq :: "u8 \<Rightarrow> pic \<Rightarrow> pic" where
  "ack_irq idx s =
     (if flag (NOT (elcr s)) (irq_bit idx)
      then s\<lparr>isr := isr s OR irq_bit idx, irr := irr s AND NOT (irq_bit idx)\<rparr>
      else s\<lparr>isr := isr s OR irq_bit idx\<rparr>)"

definition auto_eoi :: "pic \<Rightarrow> pic \<times> pic_msg list" where
  "auto_eoi s =
     (if flag (icw4 s) ICW4_AEOI
      then (case non_specific_eoi s of (s, ms) \<Rightarrow> (if rotate_on_aeoi s then rotate_prios s else s, ms))
      else (s, []))"

definition prioritize_irq :: "u8 \<Rightarrow> bool \<Rightarrow> pic \<Rightarrow> bool \<times> u8 \<times> pic \<times> pic_msg list" where
  "prioritize_irq v int_ack s =
     (case prioritize_peek v s of (found, idx, s, ms) \<Rightarrow>
        if found \<and> int_ack
        then (case auto_eoi (ack_irq idx s) of (s, ms') \<Rightarrow> (True, idx, s, ms @ ms'))
        else (found, idx, s, ms))"

definition reset_values :: "pic \<Rightarrow> pic \<times> pic_msg list" where
  "reset_values s =
     (let s = s\<lparr>irr := 0, imr := 0, prio_lowest := 7, smm := False, read_isr_reg := False\<rparr>;
          s = (if flag (NOT (icw1 s)) ICW1_IC4 then s\<lparr>icw4 := 0\<rparr> else s);
          s = s\<lparr>icw3 := (if is_slave s then 7 else 0)\<rparr>;
          s = s\<lparr>isr := 0, poll_mode := False,
                elcr := (if flag (icw1 s) ICW1_LTIM then 0xff else 0), notify := 0\<rparr>
      in propagate_irq True s)"

text \<open>\<^verbatim>\<open>get_irqvector\<close>: \<^verbatim>\<open>slave\<close> is what the PIC bus answers to a request for a slave.\<close>

definition get_irqvector :: "(u8 \<Rightarrow> u8 option) \<Rightarrow> u8 \<Rightarrow> pic \<Rightarrow> u8 \<times> pic \<times> pic_msg list" where
  "get_irqvector slave v s =
     (case prioritize_irq v True s of (found, res, s, ms) \<Rightarrow>
        if found
        then (if \<not> is_slave s \<and> flag (icw3 s) (irq_bit res)
              then (case slave res of Some vector \<Rightarrow> (vector, s, ms)
                    | None \<Rightarrow> (res + icw2 s, s, ms))
              else (res + icw2 s, s, ms))
        else (7 + icw2 s, s, ms))"

definition pic_receive_legacy ::
    "(u8 \<Rightarrow> u8 option) \<Rightarrow> legacy_type \<Rightarrow> u8 \<Rightarrow> pic \<Rightarrow> (u8 option) \<times> pic \<times> pic_msg list" where
  "pic_receive_legacy slave t v s =
     (if t \<noteq> INTA then (None, s, [])
      else (case get_irqvector slave v s of (vec, s, ms) \<Rightarrow>
            case propagate_irq True s of (s, ms') \<Rightarrow> (Some vec, s, ms @ ms')))"

definition pic_receive_pic ::
    "(u8 \<Rightarrow> u8 option) \<Rightarrow> u8 \<Rightarrow> u8 \<Rightarrow> pic \<Rightarrow> (u8 option) \<times> pic \<times> pic_msg list" where
  "pic_receive_pic slave no v s =
     (if is_slave s \<and> no = (icw3 s AND 7)
      then (case get_irqvector slave v s of (vec, s, ms) \<Rightarrow>
            case propagate_irq False s of (s, ms') \<Rightarrow> (Some vec, s, ms @ ms'))
      else (None, s, []))"

definition pic_hit :: "pic \<Rightarrow> u16 \<Rightarrow> io_type \<Rightarrow> bool" where
  "pic_hit s port t \<longleftrightarrow>
     (bus_in_range (ucast port) (ucast (pic_base s)) 2 \<or> port = elcr_base s) \<and> t = TYPE_B"

definition pic_receive_in :: "io_in \<Rightarrow> pic \<Rightarrow> (io_in option) \<times> pic \<times> pic_msg list" where
  "pic_receive_in m s =
     (if \<not> pic_hit s (in_port m) (in_type m) then (None, s, [])
      else if in_port m = elcr_base s then (Some (m\<lparr>in_value := ucast (elcr s)\<rparr>), s, [])
      else if poll_mode s
        then (case prioritize_irq (ucast (in_value m)) True (s\<lparr>poll_mode := False\<rparr>) of (found, v, s, ms) \<Rightarrow>
                (Some (m\<lparr>in_value := ucast (if found then v OR 0x80 else v)\<rparr>), s, ms))
      else if in_port m = pic_base s
        then (Some (m\<lparr>in_value := ucast (if read_isr_reg s then isr s else irr s)\<rparr>), s, [])
      else (Some (m\<lparr>in_value := ucast (imr s)\<rparr>), s, []))"

text \<open>The command port: ICW1, OCW2 and OCW3.\<close>

definition pic_command :: "u8 \<Rightarrow> pic \<Rightarrow> pic \<times> pic_msg list" where
  "pic_command v s =
     (if flag v 0x10
      then (case reset_values (s\<lparr>icw1 := v\<rparr>) of (s, ms) \<Rightarrow> (s\<lparr>icw_mode := ICW2\<rparr>, ms))
      else if \<not> flag v 0x08
      then (if flag v 0x40
            then (case (if flag v 0x20 then specific_eoi (irq_bit (v AND 7)) s else (s, [])) of (s, ms) \<Rightarrow>
                    (if flag v 0x80 then s\<lparr>prio_lowest := v AND 7\<rparr> else s, ms))
            else if flag v 0x20
            then (case non_specific_eoi s of (s, ms) \<Rightarrow> (if flag v 0x80 then rotate_prios s else s, ms))
            else (s\<lparr>rotate_on_aeoi := flag v 0x80\<rparr>, []))
      else (let s = (if flag v 0x40 then s\<lparr>smm := flag v 0x20\<rparr> else s);
                s = (if flag v 2 then s\<lparr>read_isr_reg := flag v 1\<rparr> else s)
            in (s\<lparr>poll_mode := flag v 4\<rparr>, [])))"

text \<open>The data port: the initialisation sequence and the interrupt mask. The cases fall
  through as in the code.\<close>

definition pic_data_ocw1 :: "u8 \<Rightarrow> pic \<Rightarrow> pic \<times> pic_msg list" where
  "pic_data_ocw1 v s = propagate_irq True (s\<lparr>imr := v\<rparr>)"

definition pic_data_icw4 :: "u8 \<Rightarrow> pic \<Rightarrow> pic \<times> pic_msg list" where
  "pic_data_icw4 v s =
     (let s = s\<lparr>icw_mode := OCW1\<rparr>
      in if flag (icw1 s) ICW1_IC4 then (s\<lparr>icw4 := v\<rparr>, []) else pic_data_ocw1 v s)"

definition pic_data_icw3 :: "u8 \<Rightarrow> pic \<Rightarrow> pic \<times> pic_msg list" where
  "pic_data_icw3 v s =
     (let s = s\<lparr>icw_mode := ICW4\<rparr>
      in if flag (NOT (icw1 s)) ICW1_SNGL then (s\<lparr>icw3 := v\<rparr>, []) else pic_data_icw4 v s)"

definition pic_data :: "u8 \<Rightarrow> pic \<Rightarrow> pic \<times> pic_msg list" where
  "pic_data v s = (case icw_mode s of
      ICW2 \<Rightarrow> (s\<lparr>icw2 := v AND 0xf8, icw_mode := ICW3\<rparr>, [])
    | ICW3 \<Rightarrow> pic_data_icw3 v s
    | ICW4 \<Rightarrow> pic_data_icw4 v s
    | OCW1 \<Rightarrow> pic_data_ocw1 v s)"

definition pic_receive_out :: "io_out \<Rightarrow> pic \<Rightarrow> bool \<times> pic \<times> pic_msg list" where
  "pic_receive_out m s =
     (if \<not> pic_hit s (out_port m) (out_type m) then (False, s, [])
      else (True,
        if out_port m = elcr_base s then (s\<lparr>elcr := ucast (out_value m)\<rparr>, [])
        else if out_port m = pic_base s then pic_command (ucast (out_value m)) s
        else pic_data (ucast (out_value m)) s))"

definition pic_receive_irq :: "irq_type \<Rightarrow> u8 \<Rightarrow> pic \<Rightarrow> bool \<times> pic \<times> pic_msg list" where
  "pic_receive_irq t line s =
     (if bus_in_range (ucast line) (ucast (virq s)) 8
      then (let irq = irq_bit (line - virq s);
                s = (if t = ASSERT_NOTIFY then s\<lparr>notify := notify s OR irq\<rparr> else s)
            in (True,
                if t = DEASSERT_IRQ
                then (if flag (irr s) irq \<and> flag (elcr s) irq
                      then propagate_irq True (s\<lparr>irr := irr s AND NOT irq\<rparr>) else (s, []))
                else if \<not> flag (irr s) irq then propagate_irq False (s\<lparr>irr := irr s OR irq\<rparr>)
                else (s, [])))
      else (False, s, []))"

definition pic_init :: "u16 \<Rightarrow> u8 \<Rightarrow> u16 \<Rightarrow> u8 \<Rightarrow> pic \<times> pic_msg list" where
  "pic_init base irq elcrb vi = reset_values
     \<lparr>pic_base = base, upstream_irq = ucast irq, elcr_base = elcrb, virq = vi,
      icw1 = 0, icw2 = 0, icw3 = 0, icw4 = 0, icw_mode = OCW1, rotate_on_aeoi = False, smm = False,
      read_isr_reg = False, poll_mode = False, prio_lowest = 0, imr = 0, isr = 0, irr = 0, elcr = 0,
      notify = 0\<rparr>"

text \<open>The invariant of the controller: the lowest priority is the index of a line, and the
  vector base is a multiple of eight.\<close>

definition pic_inv :: "pic \<Rightarrow> bool" where
  "pic_inv s \<longleftrightarrow> unat (prio_lowest s) < 8 \<and> unat (icw2 s) mod 8 = 0"

text \<open>Neither the special mask mode nor the special fully nested mode nor automatic EOI.\<close>

definition fully_nested :: "pic \<Rightarrow> bool" where
  "fully_nested s \<longleftrightarrow> \<not> smm s \<and> \<not> flag (icw4 s) ICW4_SFNM \<and> \<not> flag (icw4 s) ICW4_AEOI"

text \<open>The states that the controller reaches through its receive functions.\<close>

inductive pic_reach :: "pic \<Rightarrow> bool" where
  reach_init: "pic_init base irq elcrb vi = (s, ms) \<Longrightarrow> pic_reach s"
| reach_in: "pic_reach s \<Longrightarrow> pic_receive_in m s = (r, s', ms) \<Longrightarrow> pic_reach s'"
| reach_out: "pic_reach s \<Longrightarrow> pic_receive_out m' s = (b, s', ms) \<Longrightarrow> pic_reach s'"
| reach_irq: "pic_reach s \<Longrightarrow> pic_receive_irq t line s = (b, s', ms) \<Longrightarrow> pic_reach s'"
| reach_legacy: "pic_reach s \<Longrightarrow> pic_receive_legacy slave lt v s = (o', s', ms) \<Longrightarrow> pic_reach s'"
| reach_pic: "pic_reach s \<Longrightarrow> pic_receive_pic slave no v s = (o', s', ms) \<Longrightarrow> pic_reach s'"

section \<open>Masks and positions\<close>

lemma flag_irq_bit [simp]: "flag x (irq_bit k) \<longleftrightarrow> bit x (unat k)"
  by (simp add: flag_def irq_bit_def push_bit_of_1 and_exp_eq_0_iff_not_bit)

lemma prio_index_cong: "prio_lowest s = prio_lowest t \<Longrightarrow> prio_index s i = prio_index t i"
  by (simp add: prio_index_def)

lemma prio_index_less: "unat (prio_index s i) < 8"
proof -
  have "unat (prio_index s i) = unat (prio_lowest s + 1 + of_nat i) mod 8"
    using unat_and_mask [of "prio_lowest s + 1 + of_nat i" 3] by (simp add: prio_index_def mask_eq_exp_minus_1)
  then show ?thesis by simp
qed

lemma unat_prio_index: "unat (prio_index s i) = (unat (prio_lowest s) + 1 + i) mod 8"
proof -
  have "unat (prio_index s i) = unat (prio_lowest s + 1 + of_nat i) mod 8"
    using unat_and_mask [of "prio_lowest s + 1 + of_nat i" 3] by (simp add: prio_index_def mask_eq_exp_minus_1)
  also have "\<dots> = (unat (prio_lowest s) + 1 + i) mod 8"
    by (simp add: unat_word_ariths unat_of_nat mod_simps mod_mod_cancel)
  finally show ?thesis .
qed

lemma prio_index_inj: "i < 8 \<Longrightarrow> j < 8 \<Longrightarrow> prio_index s i = prio_index s j \<Longrightarrow> i = j"
proof -
  assume ij: "i < 8" "j < 8" and e: "prio_index s i = prio_index s j"
  have "(unat (prio_lowest s) + 1 + i) mod 8 = (unat (prio_lowest s) + 1 + j) mod 8"
    using e unat_prio_index by metis
  then have m: "((unat (prio_lowest s) + 1) mod 8 + i) mod 8 = ((unat (prio_lowest s) + 1) mod 8 + j) mod 8"
    by (simp add: mod_simps)
  have w: "x mod 8 = (if x < 8 then x else x - 8)" if "x < 16" for x :: nat
    using that by (simp add: mod_if)
  show ?thesis
    using m ij mod_less_divisor [of 8 "unat (prio_lowest s) + 1"] by (simp add: w split: if_splits)
qed

section \<open>Priority selection\<close>

text \<open>A request or an in-service block at a position of the rotated priority order.\<close>

lemma pic_scan_spec:
  "pic_scan s state is v = (found, idx) \<Longrightarrow>
     (found \<longrightarrow> (\<exists>n < length is. idx = prio_index s (is ! n) \<and> bit state (unat idx)
        \<and> (\<forall>m \<le> n. \<not> blocks s (irq_bit (prio_index s (is ! m))))
        \<and> (\<forall>m < n. \<not> bit state (unat (prio_index s (is ! m))))))
   \<and> (\<not> found \<longrightarrow> (\<forall>n < length is. bit state (unat (prio_index s (is ! n))) \<longrightarrow>
        (\<exists>m \<le> n. blocks s (irq_bit (prio_index s (is ! m))))))"
proof (induction s state "is" v rule: pic_scan.induct)
  case (2 s state i "is" v)
  let ?irq = "irq_bit (prio_index s i)"
  consider "blocks s ?irq" | "\<not> blocks s ?irq" "bit state (unat (prio_index s i))"
    | "\<not> blocks s ?irq" "\<not> bit state (unat (prio_index s i))" by blast
  then show ?case
  proof cases
    case 1
    then show ?thesis using "2.prems" by (auto simp: Let_def)
  next
    case 2
    then show ?thesis using "2.prems" by (auto simp: Let_def intro!: exI [of _ 0])
  next
    case 3
    then have r: "pic_scan s state is (prio_index s i) = (found, idx)" using "2.prems" by (simp add: Let_def)
    note I = "2.IH" [OF refl refl _ _ r]
    show ?thesis
    proof (intro conjI impI)
      assume found
      then obtain n where n: "n < length is" "idx = prio_index s (is ! n)" "bit state (unat idx)"
          "\<forall>m \<le> n. \<not> blocks s (irq_bit (prio_index s (is ! m)))"
          "\<forall>m < n. \<not> bit state (unat (prio_index s (is ! m)))"
        using I 3 by auto
      have "\<forall>m \<le> Suc n. \<not> blocks s (irq_bit (prio_index s ((i # is) ! m)))"
        using n(4) 3(1) by (auto simp: nth_Cons split: nat.split)
      moreover have "\<forall>m < Suc n. \<not> bit state (unat (prio_index s ((i # is) ! m)))"
        using n(5) 3(2) by (auto simp: nth_Cons split: nat.split)
      ultimately show "\<exists>n < length (i # is). idx = prio_index s ((i # is) ! n) \<and> bit state (unat idx)
        \<and> (\<forall>m \<le> n. \<not> blocks s (irq_bit (prio_index s ((i # is) ! m))))
        \<and> (\<forall>m < n. \<not> bit state (unat (prio_index s ((i # is) ! m))))"
        using n(1-3) by (intro exI [of _ "Suc n"]) simp
    next
      assume nf: "\<not> found"
      show "\<forall>n < length (i # is). bit state (unat (prio_index s ((i # is) ! n))) \<longrightarrow>
        (\<exists>m \<le> n. blocks s (irq_bit (prio_index s ((i # is) ! m))))"
      proof (intro allI impI)
        fix n assume n: "n < length (i # is)" "bit state (unat (prio_index s ((i # is) ! n)))"
        then obtain k where k: "n = Suc k" "k < length is" using 3(2) by (cases n) auto
        then obtain m where "m \<le> k" "blocks s (irq_bit (prio_index s (is ! m)))" using I 3 nf n(2) by auto
        then show "\<exists>m \<le> n. blocks s (irq_bit (prio_index s ((i # is) ! m)))"
          using k(1) by (intro exI [of _ "Suc m"]) simp
      qed
    qed
  qed
qed simp

lemma pic_notify_frame: "pic_notify s = (s', ms) \<Longrightarrow> s' = s\<lparr>notify := notify s'\<rparr>"
  by (auto simp: pic_notify_def Let_def split: if_splits)

lemma peek_frame: "prioritize_peek v s = (found, idx, s', ms) \<Longrightarrow> s' = s\<lparr>notify := notify s'\<rparr>"
  by (auto simp: prioritize_peek_def dest: pic_notify_frame split: prod.splits)

lemma pic_scan_notify [simp]: "pic_scan (s\<lparr>notify := x\<rparr>) state is v = pic_scan s state is v"
proof -
  have "prio_index (s\<lparr>notify := x\<rparr>) i = prio_index s i" for i by (simp add: prio_index_def)
  moreover have "blocks (s\<lparr>notify := x\<rparr>) b = blocks s b" for b by (simp add: blocks_def)
  ultimately show ?thesis by (induction s state "is" v rule: pic_scan.induct) (simp_all add: Let_def)
qed

lemma peek_scan:
  assumes "prioritize_peek v s = (found, idx, s', ms)"
  shows "pic_scan s (irr s AND NOT (imr s)) [0..<8] v = (found, idx)"
proof -
  obtain t ns where t: "pic_notify s = (t, ns)" by fastforce
  have "t = s\<lparr>notify := notify t\<rparr>" using t by (rule pic_notify_frame)
  then have "pic_scan t (irr t AND NOT (imr t)) [0..<8] v = pic_scan s (irr s AND NOT (imr s)) [0..<8] v"
    by (metis pic.select_convs pic.update_convs(19) pic.surjective pic_scan_notify pic.ext_inject)
  then show ?thesis using assms t by (simp add: prioritize_peek_def split: prod.splits)
qed

lemma peek_found:
  assumes "prioritize_peek v s = (True, idx, s', ms)"
  obtains i where "i < 8" "idx = prio_index s i" "bit (irr s) (unat idx)" "\<not> bit (imr s) (unat idx)"
    "\<And>j. j \<le> i \<Longrightarrow> \<not> blocks s (irq_bit (prio_index s j))"
    "\<And>j. j < i \<Longrightarrow> \<not> (bit (irr s) (unat (prio_index s j)) \<and> \<not> bit (imr s) (unat (prio_index s j)))"
proof -
  obtain n where n: "n < 8" "idx = prio_index s ([0..<8] ! n)" "bit (irr s AND NOT (imr s)) (unat idx)"
      "\<forall>m \<le> n. \<not> blocks s (irq_bit (prio_index s ([0..<8] ! m)))"
      "\<forall>m < n. \<not> bit (irr s AND NOT (imr s)) (unat (prio_index s ([0..<8] ! m)))"
    using pic_scan_spec [OF peek_scan [OF assms]] by auto
  have u: "unat (prio_index s m) < LENGTH(8)" for m using prio_index_less [of s m] by simp
  show thesis
  proof (rule that [of n])
    show "\<not> blocks s (irq_bit (prio_index s j))" if "j \<le> n" for j using n(1,4) that by auto
    show "\<not> (bit (irr s) (unat (prio_index s j)) \<and> \<not> bit (imr s) (unat (prio_index s j)))" if "j < n" for j
      using n(1,5) that u [of j] by (auto simp: bit_simps)
  qed (use n u in \<open>auto simp: bit_simps\<close>)
qed

lemma peek_not_found:
  assumes "prioritize_peek v s = (False, idx, s', ms)" "i < 8"
    and "bit (irr s) (unat (prio_index s i))" "\<not> bit (imr s) (unat (prio_index s i))"
  shows "\<exists>j \<le> i. blocks s (irq_bit (prio_index s j))"
proof -
  have u: "unat (prio_index s i) < LENGTH(8)" using prio_index_less [of s i] by simp
  then have "bit (irr s AND NOT (imr s)) (unat (prio_index s ([0..<8] ! i)))"
    using assms(2-4) by (auto simp: bit_simps)
  then obtain m where "m \<le> i" "blocks s (irq_bit (prio_index s ([0..<8] ! m)))"
    using pic_scan_spec [OF peek_scan [OF assms(1)]] assms(2) by auto
  then show ?thesis using assms(2) by auto
qed

section \<open>The nesting of interrupts\<close>

lemma eoi_scan_first:
  assumes "\<not> smm s" "n < length is" "bit (isr s) (unat (prio_index s (is ! n)))"
    and "\<And>m. m < n \<Longrightarrow> \<not> bit (isr s) (unat (prio_index s (is ! m)))"
  shows "eoi_scan s is = Some (irq_bit (prio_index s (is ! n)))"
  using assms(2-4)
proof (induction "is" arbitrary: n)
  case (Cons i "is")
  show ?case
  proof (cases n)
    case 0
    then show ?thesis using Cons.prems assms(1) by (simp add: Let_def)
  next
    case (Suc k)
    have "\<not> bit (isr s) (unat (prio_index s i))" using Cons.prems(3) [of 0] Suc by simp
    moreover have "\<not> bit (isr s) (unat (prio_index s (is ! m)))" if "m < k" for m
      using Cons.prems(3) [of "Suc m"] Suc that by simp
    then have "eoi_scan s is = Some (irq_bit (prio_index s (is ! k)))"
      using Cons.prems(1,2) Suc by (intro Cons.IH) auto
    ultimately show ?thesis using Suc by (simp add: Let_def)
  qed
qed simp

lemma propagate_frame: "propagate_irq d s = (s', ms) \<Longrightarrow> s' = s\<lparr>notify := notify s'\<rparr>"
  by (auto simp: propagate_irq_def dest: peek_frame split: prod.splits)

lemma blocks_nested: "fully_nested s \<Longrightarrow> blocks s (irq_bit k) \<longleftrightarrow> bit (isr s) (unat k)"
  by (auto simp: fully_nested_def blocks_def)

lemma prio_index_notify [simp]: "prio_index (s\<lparr>notify := x\<rparr>) i = prio_index s i"
  by (simp add: prio_index_def)

lemma ack_irq_fields:
  "isr (ack_irq idx s) = isr s OR irq_bit idx" "prio_lowest (ack_irq idx s) = prio_lowest s"
  "icw4 (ack_irq idx s) = icw4 s" "smm (ack_irq idx s) = smm s"
  "prio_index (ack_irq idx s) i = prio_index s i" "fully_nested (ack_irq idx s) = fully_nested s"
  by (simp_all add: ack_irq_def prio_index_def fully_nested_def)

lemma ack_state:
  assumes "fully_nested s" "prioritize_irq v True s = (True, idx, s', ms)"
  obtains x where "prioritize_peek v s = (True, idx, s\<lparr>notify := x\<rparr>, ms)" "s' = ack_irq idx (s\<lparr>notify := x\<rparr>)"
proof -
  obtain t ns j f where p: "prioritize_peek v s = (f, j, t, ns)" by (metis prod_cases4)
  obtain x where t: "t = s\<lparr>notify := x\<rparr>" using peek_frame [OF p] by blast
  have f: f using assms(2) by (cases f) (simp_all add: prioritize_irq_def p)
  have "fully_nested (ack_irq j t)" using assms(1) unfolding ack_irq_fields t by (simp add: fully_nested_def)
  then have "auto_eoi (ack_irq j t) = (ack_irq j t, [])" by (simp add: auto_eoi_def fully_nested_def)
  then have "prioritize_irq v True s = (True, j, ack_irq j t, ns)" using f by (simp add: prioritize_irq_def p)
  then have "idx = j" "s' = ack_irq j t" "ms = ns" using assms(2) by simp_all
  then show thesis using that [of x] p f t by simp
qed

lemma ack_blocks_lower:
  assumes n: "fully_nested s" and a: "prioritize_irq v True s = (True, idx, s', ms)"
    and p: "prioritize_peek v' s' = (True, idx', s'', ms')"
  shows "\<exists>i j. i < j \<and> j < 8 \<and> idx = prio_index s j \<and> idx' = prio_index s i"
proof -
  obtain x where x: "prioritize_peek v s = (True, idx, s\<lparr>notify := x\<rparr>, ms)" "s' = ack_irq idx (s\<lparr>notify := x\<rparr>)"
    by (rule ack_state [OF n a])
  obtain j where j: "j < 8" "idx = prio_index s j" by (rule peek_found [OF x(1)])
  have pi: "prio_index s' m = prio_index s m" for m by (simp add: x(2) ack_irq_fields)
  have n': "fully_nested s'" using n unfolding x(2) ack_irq_fields by (simp add: fully_nested_def)
  obtain i where i: "i < 8" "idx' = prio_index s' i" "\<And>m. m \<le> i \<Longrightarrow> \<not> blocks s' (irq_bit (prio_index s' m))"
    using peek_found [OF p] by blast
  have "bit (isr s') (unat (prio_index s' j))"
    using prio_index_less [of s j] by (simp add: x(2) ack_irq_fields j(2) bit_simps irq_bit_def)
  then have "blocks s' (irq_bit (prio_index s' j))" using blocks_nested [OF n'] by simp
  then have "i < j" using i(3) by (meson not_le)
  then show ?thesis using i(1,2) j pi by metis
qed

lemma ack_then_eoi:
  assumes n: "fully_nested s" and a: "prioritize_irq v True s = (True, idx, s', ms)"
  shows "isr (fst (non_specific_eoi s')) = isr s \<and> bit (isr s') (unat idx) \<and> \<not> bit (isr s) (unat idx)"
proof -
  obtain x where x: "prioritize_peek v s = (True, idx, s\<lparr>notify := x\<rparr>, ms)" "s' = ack_irq idx (s\<lparr>notify := x\<rparr>)"
    by (rule ack_state [OF n a])
  obtain j where j: "j < 8" "idx = prio_index s j" "\<And>m. m \<le> j \<Longrightarrow> \<not> blocks s (irq_bit (prio_index s m))"
    using peek_found [OF x(1)] by blast
  have clear: "\<not> bit (isr s) (unat (prio_index s m))" if "m \<le> j" for m
    using j(3) [OF that] blocks_nested [OF n] by simp
  have pi: "prio_index s' m = prio_index s m" for m by (simp add: x(2) ack_irq_fields)
  have n': "fully_nested s'" using n unfolding x(2) ack_irq_fields by (simp add: fully_nested_def)
  have u: "unat idx < 8" using prio_index_less j(2) by simp
  have b: "bit (irq_bit idx) k \<longleftrightarrow> k = unat idx" for k
    using u by (auto simp: irq_bit_def bit_simps)
  have set: "bit (isr s') k \<longleftrightarrow> bit (isr s) k \<or> k = unat idx" for k
    by (simp add: x(2) ack_irq_fields bit_simps b)
  have ne: "prio_index s m \<noteq> idx" if "m < j" for m using prio_index_inj [of m j s] that j by auto
  have "\<not> bit (isr s') (unat (prio_index s' m))" if "m < j" for m
    using that clear [of m] ne [OF that] by (simp add: set pi word_unat_eq_iff)
  then have "eoi_scan s' [0..<8] = Some (irq_bit (prio_index s' ([0..<8] ! j)))"
    using n' j(1,2) by (intro eoi_scan_first) (auto simp: set pi fully_nested_def)
  then have e: "eoi_scan s' [0..<8] = Some (irq_bit idx)" using j(1,2) by (simp add: pi)
  obtain t ns where t: "propagate_irq False (s'\<lparr>isr := isr s' AND NOT (irq_bit idx)\<rparr>) = (t, ns)" by fastforce
  obtain y where "t = s'\<lparr>isr := isr s' AND NOT (irq_bit idx), notify := y\<rparr>" using propagate_frame [OF t] by blast
  then have "isr t = isr s' AND NOT (irq_bit idx)" by simp
  also have "\<dots> = isr s"
  proof -
    have "\<not> bit (isr s) (unat idx)" using clear [of j] j(2) by simp
    then show ?thesis by (intro bit_eqI) (auto simp: bit_simps b set)
  qed
  finally show ?thesis using e t clear [of j] j(2) by (simp add: non_specific_eoi_def specific_eoi_def set)
qed

section \<open>The invariant\<close>

lemma pic_inv_cong:
  "prio_lowest t = prio_lowest s \<Longrightarrow> icw2 t = icw2 s \<Longrightarrow> pic_inv t \<longleftrightarrow> pic_inv s"
  by (simp add: pic_inv_def)

lemma unat_and_7: "unat (v AND 7 :: u8) < 8"
  using unat_and_mask [of v 3] by (simp add: mask_eq_exp_minus_1)

lemma inv_notify: "pic_inv (s\<lparr>notify := x\<rparr>) \<longleftrightarrow> pic_inv s"
  by (rule pic_inv_cong) simp_all

lemma inv_peek: "prioritize_peek v s = (found, idx, s', ms) \<Longrightarrow> pic_inv s' \<longleftrightarrow> pic_inv s"
  using peek_frame inv_notify by metis

lemma inv_propagate: "pic_inv s \<Longrightarrow> pic_inv (fst (propagate_irq d s))"
  using propagate_frame [of d s] inv_notify by (metis prod.collapse)

lemma inv_specific_eoi: "pic_inv s \<Longrightarrow> pic_inv (fst (specific_eoi irq s))"
  unfolding specific_eoi_def by (rule inv_propagate) (simp add: pic_inv_def)

lemma inv_non_specific_eoi: "pic_inv s \<Longrightarrow> pic_inv (fst (non_specific_eoi s))"
  by (simp add: non_specific_eoi_def inv_specific_eoi split: option.split)

lemma inv_rotate: "pic_inv s \<Longrightarrow> pic_inv (rotate_prios s)"
  by (simp add: pic_inv_def rotate_prios_def unat_and_7)

lemma inv_ack: "pic_inv (ack_irq idx s) \<longleftrightarrow> pic_inv s"
  by (simp add: pic_inv_def ack_irq_def)

lemma inv_auto_eoi: "pic_inv s \<Longrightarrow> pic_inv (fst (auto_eoi s))"
  using inv_non_specific_eoi [of s] inv_rotate by (auto simp: auto_eoi_def split: prod.split)

lemma inv_prioritize:
  assumes "pic_inv s" "prioritize_irq v ack s = (found, idx, s', ms)"
  shows "pic_inv s'"
proof -
  obtain f j t ns where p: "prioritize_peek v s = (f, j, t, ns)" by (metis prod_cases4)
  have t: "pic_inv t" using inv_peek [OF p] assms(1) by simp
  show ?thesis
  proof (cases "f \<and> ack")
    case True
    have "pic_inv (fst (auto_eoi (ack_irq j t)))" using t by (intro inv_auto_eoi) (simp add: inv_ack)
    then show ?thesis using assms(2) True by (auto simp: prioritize_irq_def p split: prod.splits)
  next
    case False
    then show ?thesis using assms(2) t by (auto simp: prioritize_irq_def p)
  qed
qed

lemma inv_reset_aux:
  assumes "reset_values s = (s', ms)"
  shows "prio_lowest s' = 7 \<and> icw2 s' = icw2 s \<and> isr s' = 0 \<and> irr s' = 0 \<and> imr s' = 0"
proof -
  obtain t where t: "propagate_irq True t = (s', ms)" "prio_lowest t = 7" "icw2 t = icw2 s" "isr t = 0" "irr t = 0" "imr t = 0"
    using assms by (auto simp: reset_values_def Let_def)
  obtain y where "s' = t\<lparr>notify := y\<rparr>" using propagate_frame [OF t(1)] by blast
  then show ?thesis using t by simp
qed

lemma inv_command: "pic_inv s \<Longrightarrow> pic_inv (fst (pic_command v s))"
proof -
  assume i: "pic_inv s"
  consider "flag v 0x10" | "\<not> flag v 0x10" "\<not> flag v 0x08" "flag v 0x40" | "\<not> flag v 0x10" "\<not> flag v 0x08" "\<not> flag v 0x40"
    | "\<not> flag v 0x10" "flag v 0x08" by blast
  then show ?thesis
  proof cases
    case 1
    obtain t ms where t: "reset_values (s\<lparr>icw1 := v\<rparr>) = (t, ms)" by fastforce
    then have "prio_lowest t = 7" "icw2 t = icw2 s" using inv_reset_aux [OF t] by simp_all
    then show ?thesis using i 1 t by (simp add: pic_command_def pic_inv_def)
  next
    case 2
    have "pic_inv (fst (specific_eoi (irq_bit (v AND 7)) s))" using i by (rule inv_specific_eoi)
    then show ?thesis using i 2 unat_and_7 [of v] by (auto simp: pic_command_def pic_inv_def split: prod.split)
  next
    case 3
    have "pic_inv (fst (non_specific_eoi s))" using i by (rule inv_non_specific_eoi)
    then show ?thesis using i 3 inv_rotate by (auto simp: pic_command_def pic_inv_def split: prod.split)
  next
    case 4
    then show ?thesis using i by (simp add: pic_command_def pic_inv_def Let_def)
  qed
qed

lemma inv_data: "pic_inv s \<Longrightarrow> pic_inv (fst (pic_data v s))"
proof -
  assume i: "pic_inv s"
  have ocw1: "pic_inv (fst (pic_data_ocw1 v t))" if "pic_inv t" for t
    unfolding pic_data_ocw1_def using that by (intro inv_propagate) (simp add: pic_inv_def)
  have m: "pic_inv (t\<lparr>icw_mode := x\<rparr>) \<longleftrightarrow> pic_inv t" for t x by (simp add: pic_inv_def)
  have icw4: "pic_inv (fst (pic_data_icw4 v t))" if "pic_inv t" for t
    using that ocw1 [of "t\<lparr>icw_mode := OCW1\<rparr>"] by (simp add: pic_data_icw4_def Let_def pic_inv_def)
  have icw3: "pic_inv (fst (pic_data_icw3 v t))" if "pic_inv t" for t
    using that icw4 [of "t\<lparr>icw_mode := ICW4\<rparr>"] by (simp add: pic_data_icw3_def Let_def pic_inv_def)
  have "unat (v AND 0xf8) mod 8 = 0"
  proof -
    have "(v AND 0xf8) AND 7 = 0" by (simp add: and.assoc)
    then show ?thesis using unat_and_mask [of "v AND 0xf8" 3] by (simp add: mask_eq_exp_minus_1)
  qed
  then show ?thesis using i ocw1 icw4 icw3 by (simp add: pic_data_def pic_inv_def split: icw_mode.split)
qed

lemma inv_get_irqvector:
  assumes "pic_inv s" "get_irqvector slave v s = (vec, s', ms)"
  shows "pic_inv s'"
proof -
  obtain f j t ns where p: "prioritize_irq v True s = (f, j, t, ns)" by (metis prod_cases4)
  have "s' = t" using assms(2) by (auto simp: get_irqvector_def p split: if_splits option.splits)
  then show ?thesis using inv_prioritize [OF assms(1) p] by simp
qed

lemma pic_reach_inv: "pic_reach s \<Longrightarrow> pic_inv s"
proof (induction rule: pic_reach.induct)
  case (reach_init base irq elcrb vi s ms)
  then show ?case using inv_reset_aux by (fastforce simp: pic_init_def pic_inv_def)
next
  case (reach_in s m r s' ms)
  have "pic_inv (s\<lparr>poll_mode := False\<rparr>)" using reach_in.IH by (simp add: pic_inv_def)
  then show ?case using reach_in.hyps(2) reach_in.IH inv_prioritize
    by (auto simp: pic_receive_in_def split: if_splits prod.splits)
next
  case (reach_out s m' b s' ms)
  then show ?case using inv_command [of s] inv_data [of s]
    by (auto simp: pic_receive_out_def pic_inv_def split: if_splits) (metis fst_conv)+
next
  case (reach_irq s t line b s' ms)
  define u where "u = (if t = ASSERT_NOTIFY then s\<lparr>notify := notify s OR irq_bit (line - virq s)\<rparr> else s)"
  have u: "pic_inv u" "pic_inv (u\<lparr>irr := x\<rparr>)" for x using reach_irq.IH by (simp_all add: u_def pic_inv_def)
  show ?case
    using reach_irq.hyps(2) reach_irq.IH u inv_propagate [OF u(2)] unfolding pic_receive_irq_def Let_def u_def [symmetric]
    by (auto split: if_splits) (metis fst_conv)+
next
  case (reach_legacy s slave lt v o' s' ms)
  then show ?case using inv_get_irqvector inv_propagate
    by (auto simp: pic_receive_legacy_def split: if_splits prod.splits) (metis fst_conv)
next
  case (reach_pic s slave no v o' s' ms)
  then show ?case using inv_get_irqvector inv_propagate
    by (auto simp: pic_receive_pic_def split: if_splits prod.splits) (metis fst_conv)
qed

lemma icw_propagate: "icw2 (fst (propagate_irq d s)) = icw2 s \<and> icw3 (fst (propagate_irq d s)) = icw3 s"
proof -
  obtain t ms where t: "propagate_irq d s = (t, ms)" by fastforce
  obtain y where "t = s\<lparr>notify := y\<rparr>" using propagate_frame [OF t] by blast
  then show ?thesis by (simp add: t)
qed

lemma icw_non_specific_eoi:
  "icw2 (fst (non_specific_eoi s)) = icw2 s \<and> icw3 (fst (non_specific_eoi s)) = icw3 s"
  by (simp add: non_specific_eoi_def specific_eoi_def icw_propagate split: option.split)

lemma icw_auto_eoi: "icw2 (fst (auto_eoi s)) = icw2 s \<and> icw3 (fst (auto_eoi s)) = icw3 s"
  using icw_non_specific_eoi [of s] by (auto simp: auto_eoi_def rotate_prios_def split: prod.split)

lemma prioritize_icw:
  assumes "prioritize_irq v ack s = (found, idx, s', ms)"
  shows "icw2 s' = icw2 s \<and> icw3 s' = icw3 s \<and> (found \<longrightarrow> unat idx < 8)"
proof -
  obtain f j t ns where p: "prioritize_peek v s = (f, j, t, ns)" by (metis prod_cases4)
  obtain x where t: "t = s\<lparr>notify := x\<rparr>" using peek_frame [OF p] by blast
  have a: "icw2 (ack_irq j t) = icw2 s" "icw3 (ack_irq j t) = icw3 s" by (simp_all add: ack_irq_def t)
  have f: "unat j < 8" if f
  proof -
    have p': "prioritize_peek v s = (True, j, t, ns)" using p that by simp
    obtain i where "j = prio_index s i" by (rule peek_found [OF p'])
    then show ?thesis using prio_index_less by simp
  qed
  show ?thesis
  proof (cases "f \<and> ack")
    case True
    obtain u nt where u: "auto_eoi (ack_irq j t) = (u, nt)" by fastforce
    then have "icw2 u = icw2 s" "icw3 u = icw3 s" using icw_auto_eoi [of "ack_irq j t"] a by simp_all
    then show ?thesis using assms True f u by (auto simp: prioritize_irq_def p)
  next
    case False
    then show ?thesis using assms f t by (auto simp: prioritize_irq_def p)
  qed
qed

lemma vector_range:
  assumes "pic_inv s" "get_irqvector slave v s = (vec, s', ms)" "icw3 s = 0"
  shows "unat (icw2 s) \<le> unat vec \<and> unat vec \<le> unat (icw2 s) + 7"
proof -
  obtain f j t ns where p: "prioritize_irq v True s = (f, j, t, ns)" by (metis prod_cases4)
  note I = prioritize_icw [OF p]
  have b: "unat (r + icw2 s) = unat r + unat (icw2 s)" if "unat r < 8" for r
  proof -
    have "unat (icw2 s) mod 8 = 0" "unat (icw2 s) < 256" using assms(1) unat_bound [of "icw2 s"] by (auto simp: pic_inv_def)
    then have "unat (icw2 s) \<le> 248" by presburger
    then show ?thesis using that by (simp add: unat_add_small)
  qed
  have "vec = (if f then j else 7) + icw2 s"
    using assms(2,3) I by (auto simp: get_irqvector_def p flag_def split: if_splits)
  then show ?thesis using b [of "if f then j else 7"] I by (auto split: if_splits)
qed

lemma blocks_irq_bit:
  "blocks s (irq_bit k) \<longleftrightarrow> \<not> smm s \<and> bit (isr s) (unat k) \<and> \<not> (bit (icw4 s) 4 \<and> bit (icw3 s) (unat k))"
proof -
  have "flag (icw4 s) ICW4_SFNM \<longleftrightarrow> bit (icw4 s) 4" using flag_exp [of "icw4 s" 4] by (simp add: ICW4_SFNM_def)
  then show ?thesis by (simp add: blocks_def)
qed

section \<open>Properties\<close>

text \<open>Claim C16. The priority resolver: scanning the lines in rotated priority order, the
  controller reports an interrupt exactly when some requested and unmasked line is
  not preceded (or accompanied) by an in-service line that blocks it, and then it
  reports the first requested and unmasked line in that order.\<close>

theorem pic_selects_highest_priority:
  assumes "prioritize_peek v s = (found, idx, s', ms)"
  shows "let line = (\<lambda>i. (unat (prio_lowest s) + 1 + i) mod 8);
             requested = (\<lambda>n. bit (irr s) n \<and> \<not> bit (imr s) n);
             blocking = (\<lambda>n. \<not> smm s \<and> bit (isr s) n \<and> \<not> (bit (icw4 s) 4 \<and> bit (icw3 s) n))
    in if found
    then \<exists>i < 8. unat idx = line i \<and> requested (line i)
      \<and> (\<forall>j \<le> i. \<not> blocking (line j)) \<and> (\<forall>j < i. \<not> requested (line j))
    else \<forall>i < 8. requested (line i) \<longrightarrow> (\<exists>j \<le> i. blocking (line j))"
proof (cases found)
  case True
  then have p: "prioritize_peek v s = (True, idx, s', ms)" using assms by simp
  show ?thesis unfolding if_P [OF True] Let_def unat_prio_index [symmetric] blocks_irq_bit [symmetric]
    by (rule peek_found [OF p]) blast
next
  case False
  then have "prioritize_peek v s = (False, idx, s', ms)" using assms by simp
  then show ?thesis unfolding if_not_P [OF False] Let_def unat_prio_index [symmetric] blocks_irq_bit [symmetric]
    using peek_not_found by blast
qed

theorem pic_selects_highest_priority_witness:
  "\<exists>s s' ms. prioritize_peek 0 s = (True, 3, s', ms) \<and> irr s = 0x49 \<and> imr s = 0x01 \<and> isr s = 0x10
     \<and> bit (irr s) 3 \<and> \<not> bit (imr s) 3 \<and> \<not> (bit (irr s) 0 \<and> \<not> bit (imr s) 0) \<and> \<not> (bit (irr s) 1 \<and> \<not> bit (imr s) 1)
     \<and> \<not> (bit (irr s) 2 \<and> \<not> bit (imr s) 2)
     \<and> \<not> (\<not> smm s \<and> bit (isr s) 3 \<and> \<not> (bit (icw4 s) 4 \<and> bit (icw3 s) 3))"
proof -
  let ?s = "(fst (pic_init 0x20 0 0x4d0 0))\<lparr>irr := 0x49, imr := 0x01, isr := 0x10\<rparr>"
  have c: "fst (prioritize_peek 0 ?s)" "fst (snd (prioritize_peek 0 ?s)) = 3" "prio_lowest ?s = 7" by code_simp+
  obtain f j s' ms where p: "prioritize_peek 0 ?s = (f, j, s', ms)" by (metis prod_cases4)
  have fj: "f" "j = 3" using c(1,2) unfolding p by simp_all
  have l: "(unat (prio_lowest ?s) + 1 + i) mod 8 = i" if "i < 8" for i using that unfolding c(3) by simp
  obtain i where i: "i < 8" "unat (3 :: u8) = i" "bit (irr ?s) i \<and> \<not> bit (imr ?s) i"
      "\<And>j. j \<le> i \<Longrightarrow> \<not> (\<not> smm ?s \<and> bit (isr ?s) j \<and> \<not> (bit (icw4 ?s) 4 \<and> bit (icw3 ?s) j))"
      "\<And>j. j < i \<Longrightarrow> \<not> (bit (irr ?s) j \<and> \<not> bit (imr ?s) j)"
  proof -
    obtain i where a: "i < 8" "unat (3 :: u8) = (unat (prio_lowest ?s) + 1 + i) mod 8"
        "bit (irr ?s) ((unat (prio_lowest ?s) + 1 + i) mod 8) \<and> \<not> bit (imr ?s) ((unat (prio_lowest ?s) + 1 + i) mod 8)"
        "\<forall>j \<le> i. \<not> (\<not> smm ?s \<and> bit (isr ?s) ((unat (prio_lowest ?s) + 1 + j) mod 8)
           \<and> \<not> (bit (icw4 ?s) 4 \<and> bit (icw3 ?s) ((unat (prio_lowest ?s) + 1 + j) mod 8)))"
        "\<forall>j < i. \<not> (bit (irr ?s) ((unat (prio_lowest ?s) + 1 + j) mod 8) \<and> \<not> bit (imr ?s) ((unat (prio_lowest ?s) + 1 + j) mod 8))"
      using pic_selects_highest_priority [OF p] unfolding fj(2) if_P [OF fj(1)] Let_def by blast
    show thesis
    proof (rule that [OF a(1)])
      show "unat (3 :: u8) = i" using a(2) unfolding l [OF a(1)] .
      show "bit (irr ?s) i \<and> \<not> bit (imr ?s) i" using a(3) unfolding l [OF a(1)] .
      fix j
      show "\<not> (\<not> smm ?s \<and> bit (isr ?s) j \<and> \<not> (bit (icw4 ?s) 4 \<and> bit (icw3 ?s) j))" if "j \<le> i"
        using a(4) [rule_format, OF that] unfolding l [OF le_less_trans [OF that a(1)]] .
      show "\<not> (bit (irr ?s) j \<and> \<not> bit (imr ?s) j)" if "j < i"
        using a(5) [rule_format, OF that] unfolding l [OF less_trans [OF that a(1)]] .
    qed
  qed
  have "i = 3" using i(2) by simp
  then have "bit (irr ?s) 3 \<and> \<not> bit (imr ?s) 3" "\<not> (bit (irr ?s) 0 \<and> \<not> bit (imr ?s) 0)" "\<not> (bit (irr ?s) 1 \<and> \<not> bit (imr ?s) 1)"
      "\<not> (bit (irr ?s) 2 \<and> \<not> bit (imr ?s) 2)" "\<not> (\<not> smm ?s \<and> bit (isr ?s) 3 \<and> \<not> (bit (icw4 ?s) 4 \<and> bit (icw3 ?s) 3))"
    using i(3) i(5) [of 0] i(5) [of 1] i(5) [of 2] i(4) [of 3] by simp_all
  then show ?thesis using p fj by (intro exI [of _ ?s] exI [of _ s'] exI [of _ ms]) simp
qed

text \<open>Claim C17. Nesting of interrupts: in fully nested mode, acknowledging an interrupt marks
  a line as in service that was not in service before; until its end-of-interrupt only
  lines of strictly higher priority interrupt again; and the non-specific EOI ends
  exactly this interrupt and restores the in-service register.\<close>

theorem pic_nesting:
  assumes "fully_nested s" "prioritize_irq v True s = (True, idx, s', ms)"
  shows "bit (isr s') (unat idx) \<and> \<not> bit (isr s) (unat idx)
    \<and> isr (fst (non_specific_eoi s')) = isr s
    \<and> (\<forall>v' idx' s'' ms'. prioritize_peek v' s' = (True, idx', s'', ms') \<longrightarrow>
        (\<exists>i j. i < j \<and> j < 8 \<and> idx = prio_index s j \<and> idx' = prio_index s i))"
  using ack_then_eoi [OF assms] ack_blocks_lower [OF assms] by blast

theorem pic_nesting_witness:
  "\<exists>s' ms. prioritize_irq 0 True ((fst (pic_init 0x20 0 0x4d0 0))\<lparr>irr := 0x48\<rparr>) = (True, 3, s', ms)
    \<and> isr (fst (non_specific_eoi s')) = 0 \<and> bit (isr s') 3"
proof -
  let ?s = "(fst (pic_init 0x20 0 0x4d0 0))\<lparr>irr := 0x48\<rparr>"
  have c: "fst (prioritize_irq 0 True ?s)" "fst (snd (prioritize_irq 0 True ?s)) = 3" by code_simp+
  obtain f j s' ms where q: "prioritize_irq 0 True ?s = (f, j, s', ms)" by (metis prod_cases4)
  have "f" "j = 3" using c unfolding q by simp_all
  then have p: "prioritize_irq 0 True ?s = (True, 3, s', ms)" using q by simp
  have n: "fully_nested ?s" by code_simp
  have i: "isr ?s = 0" by code_simp
  have "bit (isr s') (unat (3::u8)) \<and> isr (fst (non_specific_eoi s')) = isr ?s"
    using pic_nesting [OF n p] by blast
  then have "isr (fst (non_specific_eoi s')) = 0" "bit (isr s') 3" unfolding i by simp_all
  then show ?thesis using p by blast
qed

text \<open>In every state that the controller can reach through its ports, lines and bus
  cycles, an interrupt acknowledge without cascaded slaves returns a vector from the
  eight vectors that start at the programmed base.\<close>

lemma pic_vector_in_range:
  assumes "pic_reach s" "icw3 s = 0" "get_irqvector slave v s = (vec, s', ms)"
  shows "unat (icw2 s) \<le> unat vec \<and> unat vec \<le> unat (icw2 s) + 7"
  using pic_reach_inv [OF assms(1)] assms(3,2) by (rule vector_range)

end
