(* ===== verification/QueueContract.thy ===== *)
theory QueueContract
  imports Prelude
begin

text \<open>
  The contract of the bounded first-in first-out buffers of the system: the receive
  FIFO of the serial port and the shared-memory ring between a producer and a consumer. A push into a full buffer leaves the content
  alone.
\<close>

datatype 'a queue_op = Push 'a | Pop

text \<open>A run of operations on the abstract queue, and the values that the pops return; a pop
  of the empty queue is outside the contract.\<close>

fun abs_queue_run :: "nat \<Rightarrow> 'a list \<Rightarrow> 'a queue_op list \<Rightarrow> ('a list \<times> 'a list) option" where
  "abs_queue_run cap q [] = Some ([], q)"
| "abs_queue_run cap q (Push x # ops) =
     abs_queue_run cap (if length q < cap then q @ [x] else q) ops"
| "abs_queue_run cap q (Pop # ops) =
     (case q of [] \<Rightarrow> None
      | x # q' \<Rightarrow> map_option (\<lambda>(out, r). (x # out, r)) (abs_queue_run cap q' ops))"

fun queue_run :: "('s \<Rightarrow> 'a \<Rightarrow> 's) \<Rightarrow> ('s \<Rightarrow> 'a \<times> 's) \<Rightarrow> 's \<Rightarrow> 'a queue_op list \<Rightarrow> 'a list \<times> 's" where
  "queue_run push pop s [] = ([], s)"
| "queue_run push pop s (Push x # ops) = queue_run push pop (push s x) ops"
| "queue_run push pop s (Pop # ops) =
     (case pop s of (x, s') \<Rightarrow> (case queue_run push pop s' ops of (out, s'') \<Rightarrow> (x # out, s'')))"

locale bounded_queue =
  fixes inv :: "'s \<Rightarrow> bool" and abs :: "'s \<Rightarrow> 'a list" and cap :: nat
    and push :: "'s \<Rightarrow> 'a \<Rightarrow> 's" and pop :: "'s \<Rightarrow> 'a \<times> 's"
  assumes push_law: "inv s \<Longrightarrow> inv (push s x)
      \<and> abs (push s x) = (if length (abs s) < cap then abs s @ [x] else abs s)"
    and pop_law: "inv s \<Longrightarrow> abs s = x # q \<Longrightarrow> fst (pop s) = x \<and> inv (snd (pop s)) \<and> abs (snd (pop s)) = q"
    and bound_law: "inv s \<Longrightarrow> length (abs s) \<le> cap"
begin

lemma queue_run_refines:
  assumes "inv s" "abs_queue_run cap (abs s) ops = Some (out, q)"
  shows "fst (queue_run push pop s ops) = out \<and> inv (snd (queue_run push pop s ops))
    \<and> abs (snd (queue_run push pop s ops)) = q"
  using assms
proof (induction ops arbitrary: s out)
  case (Cons op ops)
  show ?case
  proof (cases op)
    case (Push x)
    then show ?thesis using Cons push_law [OF Cons.prems(1), of x] by auto
  next
    case Pop
    obtain x q' out' where a: "abs s = x # q'" "out = x # out'" "abs_queue_run cap q' ops = Some (out', q)"
      using Cons.prems(2) Pop by (auto split: list.splits)
    note p = pop_law [OF Cons.prems(1) a(1)]
    have "abs_queue_run cap (abs (snd (pop s))) ops = Some (out', q)" using a(3) p by simp
    then show ?thesis using Cons.IH [of "snd (pop s)" out'] p a(2) Pop by (auto split: prod.splits)
  qed
qed simp

end

text \<open>Ring buffers: the content of a ring of \<^term>\<open>n\<close> slots that ends before position \<^term>\<open>w\<close> and
  has \<^term>\<open>c\<close> elements.\<close>

definition ring_abs :: "nat \<Rightarrow> 'a list \<Rightarrow> nat \<Rightarrow> nat \<Rightarrow> 'a list" where
  "ring_abs n buf w c = map (\<lambda>i. buf ! ((w + n - c + i) mod n)) [0..<c]"

lemma ring_abs_length [simp]: "length (ring_abs n buf w c) = c"
  by (simp add: ring_abs_def)

lemma ring_abs_0 [simp]: "ring_abs n buf w 0 = []"
  by (simp add: ring_abs_def)

lemma ring_abs_push:
  assumes "w < n" "c < n" "length buf = n"
  shows "ring_abs n (buf[w := x]) (Suc w mod n) (Suc c) = ring_abs n buf w c @ [x]"
proof (rule nth_equalityI)
  show "length (ring_abs n (buf[w := x]) (Suc w mod n) (Suc c)) = length (ring_abs n buf w c @ [x])" by simp
  fix i assume "i < length (ring_abs n (buf[w := x]) (Suc w mod n) (Suc c))"
  then have i: "i \<le> c" by simp
  have pos: "(Suc w mod n + n - Suc c + i) mod n = (w + n - c + i) mod n"
  proof (cases "Suc w = n")
    case True
    then have "Suc w mod n + n - Suc c + i = n - Suc c + i" by simp
    moreover have "w + n - c + i = (n - Suc c + i) + n" using True assms(2) i by simp
    ultimately show ?thesis by (simp only: mod_add_self2)
  next
    case False
    then have "Suc w mod n = Suc w" using assms(1) by simp
    then show ?thesis using assms(2) by simp
  qed
  have idx: "(w + n - c + i) mod n = (if i = c then w else (w + n - c + i) mod n)" using assms by simp
  have ne: "(w + n - c + i) mod n \<noteq> w" if "i < c"
  proof -
    have "w + n - c + i < w + n" "w + n - c + i > w" using assms that by auto
    then show ?thesis using assms(1) by (cases "w + n - c + i < n") (auto simp: mod_if)
  qed
  show "ring_abs n (buf[w := x]) (Suc w mod n) (Suc c) ! i = (ring_abs n buf w c @ [x]) ! i"
  proof (cases "i = c")
    case True
    have "ring_abs n (buf[w := x]) (Suc w mod n) (Suc c) ! i = buf[w := x] ! ((w + n - c + i) mod n)"
      using i by (simp add: ring_abs_def pos del: upt_Suc)
    also have "\<dots> = x" using idx True assms by simp
    finally show ?thesis using True by (simp add: nth_append)
  next
    case False
    then have "ring_abs n (buf[w := x]) (Suc w mod n) (Suc c) ! i = buf ! ((w + n - c + i) mod n)"
      using i ne by (simp add: ring_abs_def pos del: upt_Suc)
    then show ?thesis using False i by (simp add: nth_append ring_abs_def)
  qed
qed

lemma ring_abs_pop:
  assumes "c < n" "w < n"
  shows "ring_abs n buf w (Suc c) = buf ! ((w + n - Suc c) mod n) # ring_abs n buf w c"
proof -
  have "[0..<Suc c] = 0 # map Suc [0..<c]" by (simp add: map_Suc_upt upt_conv_Cons del: upt_Suc)
  moreover have "w + n - Suc c + Suc i = w + n - c + i" for i using assms by simp
  ultimately show ?thesis by (simp add: ring_abs_def comp_def del: upt_Suc)
qed

end
