(* ===== verification/Serial16550.thy ===== *)
theory Serial16550
  imports Bus QueueContract
begin

text \<open>
  The UART model of \<^verbatim>\<open>apps/vancouver/model/serial16550.cc\<close>. The register array is kept as
  one field per register, with \<^term>\<open>ser_get\<close> and \<^term>\<open>ser_put\<close> for the accesses by offset.
  A receive function returns the new state and the messages it sends; \<^verbatim>\<open>Util::panic\<close> throws
  an exception.
\<close>

section \<open>Definitions\<close>

definition FIFOSIZE :: nat where "FIFOSIZE = 16"

record ser =
  s_base :: u16
  s_irq :: u8
  hostserial :: u32
  RBR :: u8
  IER :: u8
  FCR :: u8
  LCR :: u8
  MCR :: u8
  LSR :: u8
  MSR :: u8
  SCR :: u8
  DLL :: u8
  DLM :: u8
  rfifo :: "u8 list"
  rfpos :: u8
  rfcount :: u8
  triggerlevel :: u8
  sendmask :: u8

datatype ser_msg = SerIrq irq_type u8 | SerOut u32 u8

definition ser_get :: "ser \<Rightarrow> nat \<Rightarrow> u8 res" where
  "ser_get s n =
     (if n = 0 then Inr (RBR s) else if n = 1 then Inr (IER s) else if n = 2 then Inr (FCR s)
      else if n = 3 then Inr (LCR s) else if n = 4 then Inr (MCR s) else if n = 5 then Inr (LSR s)
      else if n = 6 then Inr (MSR s) else if n = 7 then Inr (SCR s) else if n = 8 then Inr (DLL s)
      else if n = 9 then Inr (DLM s) else Inl Undefined)"

text \<open>\<^verbatim>\<open>SCR ... DLM\<close>: the registers that a write only stores.\<close>

definition ser_put_plain :: "ser \<Rightarrow> nat \<Rightarrow> u8 \<Rightarrow> ser" where
  "ser_put_plain s n v = (if n = 7 then s\<lparr>SCR := v\<rparr> else if n = 8 then s\<lparr>DLL := v\<rparr> else s\<lparr>DLM := v\<rparr>)"

definition get_iir :: "ser \<Rightarrow> u8" where
  "get_iir s =
     (let v = 1;
          v = (if flag (IER s) 8 \<and> flag (MSR s) 0xf then 0 else v);
          v = (if flag (IER s) 2 \<and> flag (LSR s) 0x20 then 2 else v);
          v = (if flag (IER s) 1 \<and> ((flag (NOT (FCR s)) 1 \<and> flag (LSR s) 1) \<or> triggerlevel s \<le> rfcount s)
               then 4 else v);
          v = (if flag (IER s) 4 \<and> flag (LSR s) 0x1e then 6 else v)
      in if flag (FCR s) 1 then v OR 0xc else v)"

definition ser_update_irq :: "ser \<Rightarrow> ser_msg list" where
  "ser_update_irq s = (if flag (NOT (get_iir s)) 1 \<and> flag (MCR s) 8 then [SerIrq ASSERT_IRQ (s_irq s)] else [])"

text \<open>Storing a received character: the FIFO part and the part without FIFO, each with the
  bits that it adds to the line status.\<close>

definition fifo_store :: "u8 \<Rightarrow> ser \<Rightarrow> (u8 \<times> ser) res" where
  "fifo_store ch s =
     (if unat (rfcount s) \<ge> FIFOSIZE then Inr (3, s)
      else if unat (rfpos s) < length (rfifo s)
        then Inr (1, s\<lparr>rfifo := (rfifo s)[unat (rfpos s) := ch],
                      rfpos := of_nat ((unat (rfpos s) + 1) mod FIFOSIZE),
                      rfcount := rfcount s + 1\<rparr>)
      else Inl Undefined)"

definition ser_receive_char :: "u32 \<Rightarrow> u8 \<Rightarrow> ser \<Rightarrow> (bool \<times> ser \<times> ser_msg list) res" where
  "ser_receive_char no ch s =
     (if no \<noteq> hostserial s then Inr (False, s, [])
      else bindR (if flag (FCR s) 1 then fifo_store ch s
                  else Inr (if flag (LSR s) 1 then 3 else 1, s\<lparr>RBR := ch\<rparr>))
             (\<lambda>(or_lsr, s). let s = s\<lparr>LSR := LSR s OR or_lsr\<rparr> in Inr (True, s, ser_update_irq s)))"

definition ser_hit :: "ser \<Rightarrow> u16 \<Rightarrow> io_type \<Rightarrow> bool" where
  "ser_hit s port t \<longleftrightarrow> bus_in_range (ucast port) (ucast (s_base s)) 8 \<and> t = TYPE_B"

text \<open>The register offset of a port, with the divisor latch access bit.\<close>

definition ser_offset :: "ser \<Rightarrow> u16 \<Rightarrow> nat" where
  "ser_offset s port =
     (let off = unat port - unat (s_base s)
      in if flag (LCR s) 0x80 \<and> off \<le> 1 then off + 8 else off)"

text \<open>Reading the receive buffer register.\<close>

definition fifo_index :: "ser \<Rightarrow> nat" where
  "fifo_index s = unat ((ucast (rfpos s) - ucast (rfcount s)) :: u32) mod FIFOSIZE"

definition read_rbr :: "ser \<Rightarrow> (u8 \<times> ser) res" where
  "read_rbr s =
     (let clear = (\<lambda>s. if flag (NOT (FCR s)) 1 \<or> rfcount s = 0 then s\<lparr>LSR := LSR s AND NOT 1\<rparr> else s)
      in if flag (FCR s) 1
         then (if fifo_index s < length (rfifo s)
               then Inr (rfifo s ! fifo_index s,
                         clear (if rfcount s \<noteq> 0 then s\<lparr>rfcount := rfcount s - 1\<rparr> else s))
               else Inl Undefined)
         else Inr (RBR s, clear s))"

definition ser_receive_in :: "io_in \<Rightarrow> ser \<Rightarrow> (io_in option \<times> ser \<times> ser_msg list) res" where
  "ser_receive_in m s =
     (if \<not> ser_hit s (in_port m) (in_type m) then Inr (None, s, [])
      else let off = ser_offset s (in_port m) in
        bindR (if off = 0 then read_rbr s
               else if off = 2 then Inr (get_iir s, s)
               else if off = 5 then Inr (LSR s, s\<lparr>LSR := LSR s AND 0x61\<rparr>)
               else if off = 1 \<or> off = 3 \<or> off = 4 \<or> (6 \<le> off \<and> off \<le> 9)
                 then bindR (ser_get s off) (\<lambda>v. Inr (v, s))
               else Inl (Throw E_FAILURE))
          (\<lambda>(v, s). Inr (Some (m\<lparr>in_value := ucast v\<rparr>), s, ser_update_irq s)))"

definition write_fcr :: "u8 \<Rightarrow> ser \<Rightarrow> ser" where
  "write_fcr v s =
     (let s = (if flag (FCR s XOR v) 1 \<or> v AND 3 = 3 then s\<lparr>rfcount := 0, LSR := 0x60\<rparr> else s);
          s = (if flag v 1 then s\<lparr>triggerlevel := [1, 4, 8, 14] ! unat (drop_bit 6 v AND 3)\<rparr> else s)
      in s\<lparr>FCR := v\<rparr>)"

definition write_mcr :: "u8 \<Rightarrow> ser \<Rightarrow> ser" where
  "write_mcr v s =
     (let s = s\<lparr>MCR := v AND 0x1f\<rparr>
      in if flag v 0x10
         then (let input = (push_bit 1 (v AND 1)) OR (drop_bit 1 (v AND 2)) OR (v AND 0xc)
               in s\<lparr>MSR := (push_bit 4 input) OR ((drop_bit 4 (MSR s) XOR input) AND NOT (input AND 4))\<rparr>)
         else s\<lparr>MSR := 0xb0\<rparr>)"

definition ser_receive_out :: "io_out \<Rightarrow> ser \<Rightarrow> (bool \<times> ser \<times> ser_msg list) res" where
  "ser_receive_out m s =
     (if \<not> ser_hit s (out_port m) (out_type m) then Inr (False, s, [])
      else let v = ucast (out_value m AND 0xff) :: u8; off = ser_offset s (out_port m) in
        bindR (if off = 0
               then (if flag (MCR s) 0x10
                     then bindR (ser_receive_char (hostserial s) (v AND sendmask s) s) (\<lambda>(_, s, ms). Inr (s, ms))
                     else Inr (s, [SerOut (hostserial s + 1) (v AND sendmask s)]))
               else if off = 1 then Inr (s\<lparr>IER := v AND 0xf\<rparr>, [])
               else if off = 2 then Inr (write_fcr v s, [])
               else if off = 3 then Inr (s\<lparr>LCR := v, sendmask := push_bit (5 + unat (v AND 3)) 1 - 1\<rparr>, [])
               else if off = 4 then Inr (write_mcr v s, [])
               else if off = 5 then Inr (s, [])
               else if 7 \<le> off \<and> off \<le> 9 then Inr (ser_put_plain s off v, [])
               else Inl (Throw E_FAILURE))
          (\<lambda>(s, ms). Inr (True, s, ms @ ser_update_irq s)))"

definition ser_init :: "u16 \<Rightarrow> u8 \<Rightarrow> u32 \<Rightarrow> ser" where
  "ser_init base irq host =
     \<lparr>s_base = base, s_irq = irq, hostserial = host, RBR = 0, IER = 0, FCR = 0, LCR = 0, MCR = 0,
      LSR = 0x60, MSR = 0xb0, SCR = 0, DLL = 0, DLM = 0, rfifo = replicate FIFOSIZE 0, rfpos = 0,
      rfcount = 0, triggerlevel = 1, sendmask = 0x1f\<rparr>"

text \<open>The bounds of the receive FIFO, its content in order of arrival, and the two FIFO
  operations as state transformers.\<close>

definition ser_inv :: "ser \<Rightarrow> bool" where
  "ser_inv s \<longleftrightarrow> length (rfifo s) = FIFOSIZE \<and> unat (rfpos s) < FIFOSIZE \<and> unat (rfcount s) \<le> FIFOSIZE"

definition fifo_abs :: "ser \<Rightarrow> u8 list" where
  "fifo_abs s = ring_abs FIFOSIZE (rfifo s) (unat (rfpos s)) (unat (rfcount s))"

definition fifo_inv :: "ser \<Rightarrow> bool" where
  "fifo_inv s \<longleftrightarrow> ser_inv s \<and> flag (FCR s) 1"

definition fifo_push :: "ser \<Rightarrow> u8 \<Rightarrow> ser" where
  "fifo_push s ch = (case ser_receive_char (hostserial s) ch s of Inr (_, s', _) \<Rightarrow> s' | Inl _ \<Rightarrow> s)"

definition fifo_pop :: "ser \<Rightarrow> u8 \<times> ser" where
  "fifo_pop s = (case read_rbr s of Inr (v, s') \<Rightarrow> (v, s') | Inl _ \<Rightarrow> (0, s))"

inductive ser_reach :: "ser \<Rightarrow> bool" where
  ser_reach_init: "ser_reach (ser_init base irq host)"
| ser_reach_char: "ser_reach s \<Longrightarrow> ser_receive_char no ch s = Inr (b, s', ms) \<Longrightarrow> ser_reach s'"
| ser_reach_in: "ser_reach s \<Longrightarrow> ser_receive_in m s = Inr (r, s', ms) \<Longrightarrow> ser_reach s'"
| ser_reach_out: "ser_reach s \<Longrightarrow> ser_receive_out m' s = Inr (b, s', ms) \<Longrightarrow> ser_reach s'"

section \<open>The receive FIFO\<close>

lemma fifo_index_eq:
  assumes "ser_inv s"
  shows "fifo_index s = (unat (rfpos s) + FIFOSIZE - unat (rfcount s)) mod FIFOSIZE"
proof -
  let ?p = "unat (rfpos s)" and ?c = "unat (rfcount s)"
  have b: "?p < 16" "?c \<le> 16" using assms by (auto simp: ser_inv_def FIFOSIZE_def)
  have u: "unat (ucast (rfpos s) :: u32) = ?p" "unat (ucast (rfcount s) :: u32) = ?c"
    using b by (simp_all add: unat_ucast)
  have "unat ((ucast (rfpos s) - ucast (rfcount s)) :: u32)
      = (if ?c \<le> ?p then ?p - ?c else ?p + 2 ^ 32 - ?c)" by (simp only: unat_sub_if' u len32)
  moreover have "(?p + 2 ^ 32 - ?c) mod 16 = (?p + 16 - ?c) mod 16"
  proof -
    have m: "(?p + (16 + k * 16) - ?c) mod 16 = (?p + 16 - ?c) mod 16" for k
    proof -
      have "?p + (16 + k * 16) - ?c = (?p + 16 - ?c) + k * 16" using b by linarith
      then show ?thesis by (simp only: mod_mult_self1)
    qed
    have "(2::nat) ^ 32 = 16 + 268435455 * 16" by simp
    then show ?thesis using m by (simp only:)
  qed
  moreover have "(?p - ?c) mod 16 = (?p + 16 - ?c) mod 16" if "?c \<le> ?p"
  proof -
    have "?p + 16 - ?c = (?p - ?c) + 16" using that by linarith
    then show ?thesis by (simp only: mod_add_self2)
  qed
  ultimately show ?thesis unfolding fifo_index_def FIFOSIZE_def by (cases "?c \<le> ?p") (simp_all only: if_True if_False simp_thms)
qed

lemma unat_mod_fifo: "unat (of_nat (n mod FIFOSIZE) :: u8) = n mod FIFOSIZE"
proof -
  have "n mod 16 < 16" by simp
  then have "n mod 16 < 2 ^ LENGTH(8)" by simp
  then show ?thesis by (simp add: FIFOSIZE_def unat_of_nat)
qed

lemma fifo_store_ok:
  assumes "ser_inv s"
  shows "\<exists>or_lsr s'. fifo_store ch s = Inr (or_lsr, s') \<and> ser_inv s' \<and> FCR s' = FCR s
    \<and> fifo_abs s' = (if length (fifo_abs s) < FIFOSIZE then fifo_abs s @ [ch] else fifo_abs s)
    \<and> (or_lsr = 3 \<longleftrightarrow> \<not> length (fifo_abs s) < FIFOSIZE)"
proof (cases "unat (rfcount s) \<ge> FIFOSIZE")
  case True
  then show ?thesis using assms by (simp add: fifo_store_def fifo_abs_def)
next
  case False
  have i: "length (rfifo s) = FIFOSIZE" "unat (rfpos s) < FIFOSIZE" using assms by (auto simp: ser_inv_def)
  have c: "unat (rfcount s + 1) = Suc (unat (rfcount s))"
    using False by (simp add: unat_add_small FIFOSIZE_def)
  define s' where "s' = s\<lparr>rfifo := (rfifo s)[unat (rfpos s) := ch],
      rfpos := of_nat ((unat (rfpos s) + 1) mod FIFOSIZE), rfcount := rfcount s + 1\<rparr>"
  have "fifo_store ch s = Inr (1, s')" using False i by (simp add: fifo_store_def s'_def)
  moreover have "fifo_abs s' = fifo_abs s @ [ch]"
    using ring_abs_push [OF i(2), of "unat (rfcount s)" "rfifo s" ch] False i(1) c
    by (simp add: fifo_abs_def s'_def unat_mod_fifo)
  moreover have "ser_inv s'" using i c False by (simp add: ser_inv_def s'_def unat_mod_fifo)
  ultimately show ?thesis using False by (simp add: fifo_abs_def s'_def)
qed

lemma read_rbr_ok:
  assumes "ser_inv s"
  shows "\<exists>v s'. read_rbr s = Inr (v, s') \<and> ser_inv s' \<and> FCR s' = FCR s
    \<and> (flag (FCR s) 1 \<longrightarrow> fifo_abs s \<noteq> [] \<longrightarrow> fifo_abs s = v # fifo_abs s')"
proof (cases "flag (FCR s) 1")
  case False
  then show ?thesis using assms by (simp add: read_rbr_def Let_def ser_inv_def)
next
  case True
  have i: "length (rfifo s) = FIFOSIZE" "unat (rfpos s) < FIFOSIZE" "unat (rfcount s) \<le> FIFOSIZE"
    using assms by (auto simp: ser_inv_def)
  have x: "fifo_index s < FIFOSIZE" by (simp add: fifo_index_def FIFOSIZE_def)
  show ?thesis
  proof (cases "rfcount s = 0")
    case z: True
    then show ?thesis using True assms x i by (simp add: read_rbr_def Let_def ser_inv_def fifo_abs_def)
  next
    case nz: False
    then obtain c where c: "unat (rfcount s) = Suc c" by (cases "unat (rfcount s)") (auto simp: unat_eq_zero)
    have d: "unat (rfcount s - 1) = c" using c by (subst unat_diff_small) (auto simp: word_le_nat_alt)
    have "fifo_abs s = rfifo s ! fifo_index s # ring_abs FIFOSIZE (rfifo s) (unat (rfpos s)) c"
      using ring_abs_pop [of c FIFOSIZE "unat (rfpos s)" "rfifo s"] c i fifo_index_eq [OF assms]
      by (simp add: fifo_abs_def)
    then show ?thesis using True nz x i c d by (auto simp: read_rbr_def Let_def ser_inv_def fifo_abs_def)
  qed
qed

lemma receive_char_ok:
  assumes "ser_inv s"
  shows "\<exists>b s' ms. ser_receive_char no ch s = Inr (b, s', ms) \<and> ser_inv s' \<and> FCR s' = FCR s
    \<and> (no = hostserial s \<and> flag (FCR s) 1 \<longrightarrow>
        fifo_abs s' = (if length (fifo_abs s) < FIFOSIZE then fifo_abs s @ [ch] else fifo_abs s))"
proof -
  have upd: "ser_inv (t\<lparr>LSR := x\<rparr>) = ser_inv t" "fifo_abs (t\<lparr>LSR := x\<rparr>) = fifo_abs t"
    "ser_inv (t\<lparr>RBR := y\<rparr>) = ser_inv t" for t x y
    by (simp_all add: ser_inv_def fifo_abs_def)
  obtain o' t where t: "fifo_store ch s = Inr (o', t)" "ser_inv t" "FCR t = FCR s"
      "fifo_abs t = (if length (fifo_abs s) < FIFOSIZE then fifo_abs s @ [ch] else fifo_abs s)"
    using fifo_store_ok [OF assms, of ch] by blast
  show ?thesis using assms t by (auto simp: ser_receive_char_def Let_def upd)
qed

lemma ser_inv_out:
  assumes "ser_inv s" "ser_receive_out m s = Inr (b, s', ms)"
  shows "ser_inv s'"
proof -
  let ?v = "ucast (out_value m AND 0xff) :: u8"
  have fcr: "ser_inv (write_fcr ?v s)" using assms(1) by (simp add: write_fcr_def ser_inv_def Let_def)
  have mcr: "ser_inv (write_mcr ?v s)" using assms(1) by (simp add: write_mcr_def ser_inv_def Let_def)
  have plain: "ser_inv (ser_put_plain s n ?v)" for n using assms(1) by (simp add: ser_put_plain_def ser_inv_def)
  have rest: "ser_inv (s\<lparr>IER := x\<rparr>)" "ser_inv (s\<lparr>LCR := x, sendmask := y\<rparr>)" for x y
    using assms(1) by (simp_all add: ser_inv_def)
  obtain b' t ns where c: "ser_receive_char (hostserial s) (?v AND sendmask s) s = Inr (b', t, ns)" "ser_inv t"
    using receive_char_ok [OF assms(1)] by blast
  show ?thesis using assms c fcr mcr plain rest
    by (auto simp: ser_receive_out_def Let_def split: if_splits)
qed

lemma ser_inv_in:
  assumes "ser_inv s" "ser_receive_in m s = Inr (r, s', ms)"
  shows "ser_inv s'"
proof -
  obtain v t where r: "read_rbr s = Inr (v, t)" "ser_inv t" using read_rbr_ok [OF assms(1)] by blast
  have lsr: "ser_inv (s\<lparr>LSR := x\<rparr>)" for x using assms(1) by (simp add: ser_inv_def)
  show ?thesis using assms r lsr
    by (auto simp: ser_receive_in_def Let_def bindR_eq_Inr split: if_splits)
qed

lemma ser_reach_inv: "ser_reach s \<Longrightarrow> ser_inv s"
proof (induction rule: ser_reach.induct)
  case (ser_reach_init base irq host)
  then show ?case by (simp add: ser_inv_def ser_init_def FIFOSIZE_def)
next
  case (ser_reach_char s no ch b s' ms)
  then show ?case using receive_char_ok [OF ser_reach_char.IH, of no ch] by auto
qed (blast intro: ser_inv_in ser_inv_out)+

interpretation uart: bounded_queue fifo_inv fifo_abs FIFOSIZE fifo_push fifo_pop
proof
  fix s :: ser and x y :: u8 and q
  assume i: "fifo_inv s"
  show "fifo_inv (fifo_push s x) \<and>
      fifo_abs (fifo_push s x) = (if length (fifo_abs s) < FIFOSIZE then fifo_abs s @ [x] else fifo_abs s)"
  proof -
    have s: "ser_inv s" "flag (FCR s) 1" using i by (auto simp: fifo_inv_def)
    then show ?thesis using receive_char_ok [OF s(1), of "hostserial s" x]
      by (auto simp: fifo_push_def fifo_inv_def)
  qed
  show "fst (fifo_pop s) = x \<and> fifo_inv (snd (fifo_pop s)) \<and> fifo_abs (snd (fifo_pop s)) = q"
    if "fifo_abs s = x # q"
    using read_rbr_ok [of s] i that by (auto simp: fifo_pop_def fifo_inv_def)
  show "length (fifo_abs s) \<le> FIFOSIZE" using i by (simp add: fifo_inv_def ser_inv_def fifo_abs_def)
qed

section \<open>Properties\<close>

text \<open>The UART never touches its receive FIFO out of bounds: in every state reachable
  through received characters, port reads and port writes, the FIFO has 16 slots, the
  write position is one of them and at most 16 characters are stored; reading a
  register and receiving a character then never access memory outside the arrays.\<close>

lemma serial_fifo_in_bounds:
  assumes "ser_reach s"
  shows "length (rfifo s) = FIFOSIZE \<and> unat (rfpos s) < FIFOSIZE \<and> unat (rfcount s) \<le> FIFOSIZE
    \<and> ser_receive_char no ch s \<noteq> Inl Undefined \<and> read_rbr s \<noteq> Inl Undefined"
proof -
  have i: "ser_inv s" using assms by (rule ser_reach_inv)
  then show ?thesis using receive_char_ok [OF i, of no ch] read_rbr_ok [OF i] by (auto simp: ser_inv_def)
qed

text \<open>Claim C25. With the FIFO enabled, the UART delivers received characters in order: for any
  sequence of received characters and reads of the receive buffer register that never
  reads an empty FIFO, the reads return the characters in order of arrival, where
  characters that arrive at a full FIFO are dropped.\<close>

theorem serial_fifo_order:
  assumes "ser_inv s" "flag (FCR s) 1" "abs_queue_run FIFOSIZE (fifo_abs s) ops = Some (out, q)"
  shows "fst (queue_run fifo_push fifo_pop s ops) = out
    \<and> fifo_abs (snd (queue_run fifo_push fifo_pop s ops)) = q"
  using uart.queue_run_refines [OF _ assms(3)] assms(1,2) by (simp add: fifo_inv_def)

theorem serial_fifo_order_witness:
  "fst (queue_run fifo_push fifo_pop (write_fcr 1 (ser_init 0x3f8 4 0)) [Push 65, Push 66, Pop, Push 67, Pop]) = [65, 66]"
proof -
  let ?s = "write_fcr 1 (ser_init 0x3f8 4 0)"
  have i: "ser_inv ?s" "flag (FCR ?s) 1" by code_simp+
  have "fifo_abs ?s = []" by code_simp
  then have "abs_queue_run FIFOSIZE (fifo_abs ?s) [Push 65, Push 66, Pop, Push 67, Pop] = Some ([65, 66], [67])"
    by (simp add: FIFOSIZE_def)
  from serial_fifo_order [OF i this] show ?thesis by blast
qed

text \<open>A write to the modem status register is not handled: the model throws.\<close>

lemma serial_msr_write_panics:
  "ser_receive_out \<lparr>out_type = TYPE_B, out_port = 0x3fe, out_value = 0\<rparr> (ser_init 0x3f8 4 0)
     = Inl (Throw E_FAILURE)"
  by code_simp

text \<open>With the FIFO enabled, the interrupt identification register has its bits 2 and 3 set,
  not the bits 6 and 7 that identify an enabled FIFO.\<close>

lemma serial_iir_fifo_bits:
  "get_iir (write_fcr 1 (ser_init 0x3f8 4 0)) = 0x0d"
  by code_simp

end
