(* ===== verification/Date.thy ===== *)
theory Date
  imports MathUtil "HOL-Library.Signed_Division"
begin

text \<open>
  The calendar of \<^verbatim>\<open>include/util/Date.h\<close> and the clock conversions of
  \<^verbatim>\<open>include/util/Clock.h\<close>. The fields of \<^verbatim>\<open>DateInfo\<close> are C integers: an intermediate
  value outside the range of \<^verbatim>\<open>int\<close> is undefined behaviour.
\<close>

section \<open>Definitions\<close>

record date_info =
  sec :: int
  min :: int
  hour :: int
  mday :: int
  mon :: int
  year :: int
  wday :: int
  yday :: int
  isdsdt :: int

definition date_info_init :: date_info where
  "date_info_init = \<lparr>sec = 0, min = 0, hour = 0, mday = 0, mon = 0, year = 0, wday = 0, yday = 0, isdsdt = 0\<rparr>"

definition date_info_of :: "int \<Rightarrow> int \<Rightarrow> int \<Rightarrow> int \<Rightarrow> int \<Rightarrow> int \<Rightarrow> date_info" where
  "date_info_of y mo d h mi s =
     \<lparr>sec = s, min = mi, hour = h, mday = d, mon = mo, year = y, wday = 0, yday = 0, isdsdt = 0\<rparr>"

definition fits_int :: "int \<Rightarrow> bool" where
  "fits_int x \<longleftrightarrow> - (2 ^ 31) \<le> x \<and> x < 2 ^ 31"

definition is_leap :: "int \<Rightarrow> bool" where
  "is_leap y \<longleftrightarrow> (y AND 3 = 0 \<and> y smod 100 \<noteq> 0) \<or> y smod 400 = 0"

definition mktime :: "date_info \<Rightarrow> timevalue res" where
  "mktime tm =
     (let bm = (if mon tm < 3 then 1 else 0);
          days = ((mon tm + 10) * 367) sdiv 12 + 2 * bm - 719866 + mday tm
                   - bm * (if is_leap (year tm) then 1 else 0) + year tm * 365;
          more = year tm sdiv 4 - year tm sdiv 100 + year tm sdiv 400
      in if fits_int (mon tm + 10) \<and> fits_int ((mon tm + 10) * 367) \<and> fits_int (year tm * 365)
            \<and> fits_int (((mon tm + 10) * 367) sdiv 12 + 2 * bm - 719866 + mday tm) \<and> fits_int days
         then Inr ((((of_int (days + more) :: u64) * 24 + of_int (hour tm)) * 60 + of_int (min tm)) * 60
                    + of_int (sec tm))
         else Inl Undefined)"

definition leap_days :: "nat list" where
  "leap_days = [0, 31, 60, 91, 121, 152, 182, 213, 244, 274, 305, 335, 366]"

definition noleap_days :: "nat list" where
  "noleap_days = [0, 31, 59, 90, 120, 151, 181, 212, 243, 273, 304, 334, 365]"

text \<open>The month and the day in the month of a day of the year, counted from 0.\<close>

definition month_day :: "bool \<Rightarrow> nat \<Rightarrow> nat \<times> nat" where
  "month_day lp days =
     (let l = (if lp then leap_days else noleap_days);
          m = days div 31;
          d = days - l ! m
      in if d \<ge> l ! (m + 1) - l ! m then (m + 1, d - (l ! (m + 1) - l ! m)) else (m, d))"

text \<open>The year and the day of the year of a day since the first of January of year 1: the
  divisions by 400, 100, 4 years and by one year with the two corrections.\<close>

definition split_years :: "nat \<Rightarrow> nat \<times> nat \<times> nat \<times> nat \<times> nat" where
  "split_years days =
     (let years400 = days div (4 * 36524 + 1); days = days mod (4 * 36524 + 1);
          years100 = days div 36524; days = days mod 36524;
          (years100, days) = (if years100 = 4 then (years100 - 1, days + 36524) else (years100, days));
          years4 = days div 1461; days = days mod 1461;
          years = days div 365; days = days mod 365;
          (years, days) = (if years = 4 then (years - 1, days + 365) else (years, days))
      in (years400, years100, years4, years, days))"

definition gmtime :: "timevalue \<Rightarrow> date_info \<Rightarrow> date_info" where
  "gmtime seconds tm =
     (let s0 = unat (seconds + (719528 - 366) * 86400);
          sec' = s0 mod 60; s1 = s0 div 60;
          min' = s1 mod 60; s2 = s1 div 60;
          hour' = s2 mod 24; days = s2 div 24;
          wday' = (days + 1) mod 7;
          (years400, years100, years4, years, yd) = split_years days;
          year' = sint (of_nat ((((years400 * 4) + years100) * 25 + years4) * 4 + years + 1) :: u32);
          (m, d) = month_day (is_leap year') yd
      in tm\<lparr>sec := int sec', min := int min', hour := int hour', mday := int (d + 1), mon := int (m + 1),
          year := year', wday := int wday', yday := int (yd + 1)\<rparr>)"

text \<open>The clock: conversions between time stamp counter values and other frequencies.\<close>

record clock =
  src_freq :: timevalue
  dst_freq :: timevalue

definition source_time :: "clock \<Rightarrow> timevalue \<Rightarrow> timevalue \<Rightarrow> timevalue \<Rightarrow> timevalue res" where
  "source_time c tsc delta freq = bindR (muldiv128 delta (src_freq c) freq) (\<lambda>d. Inr (tsc + d))"

definition dest_time_of :: "clock \<Rightarrow> timevalue \<Rightarrow> timevalue res" where
  "dest_time_of c tsc = muldiv128 tsc (dst_freq c) (src_freq c)"

definition time_of :: "clock \<Rightarrow> timevalue \<Rightarrow> timevalue \<Rightarrow> timevalue res" where
  "time_of c freq tsc = muldiv128 tsc freq (src_freq c)"

definition clock_delta :: "clock \<Rightarrow> timevalue \<Rightarrow> timevalue \<Rightarrow> timevalue \<Rightarrow> timevalue res" where
  "clock_delta c now freq tsc =
     (if now > tsc then Inr 0 else muldiv128 (tsc - now) freq (src_freq c))"

definition clock_init :: "u32 \<Rightarrow> timevalue \<Rightarrow> clock" where
  "clock_init freq_tsc freq = \<lparr>src_freq = ucast (freq_tsc * 1000), dst_freq = freq\<rparr>"

text \<open>A date of the Gregorian calendar, with the day of the year that belongs to it.\<close>

definition valid_date :: "date_info \<Rightarrow> bool" where
  "valid_date tm \<longleftrightarrow> 0 \<le> sec tm \<and> sec tm < 60 \<and> 0 \<le> min tm \<and> min tm < 60 \<and> 0 \<le> hour tm \<and> hour tm < 24
     \<and> 1 \<le> mon tm \<and> mon tm \<le> 12 \<and> 1 \<le> mday tm
     \<and> (let l = (if is_leap (year tm) then leap_days else noleap_days); m = nat (mon tm - 1)
        in mday tm \<le> int (l ! (m + 1)) - int (l ! m) \<and> yday tm = int (l ! m) + mday tm)"

section \<open>Days and years\<close>

lemma month_day_ok:
  assumes "yd < (if lp then 366 else 365)" "month_day lp yd = (m, d)"
  shows "m < 12 \<and> (if lp then leap_days else noleap_days) ! m + d = yd
    \<and> yd < (if lp then leap_days else noleap_days) ! (m + 1)"
proof -
  define k where "k = yd div 31"
  have b: "31 * k \<le> yd" "yd < 31 * k + 31" by (auto simp: k_def)
  have "k < 12" using assms(1) b(1) by (auto split: if_splits)
  then have k: "k = 0 \<or> k = 1 \<or> k = 2 \<or> k = 3 \<or> k = 4 \<or> k = 5 \<or> k = 6 \<or> k = 7 \<or> k = 8 \<or> k = 9
      \<or> k = 10 \<or> k = 11" by presburger
  show ?thesis
  proof (cases lp)
    case True
    show ?thesis using k assms b unfolding month_day_def k_def [symmetric] Let_def if_P [OF True] leap_days_def
      by (elim disjE) (auto split: if_splits)
  next
    case False
    show ?thesis using k assms b unfolding month_day_def k_def [symmetric] Let_def if_not_P [OF False] noleap_days_def
      by (elim disjE) (auto split: if_splits)
  qed
qed

lemma split_years_ok:
  assumes "split_years n = (a, b, c, d, r)"
  shows "n = 146097 * a + 36524 * b + 1461 * c + 365 * d + r \<and> b < 4 \<and> c < 25 \<and> d < 4
    \<and> r < 366 \<and> (r = 365 \<longrightarrow> d = 3 \<and> (c < 24 \<or> b = 3))"
proof -
  define d1 where "d1 = n mod 146097"
  have a: "a = n div 146097" using assms by (auto simp: split_years_def Let_def split: prod.splits if_splits)
  have n: "n = 146097 * a + d1" "d1 < 146097" by (simp_all add: a d1_def)
  define b2 d2 where "b2 = (if d1 div 36524 = 4 then 3 else d1 div 36524)"
    and "d2 = (if d1 div 36524 = 4 then d1 mod 36524 + 36524 else d1 mod 36524)"
  have b2: "b2 < 4" "d1 = 36524 * b2 + d2" "d2 < 36525" "d2 = 36524 \<longrightarrow> b2 = 3"
  proof -
    obtain q r where q: "d1 div 36524 = q" "d1 mod 36524 = r" "d1 = 36524 * q + r" "r < 36524"
      using mult_div_mod_eq [of 36524 d1] by (metis mod_less_divisor zero_less_numeral)
    then have "q \<le> 4" "q = 4 \<longrightarrow> r = 0" using n(2) by auto
    then show "b2 < 4" "d1 = 36524 * b2 + d2" "d2 < 36525" "d2 = 36524 \<longrightarrow> b2 = 3"
      using q(3,4) unfolding b2_def d2_def q(1,2) by auto
  qed
  define c3 d3 where "c3 = d2 div 1461" and "d3 = d2 mod 1461"
  have c3: "d2 = 1461 * c3 + d3" "d3 < 1461" "c3 < 25" using b2(3) by (auto simp: c3_def d3_def)
  define e4 d4 where "e4 = (if d3 div 365 = 4 then 3 else d3 div 365)"
    and "d4 = (if d3 div 365 = 4 then d3 mod 365 + 365 else d3 mod 365)"
  have e4: "e4 < 4" "d3 = 365 * e4 + d4" "d4 < 366" "d4 = 365 \<longrightarrow> e4 = 3"
  proof -
    obtain q r where q: "d3 div 365 = q" "d3 mod 365 = r" "d3 = 365 * q + r" "r < 365"
      using mult_div_mod_eq [of 365 d3] by (metis mod_less_divisor zero_less_numeral)
    then have "q \<le> 4" "q = 4 \<longrightarrow> r = 0" using c3(2) by auto
    then show "e4 < 4" "d3 = 365 * e4 + d4" "d4 < 366" "d4 = 365 \<longrightarrow> e4 = 3"
      using q(3,4) unfolding e4_def d4_def q(1,2) by auto
  qed
  have eq: "split_years n = (a, b2, c3, e4, d4)"
    unfolding split_years_def Let_def a
    by (simp add: d1_def [symmetric] b2_def d2_def c3_def d3_def e4_def d4_def)
  have "c3 < 24 \<or> b2 = 3" if "d4 = 365"
  proof (rule ccontr)
    assume "\<not> ?thesis"
    then have "c3 = 24" "b2 \<noteq> 3" using c3(3) by auto
    then have "d2 = 1461 * 24 + (365 * 3 + 365)" using c3(1) e4 that by simp
    then have "d2 = 36524" by simp
    then show False using b2(4) \<open>b2 \<noteq> 3\<close> by simp
  qed
  then show ?thesis using assms n b2 c3 e4 unfolding eq by auto
qed

lemma smod_nonneg: "0 \<le> a \<Longrightarrow> 0 < b \<Longrightarrow> (a::int) smod b = a mod b"
  by (simp add: signed_modulo_int_def signed_divide_int_def minus_div_mult_eq_mod sgn_if)

lemma sdiv_nonneg: "0 \<le> a \<Longrightarrow> 0 < b \<Longrightarrow> (a::int) sdiv b = a div b"
  by (simp add: signed_divide_int_def sgn_if)

lemma and_3_int: "(y::int) AND 3 = y mod 4"
  using take_bit_eq_mask [of 2 y] by (simp add: take_bit_eq_mod mask_eq_exp_minus_1)

lemma is_leap_mod:
  "0 \<le> y \<Longrightarrow> is_leap y \<longleftrightarrow> (y mod 4 = 0 \<and> y mod 100 \<noteq> 0) \<or> y mod 400 = 0"
  by (simp add: is_leap_def and_3_int smod_nonneg)

lemma divmod_carry:
  fixes k q r :: int
  assumes "0 < k" "0 \<le> r" "r \<le> k"
  shows "(k * q + r) mod k = (if r = k then 0 else r)" and "(k * q + r) div k = q + (if r = k then 1 else 0)"
proof -
  show "(k * q + r) mod k = (if r = k then 0 else r)"
    using assms by (cases "r = k") (auto simp: mod_pos_pos_trivial)
  show "(k * q + r) div k = q + (if r = k then 1 else 0)"
    using assms by (cases "r = k") (auto simp: div_pos_pos_trivial)
qed

text \<open>The four parts of a year number determine its leap day and the leap days before it.\<close>

lemma year_parts:
  fixes a b c d :: int
  assumes "0 \<le> a" "0 \<le> b" "b < 4" "0 \<le> c" "c < 25" "0 \<le> d" "d < 4"
    and y: "y = 400 * a + 100 * b + 4 * c + d + 1"
  shows "is_leap y \<longleftrightarrow> d = 3 \<and> (c \<noteq> 24 \<or> b = 3)"
    and "y div 4 - y div 100 + y div 400 = 97 * a + 24 * b + c + (if d = 3 \<and> (c \<noteq> 24 \<or> b = 3) then 1 else 0)"
proof -
  have y4: "y = 4 * (100 * a + 25 * b + c) + (d + 1)" using y by simp
  have y100: "y = 100 * (4 * a + b) + (4 * c + d + 1)" using y by simp
  have y400: "y = 400 * a + (100 * b + 4 * c + d + 1)" using y by simp
  have m4: "y mod 4 = (if d = 3 then 0 else d + 1)" "y div 4 = 100 * a + 25 * b + c + (if d = 3 then 1 else 0)"
    using assms(6,7) divmod_carry [of 4 "d + 1" "100 * a + 25 * b + c"] unfolding y4 by auto
  have m100: "y mod 100 = (if c = 24 \<and> d = 3 then 0 else 4 * c + d + 1)"
      "y div 100 = 4 * a + b + (if c = 24 \<and> d = 3 then 1 else 0)"
    using assms(4-7) divmod_carry [of 100 "4 * c + d + 1" "4 * a + b"] unfolding y100 by auto
  have m400: "y mod 400 = (if b = 3 \<and> c = 24 \<and> d = 3 then 0 else 100 * b + 4 * c + d + 1)"
      "y div 400 = a + (if b = 3 \<and> c = 24 \<and> d = 3 then 1 else 0)"
    using assms(2-7) divmod_carry [of 400 "100 * b + 4 * c + d + 1" a] unfolding y400 by auto
  have "0 \<le> y" using assms by simp
  then show "is_leap y \<longleftrightarrow> d = 3 \<and> (c \<noteq> 24 \<or> b = 3)"
    using assms unfolding is_leap_mod [OF \<open>0 \<le> y\<close>] m4 m100 m400 by auto
  show "y div 4 - y div 100 + y div 400 = 97 * a + 24 * b + c + (if d = 3 \<and> (c \<noteq> 24 \<or> b = 3) then 1 else 0)"
    unfolding m4 m100 m400 by auto
qed

text \<open>The month formula of \<^verbatim>\<open>mktime\<close> against the tables of \<^verbatim>\<open>gmtime\<close>.\<close>

lemma month_formula:
  assumes "m < 12"
  shows "((int m + 1 + 10) * 367) div 12 + 2 * (if int m + 1 < 3 then 1 else 0)
      - (if int m + 1 < 3 then 1 else 0) * (if lp then 1 else 0) + (if lp then 1 else 0) - 338
    = int ((if lp then leap_days else noleap_days) ! m)"
proof -
  have "m = 0 \<or> m = 1 \<or> m = 2 \<or> m = 3 \<or> m = 4 \<or> m = 5 \<or> m = 6 \<or> m = 7 \<or> m = 8 \<or> m = 9
      \<or> m = 10 \<or> m = 11" using assms by presburger
  then show ?thesis by (elim disjE) (auto simp: leap_days_def noleap_days_def)
qed

lemma sint_of_nat_small: "n < 2 ^ 31 \<Longrightarrow> sint (of_nat n :: u32) = int n"
  using signed_of_int [where 'a = int and 'b = 32, of "int n"]
  by (simp add: signed_take_bit_int_eq_self)

lemma hms_split:
  fixes N :: nat
  shows "N = ((N div 60 div 60 div 24 * 24 + N div 60 div 60 mod 24) * 60 + N div 60 mod 60) * 60 + N mod 60"
  by simp

lemma fits_sum:
  assumes "0 \<le> F" "F \<le> 700" "0 \<le> B" "B \<le> 1" "0 \<le> M" "M \<le> 400"
  shows "fits_int (F + 2 * B - 719866 + M)"
  using assms unfolding fits_int_def by simp

lemma fits_sum':
  assumes "0 \<le> F" "F \<le> 700" "0 \<le> B" "B \<le> 1" "0 \<le> M" "M \<le> 400" "0 \<le> P" "P \<le> 1" "0 \<le> Y" "Y < 500000"
  shows "fits_int (F + 2 * B - 719866 + M - P + Y * 365)"
  using assms unfolding fits_int_def by simp

lemma mktime_days:
  fixes a b c d r m q :: nat
  assumes p: "b < 4" "c < 25" "d < 4" and a: "a < 1000"
    and y: "y = 400 * int a + 100 * int b + 4 * int c + int d + 1"
    and m: "m < 12" "(if is_leap y then leap_days else noleap_days) ! m + q = r" "r < 366"
    and tm: "mon tm = int m + 1" "mday tm = int q + 1" "year tm = y"
  shows "mktime tm = Inr ((((of_int (int (146097 * a + 36524 * b + 1461 * c + 365 * d + r) - 719162) :: u64) * 24
      + of_int (hour tm)) * 60 + of_int (min tm)) * 60 + of_int (sec tm))"
proof -
  let ?bm = "(if mon tm < 3 then 1 else 0) :: int" and ?lp = "(if is_leap (year tm) then 1 else 0) :: int"
  let ?F = "((mon tm + 10) * 367) sdiv 12"
  have yp: "y div 4 - y div 100 + y div 400 = 97 * int a + 24 * int b + int c + ?lp"
    using year_parts [of "int a" "int b" "int c" "int d" y] p y tm(3) by auto
  have y0: "0 \<le> y" "y < 500000" using p a y by auto
  have F: "?F = (int m + 1 + 10) * 367 div 12" using tm(1) by (simp add: sdiv_nonneg)
  have mf: "?F + 2 * ?bm - ?bm * ?lp = int r - int q + 338 - ?lp"
    using month_formula [OF m(1), of "is_leap y"] m(2) unfolding tm(1,3) by (auto simp: sdiv_nonneg split: if_splits)
  have days: "?F + 2 * ?bm - 719866 + mday tm - ?bm * ?lp + year tm * 365
      + (year tm sdiv 4 - year tm sdiv 100 + year tm sdiv 400)
    = int (146097 * a + 36524 * b + 1461 * c + 365 * d + r) - 719162"
  proof -
    have "year tm sdiv 4 - year tm sdiv 100 + year tm sdiv 400 = 97 * int a + 24 * int b + int c + ?lp"
      using yp y0 by (simp add: tm sdiv_nonneg)
    then show ?thesis using mf y tm(2,3) by simp
  qed
  have Fb: "0 \<le> ?F" "?F \<le> 700" using m(1) unfolding F by auto
  have q: "int q < 366" using m(2,3) by auto
  have bl: "0 \<le> ?bm * ?lp" "?bm * ?lp \<le> 1" "0 \<le> ?bm" "?bm \<le> 1" by auto
  have fit: "fits_int (mon tm + 10)" "fits_int ((mon tm + 10) * 367)" "fits_int (year tm * 365)"
    using y0 m(1) by (simp_all add: fits_int_def tm)
  have fit2: "fits_int (?F + 2 * ?bm - 719866 + mday tm)"
    "fits_int (?F + 2 * ?bm - 719866 + mday tm - ?bm * ?lp + year tm * 365)"
    using fits_sum [OF Fb bl(3,4), of "mday tm"] fits_sum' [OF Fb bl(3,4) _ _ bl(1,2) y0, of "mday tm"] q tm(2,3)
    by simp_all
  show ?thesis unfolding mktime_def Let_def by (simp only: fit fit2 days if_True simp_thms)
qed

lemma gmtime_parts:
  assumes "unat s < 2 ^ 40"
  obtains a b c d r m q n N where
    "gmtime s t0 = t0\<lparr>sec := int (N mod 60), min := int (N div 60 mod 60), hour := int (N div 60 div 60 mod 24),
      mday := int (q + 1), mon := int (m + 1), year := 400 * int a + 100 * int b + 4 * int c + int d + 1,
      wday := int ((n + 1) mod 7), yday := int (r + 1)\<rparr>"
    "N = unat s + 62135596800" "n = N div 60 div 60 div 24"
    "n = 146097 * a + 36524 * b + 1461 * c + 365 * d + r" "b < 4" "c < 25" "d < 4" "a < 1000" "r < 366"
    "m < 12"
    "(if is_leap (400 * int a + 100 * int b + 4 * int c + int d + 1) then leap_days else noleap_days) ! m + q = r"
    "r < (if is_leap (400 * int a + 100 * int b + 4 * int c + int d + 1) then leap_days else noleap_days) ! (m + 1)"
proof -
  define N where "N = unat s + 62135596800"
  have N: "unat (s + (719528 - 366) * 86400) = N"
    using assms by (simp add: N_def unat_add_small)
  define n where "n = N div 60 div 60 div 24"
  have nb: "n < 20000000" using assms by (simp add: n_def N_def div_mult2_eq [symmetric] less_mult_imp_div_less)
  obtain a b c d r where sp: "split_years n = (a, b, c, d, r)" by (metis prod_cases5)
  note S = split_years_ok [OF sp]
  define y where "y = 400 * int a + 100 * int b + 4 * int c + int d + 1"
  have a: "a < 1000" using S nb by linarith
  have yn: "sint (of_nat (((a * 4 + b) * 25 + c) * 4 + d + 1) :: u32) = y"
    using a S by (subst sint_of_nat_small) (auto simp: y_def)
  have lp: "is_leap y \<longleftrightarrow> int d = 3 \<and> (int c \<noteq> 24 \<or> int b = 3)"
    using year_parts(1) [of "int a" "int b" "int c" "int d" y] S by (auto simp: y_def)
  obtain m q where md: "month_day (is_leap y) r = (m, q)" by fastforce
  have rb: "r < (if is_leap y then 366 else 365)" using S lp by (cases "r = 365") auto
  note M = month_day_ok [OF rb md]
  have g: "gmtime s t0 = t0\<lparr>sec := int (N mod 60), min := int (N div 60 mod 60), hour := int (N div 60 div 60 mod 24),
      mday := int (q + 1), mon := int (m + 1), year := y, wday := int ((n + 1) mod 7), yday := int (r + 1)\<rparr>"
    unfolding gmtime_def Let_def N n_def [symmetric] sp prod.case yn md by simp
  show ?thesis by (rule that [OF g [unfolded y_def] N_def n_def]) (use S M a in \<open>simp_all add: y_def\<close>)
qed

lemma gmtime_mktime_valid:
  assumes "unat s < 2 ^ 40"
  shows "mktime (gmtime s t0) = Inr s \<and> valid_date (gmtime s t0)"
proof (rule gmtime_parts [OF assms, of t0], goal_cases)
  case g: (1 a b c d r m q n N)
  define tm where "tm = gmtime s t0"
  have hms: "hour tm = int (N div 60 div 60 mod 24)" "min tm = int (N div 60 mod 60)" "sec tm = int (N mod 60)"
    by (simp_all add: tm_def g(1))
  have "mktime tm = Inr ((((of_int (int (146097 * a + 36524 * b + 1461 * c + 365 * d + r) - 719162) :: u64) * 24
      + of_int (hour tm)) * 60 + of_int (min tm)) * 60 + of_int (sec tm))"
    using g by (intro mktime_days [OF _ _ _ _ refl, where m = m and q = q]) (simp_all add: tm_def)
  also have "int (146097 * a + 36524 * b + 1461 * c + 365 * d + r) = int n" using g by simp
  also have "(((of_int (int n - 719162) :: u64) * 24 + of_int (hour tm)) * 60 + of_int (min tm)) * 60 + of_int (sec tm)
      = of_int ((((int n - 719162) * 24 + hour tm) * 60 + min tm) * 60 + sec tm)" by simp
  also have "(((int n - 719162) * 24 + hour tm) * 60 + min tm) * 60 + sec tm = int N - 62135596800"
  proof -
    have "int N = ((int n * 24 + hour tm) * 60 + min tm) * 60 + sec tm"
      unfolding g(3) hms of_nat_numeral [where 'a = int, symmetric] of_nat_mult [symmetric] of_nat_add [symmetric]
      by (rule arg_cong [OF hms_split])
    then show ?thesis by simp
  qed
  also have "int N - 62135596800 = int (unat s)" by (simp add: g(2))
  finally have "mktime (gmtime s t0) = Inr s" by (simp add: tm_def)
  moreover have "valid_date (gmtime s t0)"
    using g(10-12) unfolding valid_date_def g(1) Let_def by (simp split: if_splits)
  ultimately show ?thesis ..
qed

section \<open>Properties\<close>

text \<open>Claim C21. The calendar round trip: for every time value below \<^verbatim>\<open>2^40\<close> seconds (about 34000
  years), \<^verbatim>\<open>Date::gmtime\<close> produces a date of the Gregorian calendar (its day exists in its
  month, its day of the year agrees with month and day, its time of day is in range), and
  \<^verbatim>\<open>Date::mktime\<close> converts that date back to the same time value without overflow.\<close>

theorem gmtime_mktime_roundtrip:
  assumes "unat s < 2 ^ 40"
  shows "valid_date (gmtime s tm) \<and> mktime (gmtime s tm) = Inr s"
  using gmtime_mktime_valid [OF assms, of tm] by simp

theorem gmtime_mktime_roundtrip_witness:
  "unat (1330520400 :: timevalue) < 2 ^ 40
    \<and> mktime (gmtime 1330520400 date_info_init) = Inr 1330520400"
  using gmtime_mktime_roundtrip [of 1330520400 date_info_init] by simp

end
