(* ===== verification/Rtc146818.thy ===== *)
theory Rtc146818
  imports Date Bus
begin

text \<open>
  The real-time clock of \<^verbatim>\<open>apps/vancouver/model/rtc146818.cc\<close>: the CMOS RAM with the time of
  day in BCD or binary, 12 or 24 hour format, the alarm with wildcards, the periodic
  interrupt and the timer that the device programs. The clock of the motherboard and
  the values of the time stamp counter are arguments; where an operation reads the
  counter more than once, \<^verbatim>\<open>t k\<close> is the value at its \<^verbatim>\<open>k\<close>-th reading in program order.
\<close>

section \<open>State\<close>

record rtc =
  rtc_timer :: u32
  rtc_iobase :: u16
  rtc_irq :: u32
  rtc_index :: u8
  rtc_ram :: "u8 list"
  rtc_offset :: timevalue
  rtc_last :: timevalue

datatype rtc_msg = RtcIrq irq_type u8 | RtcTimer u32 timevalue

definition rtc_get :: "rtc \<Rightarrow> nat \<Rightarrow> u8" where
  "rtc_get s i = rtc_ram s ! i"

definition rtc_put :: "nat \<Rightarrow> u8 \<Rightarrow> rtc \<Rightarrow> rtc" where
  "rtc_put i v s = s\<lparr>rtc_ram := (rtc_ram s)[i := v]\<rparr>"

section \<open>Reading and writing the time\<close>

definition convert_bcd :: "rtc \<Rightarrow> u8 \<Rightarrow> u8" where
  "convert_bcd s v = (if flag (NOT (rtc_get s 0xb)) 4 then to_bcd v else v)"

text \<open>The callers of \<^verbatim>\<open>ram\<close> pass the indices 0 to 9 and 0x32, which its assertions allow.\<close>

definition ram :: "rtc \<Rightarrow> nat \<Rightarrow> u8" where
  "ram s i =
     (let bcd = (\<lambda>v. if flag (NOT (rtc_get s 0xb)) 4 then from_bcd v else v);
          raw = rtc_get s i
      in if (i = 4 \<or> i = 5) \<and> flag (NOT (rtc_get s 0xb)) 2
         then (let v = bcd (raw AND 0x7f) mod 12 in if flag raw 0x80 then v + 12 else v)
         else bcd (if i = 0 then raw AND 0x7f else raw))"

definition get_divider :: "rtc \<Rightarrow> int" where
  "get_divider s = (let d = 25 - int (unat (drop_bit 4 (rtc_get s 0xa) AND 7)) * 5 in if d \<ge> 22 then 22 else d)"

definition get_counter :: "clock \<Rightarrow> timevalue \<Rightarrow> rtc \<Rightarrow> timevalue res" where
  "get_counter c tsc s =
     bindR (time_of c (2 ^ 30) tsc) (\<lambda>v.
       let d = get_divider s in Inr (if d < 0 then 0 else drop_bit (nat d) v - rtc_offset s))"

definition get_periodic_tics :: "rtc \<Rightarrow> u32" where
  "get_periodic_tics s =
     (let a = rtc_get s 0xa
      in if flag a 0xf \<and> a AND 0x60 \<noteq> 0x60
         then (let tics = push_bit (unat (a AND 0xf) - 1) 1 in if tics < 3 then push_bit 7 tics else tics)
         else 0)"

definition set_irqflags :: "u8 \<Rightarrow> rtc \<Rightarrow> rtc \<times> rtc_msg list" where
  "set_irqflags v s =
     (let c = (if flag (rtc_get s 0xb AND v) 0x70 then v OR 0x80 else v)
      in (rtc_put 0xc c s,
          if flag (rtc_get s 0xc XOR c) 0x80
          then [RtcIrq (if flag c 0x80 then ASSERT_NOTIFY else DEASSERT_IRQ) (ucast (rtc_irq s))] else []))"

definition get_ram_time :: "rtc \<Rightarrow> timevalue res" where
  "get_ram_time s = mktime (date_info_init\<lparr>sec := uint (ram s 0), min := uint (ram s 2), hour := uint (ram s 4),
      mday := uint (ram s 7), mon := uint (ram s 8), year := uint (ram s 9) + uint (ram s 0x32) * 100\<rparr>)"

text \<open>The hour register of \<^verbatim>\<open>update_ram\<close>, in 24 or 12 hour format.\<close>

definition hour_register :: "rtc \<Rightarrow> int \<Rightarrow> u8" where
  "hour_register s h =
     (if flag (NOT (rtc_get s 0xb)) 2
      then (let pm = (if h \<ge> 12 then 0x80 else 0); h = h smod 12
            in pm OR convert_bcd s (of_int (if h = 0 then 12 else h)))
      else convert_bcd s (of_int h))"

definition put_time :: "date_info \<Rightarrow> rtc \<Rightarrow> rtc" where
  "put_time tm s =
     (let bcd = (\<lambda>x. convert_bcd s (of_int x))
      in s\<lparr>rtc_ram := (rtc_ram s)
            [0 := bcd (sec tm), 2 := bcd (min tm), 4 := hour_register s (hour tm), 6 := bcd (wday tm),
             7 := bcd (mday tm), 8 := bcd (mon tm), 9 := bcd (year tm smod 100),
             0x32 := bcd (year tm sdiv 100)]\<rparr>)"

definition update_ram :: "timevalue \<Rightarrow> rtc \<Rightarrow> rtc \<times> rtc_msg list" where
  "update_ram seconds s =
     (let s = put_time (gmtime seconds date_info_init) s in set_irqflags (rtc_get s 0xc OR 0x10) s)"

section \<open>The alarm\<close>

definition alarm_periods :: "u32 list" where
  "alarm_periods = [86400, 86400, 86400, 86400, 3600, 3600, 60, 1]"

definition alarm_subranges :: "u32 list" where
  "alarm_subranges = [0, 59, 59 * 60, 3599, 0, 59, 0, 0]"

text \<open>The loop over the second, minute and hour of the alarm: the wildcards and the start
  of the alarm in its period, or \<^term>\<open>None\<close> for a component out of range.\<close>

fun alarm_scan :: "rtc \<Rightarrow> nat list \<Rightarrow> u32 \<Rightarrow> u32 \<Rightarrow> u32 \<Rightarrow> (u32 \<times> u32) option" where
  "alarm_scan s [] wildcards start p = Some (wildcards, start)"
| "alarm_scan s (i # is) wildcards start p =
     (if rtc_get s (i * 2 + 1) \<ge> 0xc0 then alarm_scan s is (wildcards OR push_bit i 1) start (p * 60)
      else let v = (ucast (ram s (i * 2 + 1)) :: u32)
           in if v \<ge> 60 \<or> (i = 2 \<and> v \<ge> 24) then None
              else alarm_scan s is wildcards (start + p * v) (p * 60))"

definition next_alarm :: "timevalue \<Rightarrow> rtc \<Rightarrow> timevalue" where
  "next_alarm seconds s =
     (case alarm_scan s [0, 1, 2] 0 0 1 of
        None \<Rightarrow> NOT 0
      | Some (wildcards, start) \<Rightarrow>
          let period = alarm_periods ! unat wildcards;
              now = (ucast ((seconds + 1) mod ucast period) :: u32);
              time = (seconds + 1) div ucast period
          in if now \<le> start then time * ucast period + ucast start
             else if now \<le> start + alarm_subranges ! unat wildcards
             then (let now = (if wildcards = 2
                              then (let now = (if now mod 60 > start mod 60 then now + 60 else now)
                                    in now + (start mod 60 - now mod 60))
                              else now)
                   in time * ucast period + ucast now)
             else (time + 1) * ucast period + ucast start)"

section \<open>Update cycle and timer\<close>

definition update_cycle :: "timevalue \<Rightarrow> rtc \<Rightarrow> (u32 \<times> rtc \<times> rtc_msg list) res" where
  "update_cycle now s =
     (let fnow = (ucast (now mod 32768) :: u32)
      in if rtc_get s 0xa AND 0x60 = 0x60 then Inr (fnow, s, [])
         else
          let flast = (ucast (rtc_last s mod 32768) :: u32);
              tics = get_periodic_tics s;
              (s, ms) = (if tics \<noteq> 0 \<and> (fnow - tics div 2) div tics \<noteq> (flast - tics div 2) div tics
                         then set_irqflags (rtc_get s 0xc OR 0x40) s else (s, []));
              seconds = now div 32768
          in bindR (if flag (NOT (rtc_get s 0xb)) 0x80 \<and> seconds \<noteq> rtc_last s div 32768
                    then bindR (get_ram_time s) (\<lambda>last_seconds.
                      let seconds = last_seconds + seconds - rtc_last s div 32768;
                          (s, ms1) = update_ram seconds s;
                          (s, ms2) = (if next_alarm last_seconds s \<le> seconds
                                      then set_irqflags (rtc_get s 0xc OR 0x20) s else (s, []))
                      in Inr (s, ms1 @ ms2))
                    else Inr (s, []))
               (\<lambda>(s, ms'). Inr (fnow, s\<lparr>rtc_last := now\<rparr>, ms @ ms')))"

definition next_timeout :: "timevalue \<Rightarrow> timevalue \<Rightarrow> rtc \<Rightarrow> timevalue" where
  "next_timeout last_seconds now s =
     (let tics = get_periodic_tics s; b = rtc_get s 0xb
      in if flag b 0x40 \<and> tics \<noteq> 0 then ucast (tics - (ucast (now mod 32768) + tics div 2) mod tics)
         else if flag b 0x10 then 32768 - now mod 32768
         else if flag b 0x20
         then (let alarm = next_alarm last_seconds s
               in if alarm \<noteq> NOT 0 then (alarm - last_seconds) * 32768 - now mod 32768 else 0)
         else 0)"

definition update_timer :: "clock \<Rightarrow> timevalue \<Rightarrow> timevalue \<Rightarrow> timevalue \<Rightarrow> rtc \<Rightarrow> rtc_msg list res" where
  "update_timer c tsc last_seconds now s =
     (let next = next_timeout last_seconds now s; d = get_divider s
      in if next = 0 \<or> d < 0 then Inr []
         else bindR (source_time c tsc next
                       (if d \<ge> 15 then drop_bit (nat (d - 15)) 32768 else push_bit (nat (15 - d)) 32768))
                (\<lambda>next. Inr [RtcTimer (rtc_timer s) next]))"

section \<open>Bus interface\<close>

definition rtc_init :: "u32 \<Rightarrow> u16 \<Rightarrow> u32 \<Rightarrow> rtc" where
  "rtc_init timer iobase irq =
     \<lparr>rtc_timer = timer, rtc_iobase = iobase, rtc_irq = irq, rtc_index = 0,
      rtc_ram = replicate 128 0, rtc_offset = 0, rtc_last = 0\<rparr>"

definition rtc_reset :: "timevalue \<Rightarrow> timevalue \<Rightarrow> rtc \<Rightarrow> (rtc \<times> rtc_msg list) res" where
  "rtc_reset wallclocktime timestamp s =
     (let s = s\<lparr>rtc_ram := (replicate 128 0)[0xa := 0x26, 0xb := 0x02, 0xd := 0x80]\<rparr>
      in bindR (muldiv128 (wallclocktime - timestamp) 32768 1000000) (\<lambda>now.
           let (s, ms) = update_ram (now div 32768) s; (s, ms') = set_irqflags 0 s
           in Inr (s\<lparr>rtc_offset := 0, rtc_last := 0\<rparr>, ms @ ms')))"

definition rtc_hit :: "rtc \<Rightarrow> u16 \<Rightarrow> io_type \<Rightarrow> bool" where
  "rtc_hit s port ty \<longleftrightarrow> bus_in_range (ucast port) (ucast (rtc_iobase s)) 8 \<and> ty = TYPE_B"

text \<open>A read that the device does not answer returns \<^term>\<open>None\<close> for the message, but may have
  run an update cycle.\<close>

definition rtc_receive_in ::
    "clock \<Rightarrow> (nat \<Rightarrow> timevalue) \<Rightarrow> io_in \<Rightarrow> rtc \<Rightarrow> (io_in option \<times> rtc \<times> rtc_msg list) res" where
  "rtc_receive_in c t m s =
     (if \<not> rtc_hit s (in_port m) (in_type m) then Inr (None, s, [])
      else bindR (get_counter c (t 0) s) (\<lambda>now.
           bindR (update_cycle now s) (\<lambda>(md, s, ms).
             let i = unat (rtc_index s); v = rtc_get s i
             in if \<not> flag (in_port m) 1 \<or> (md \<ge> 32768 - 65 \<and> i < 10) then Inr (None, s, ms)
                else if i = 0 then Inr (Some (m\<lparr>in_value := ucast (v AND 0x7f)\<rparr>), s, ms)
                else if i = 0xa
                then Inr (Some (m\<lparr>in_value := ucast ((v AND 0x7f) OR
                       (if flag (NOT (rtc_get s 0xb)) 0x80 \<and> md \<ge> 32768 - 8 - 65 then 0x80 else 0))\<rparr>), s, ms)
                else if i = 0xc
                then (case set_irqflags 0 s of (s, ms') \<Rightarrow>
                      bindR (get_ram_time s) (\<lambda>last. bindR (update_timer c (t 1) last now s) (\<lambda>ms''.
                        Inr (Some (m\<lparr>in_value := ucast v\<rparr>), s, ms @ ms' @ ms''))))
                else Inr (Some (m\<lparr>in_value := ucast v\<rparr>), s, ms))))"

text \<open>The register write of the output handler.\<close>

definition rtc_write :: "clock \<Rightarrow> timevalue \<Rightarrow> u8 \<Rightarrow> rtc \<Rightarrow> rtc res" where
  "rtc_write c tsc v s =
     (let i = unat (rtc_index s)
      in if i = 0 then Inr (rtc_put 0 ((rtc_get s 0 AND 0x80) OR (v AND 0x7f)) s)
         else if i = 0xa
         then (if rtc_get s 0xa AND 0x60 = 0x60 \<and> v AND 0x60 \<noteq> 0x60
               then bindR (time_of c 32768 tsc) (\<lambda>x.
                      Inr ((rtc_put 0xa v s)\<lparr>rtc_offset := x - 16384, rtc_last := 16384\<rparr>))
               else Inr (rtc_put 0xa v s))
         else if i = 0xc \<or> i = 0xd then Inr s
         else if i = 0xb \<and> flag (rtc_get s 0xb) 0x80 \<and> flag (NOT v) 0x80
         then bindR (time_of c 32768 tsc) (\<lambda>x. Inr (rtc_put 0xb v (s\<lparr>rtc_last := x\<rparr>)))
         else Inr (rtc_put i v s))"

definition rtc_receive_out ::
    "clock \<Rightarrow> (nat \<Rightarrow> timevalue) \<Rightarrow> io_out \<Rightarrow> rtc \<Rightarrow> (bool \<times> rtc \<times> rtc_msg list) res" where
  "rtc_receive_out c t m s =
     (if \<not> rtc_hit s (out_port m) (out_type m) then Inr (False, s, [])
      else if \<not> flag (out_port m) 1 then Inr (True, s\<lparr>rtc_index := ucast (out_value m) AND 0x7f\<rparr>, [])
      else bindR (get_counter c (t 0) s) (\<lambda>now.
           bindR (update_cycle now s) (\<lambda>(_, s, ms).
           bindR (rtc_write c (t 1) (ucast (out_value m)) s) (\<lambda>s.
           bindR (if rtc_index s < 0xc
                  then bindR (get_ram_time s) (\<lambda>last. bindR (get_counter c (t 2) s) (\<lambda>now.
                         update_timer c (t 3) last now s))
                  else Inr []) (\<lambda>ms'.
             case (if rtc_index s = 0xb then set_irqflags (rtc_get s 0xc) s else (s, [])) of (s, ms'') \<Rightarrow>
               Inr (True, s, ms @ ms' @ ms''))))))"

definition rtc_receive_notify ::
    "clock \<Rightarrow> (nat \<Rightarrow> timevalue) \<Rightarrow> u8 \<Rightarrow> u8 \<Rightarrow> rtc \<Rightarrow> (bool \<times> rtc_msg list) res" where
  "rtc_receive_notify c t baseirq msk s =
     (if ucast baseirq \<noteq> rtc_irq s AND NOT 7 \<or> \<not> flag (ucast msk) (push_bit (unat (rtc_irq s AND 7)) 1 :: u32)
      then Inr (False, [])
      else bindR (get_ram_time s) (\<lambda>last. bindR (get_counter c (t 0) s) (\<lambda>now.
           bindR (update_timer c (t 1) last now s) (\<lambda>ms. Inr (True, ms)))))"

definition rtc_receive_timeout ::
    "clock \<Rightarrow> (nat \<Rightarrow> timevalue) \<Rightarrow> u32 \<Rightarrow> rtc \<Rightarrow> (bool \<times> rtc \<times> rtc_msg list) res" where
  "rtc_receive_timeout c t nr s =
     (if nr \<noteq> rtc_timer s then Inr (False, s, [])
      else bindR (get_counter c (t 0) s) (\<lambda>now.
           bindR (update_cycle now s) (\<lambda>(_, s, ms). Inr (True, s, ms))))"

section \<open>Specification of the alarm\<close>

definition alarm_field :: "rtc \<Rightarrow> nat \<Rightarrow> nat \<Rightarrow> bool" where
  "alarm_field s i v \<longleftrightarrow> rtc_get s (i * 2 + 1) \<ge> 0xc0 \<or> v = unat (ram s (i * 2 + 1))"

definition alarm_match :: "rtc \<Rightarrow> nat \<Rightarrow> bool" where
  "alarm_match s t \<longleftrightarrow>
     alarm_field s 0 (t mod 60) \<and> alarm_field s 1 (t div 60 mod 60) \<and> alarm_field s 2 (t div 3600 mod 24)"

text \<open>The same on the components of the alarm, the first match from a time on, and the
  algorithm of \<^verbatim>\<open>next_alarm\<close> on natural numbers (period, start and subrange).\<close>

definition hms_match :: "bool \<Rightarrow> bool \<Rightarrow> bool \<Rightarrow> nat \<Rightarrow> nat \<Rightarrow> nat \<Rightarrow> nat \<Rightarrow> bool" where
  "hms_match w0 w1 w2 v0 v1 v2 t \<longleftrightarrow>
     (w0 \<or> t mod 60 = v0) \<and> (w1 \<or> t div 60 mod 60 = v1) \<and> (w2 \<or> t div 3600 mod 24 = v2)"

definition first_from :: "(nat \<Rightarrow> bool) \<Rightarrow> nat \<Rightarrow> nat \<Rightarrow> bool" where
  "first_from M n r \<longleftrightarrow> n \<le> r \<and> M r \<and> (\<forall>u. n \<le> u \<and> u < r \<longrightarrow> \<not> M u)"

definition alarm_nat :: "nat \<Rightarrow> nat \<Rightarrow> nat \<Rightarrow> bool \<Rightarrow> nat \<Rightarrow> nat" where
  "alarm_nat P S R minutes N =
     (let now = N mod P; time = N div P
      in if now \<le> S then time * P + S
         else if now \<le> S + R
         then time * P + (if minutes
                          then (let now = (if now mod 60 > S mod 60 then now + 60 else now)
                                in now - now mod 60 + S mod 60)
                          else now)
         else (time + 1) * P + S)"

section \<open>Storing the time\<close>

lemma gmtime_ranges:
  assumes "unat s < 2 ^ 37"
  shows "valid_date (gmtime s tm) \<and> 0 < year (gmtime s tm) \<and> year (gmtime s tm) < 10000
    \<and> mktime (gmtime s tm) = Inr s"
proof (rule gmtime_parts [of s tm], goal_cases)
  case 1
  then show ?case using assms by simp
next
  case g: (2 a b c d r m q n N)
  have "n * 86400 \<le> N" unfolding g(3) by (simp add: div_mult2_eq [symmetric])
  then have "a < 24" using g(2,4) assms by simp
  then have "0 < year (gmtime s tm) \<and> year (gmtime s tm) < 10000" using g(5-7) unfolding g(1) by simp
  then show ?thesis using gmtime_mktime_valid [of s tm] assms by simp
qed

lemma mktime_cong:
  assumes "sec a = sec b" "min a = min b" "hour a = hour b" "mday a = mday b" "mon a = mon b" "year a = year b"
  shows "mktime a = mktime b"
  by (simp only: mktime_def assms)

lemma mday_bound: "valid_date tm \<Longrightarrow> mday tm < 100"
proof -
  assume v: "valid_date tm"
  define m where "m = nat (mon tm - 1)"
  have "m < 12" using v by (auto simp: valid_date_def m_def)
  then have "m = 0 \<or> m = 1 \<or> m = 2 \<or> m = 3 \<or> m = 4 \<or> m = 5 \<or> m = 6 \<or> m = 7 \<or> m = 8 \<or> m = 9
      \<or> m = 10 \<or> m = 11" by presburger
  then show ?thesis using v unfolding valid_date_def Let_def m_def [symmetric]
    by (elim disjE) (simp_all add: leap_days_def noleap_days_def split: if_splits)
qed

text \<open>The registers of the two-digit components, in both formats.\<close>

lemma u8_of_int: "0 \<le> x \<Longrightarrow> x < 100 \<Longrightarrow> (of_int x :: u8) < 100 \<and> uint (of_int x :: u8) = x"
  by (simp add: word_less_def uint_word_of_int)

lemma bcd_low: "v < 60 \<Longrightarrow> to_bcd v AND 0x7f = to_bcd v" "v < 60 \<Longrightarrow> v AND 0x7f = (v :: u8)"
proof -
  have "\<forall>n \<in> set [0..<60]. to_bcd (of_nat n) AND 0x7f = to_bcd (of_nat n) \<and> of_nat n AND 0x7f = (of_nat n :: u8)"
    by code_simp
  moreover assume "v < 60"
  then have "unat v \<in> set [0..<60]" "of_nat (unat v) = v" by (simp_all add: word_less_nat_alt)
  ultimately show "to_bcd v AND 0x7f = to_bcd v" "v AND 0x7f = v" by metis+
qed

lemma bcd_roundtrip:
  assumes "0 \<le> x" "x < 100"
  shows "uint ((if b then from_bcd else id) ((if b then to_bcd else id) (of_int x))) = x"
  using u8_of_int [OF assms] by (auto simp: from_bcd_to_bcd)

text \<open>The hour register in 12 hour format.\<close>

lemma hour12_roundtrip:
  assumes "0 \<le> h" "h < 24"
  defines "raw b \<equiv> (if h \<ge> 12 then 0x80 else 0) OR (if b then to_bcd else id) (of_int (if h smod 12 = 0 then 12 else h smod 12)) :: u8"
  shows "uint ((if b then from_bcd else id) (raw b AND 0x7f) mod 12 + (if flag (raw b) 0x80 then 12 else 0)) = h"
proof -
  have "\<forall>n \<in> set [0..<24]. \<forall>b \<in> {True, False}. let h = int n;
      raw = (if h \<ge> 12 then 0x80 else 0) OR (if b then to_bcd else id) (of_int (if h smod 12 = 0 then 12 else h smod 12)) :: u8
    in uint ((if b then from_bcd else id) (raw AND 0x7f) mod 12 + (if flag raw 0x80 then 12 else 0)) = h"
    by code_simp
  moreover have "nat h \<in> set [0..<24]" "int (nat h) = h" "b \<in> {True, False}" using assms(1,2) by auto
  ultimately show ?thesis unfolding raw_def Let_def by metis
qed

lemma rtc_get_put: "i < length (rtc_ram s) \<Longrightarrow> rtc_get (rtc_put i v s) j = (if i = j then v else rtc_get s j)"
  by (simp add: rtc_get_def rtc_put_def)

lemma set_irqflags_get: "length (rtc_ram s) = 128 \<Longrightarrow> j \<noteq> 0xc \<Longrightarrow> rtc_get (fst (set_irqflags v s)) j = rtc_get s j"
  by (simp add: set_irqflags_def Let_def rtc_get_put)

lemma ram_cong: "rtc_get s i = rtc_get t i \<Longrightarrow> rtc_get s 0xb = rtc_get t 0xb \<Longrightarrow> ram s i = ram t i"
  by (simp add: ram_def)

lemma get_ram_time_cong:
  "(\<And>i. i \<noteq> 0xc \<Longrightarrow> rtc_get s i = rtc_get t i) \<Longrightarrow> get_ram_time s = get_ram_time t"
  using ram_cong [of s _ t] by (simp add: get_ram_time_def)

lemma put_time_get:
  assumes "length (rtc_ram s) = 128"
  shows "rtc_get (put_time tm s) 0 = convert_bcd s (of_int (sec tm))"
    "rtc_get (put_time tm s) 2 = convert_bcd s (of_int (min tm))"
    "rtc_get (put_time tm s) 4 = hour_register s (hour tm)"
    "rtc_get (put_time tm s) 7 = convert_bcd s (of_int (mday tm))"
    "rtc_get (put_time tm s) 8 = convert_bcd s (of_int (mon tm))"
    "rtc_get (put_time tm s) 9 = convert_bcd s (of_int (year tm smod 100))"
    "rtc_get (put_time tm s) 0x32 = convert_bcd s (of_int (year tm sdiv 100))"
    "\<And>i. i \<in> {1, 3, 5, 0xa, 0xb, 0xc} \<Longrightarrow> rtc_get (put_time tm s) i = rtc_get s i"
  using assms by (auto simp: put_time_def rtc_get_def Let_def)

lemma ram_digits:
  assumes "i \<noteq> 4" "i \<noteq> 5" "rtc_get t i = convert_bcd t (of_int x)" "0 \<le> x" "x < 100" "i = 0 \<longrightarrow> x < 60"
  shows "uint (ram t i) = x"
proof -
  let ?b = "flag (NOT (rtc_get t 0xb)) 4"
  have m: "(if i = 0 then rtc_get t i AND 0x7f else rtc_get t i) = (if ?b then to_bcd else id) (of_int x)"
  proof (cases "i = 0")
    case True
    then have "(of_int x :: u8) < 60" using assms by (simp add: word_less_def uint_word_of_int)
    then show ?thesis using assms(3) True bcd_low [of "of_int x"] by (simp add: convert_bcd_def)
  qed (use assms(3) in \<open>simp add: convert_bcd_def\<close>)
  have "ram t i = (if ?b then from_bcd else id) (if i = 0 then rtc_get t i AND 0x7f else rtc_get t i)"
    using assms(1,2) by (simp add: ram_def Let_def)
  then show ?thesis unfolding m using bcd_roundtrip [OF assms(4,5), of ?b] by simp
qed

lemma ram_hour:
  assumes "rtc_get t 4 = hour_register t h" "0 \<le> h" "h < 24"
  shows "uint (ram t 4) = h"
proof (cases "flag (NOT (rtc_get t 0xb)) 2")
  case True
  let ?b = "flag (NOT (rtc_get t 0xb)) 4"
  let ?raw = "(if h \<ge> 12 then 0x80 else 0) OR (if ?b then to_bcd else id) (of_int (if h smod 12 = 0 then 12 else h smod 12)) :: u8"
  have r: "rtc_get t 4 = ?raw" using True by (simp add: assms(1) hour_register_def convert_bcd_def Let_def)
  have "ram t 4 = (if ?b then from_bcd else id) (?raw AND 0x7f) mod 12 + (if flag ?raw 0x80 then 12 else 0)"
    using True unfolding ram_def r [symmetric] by (simp add: Let_def)
  then show ?thesis using hour12_roundtrip [OF assms(2,3), of ?b] by simp
next
  case False
  let ?b = "flag (NOT (rtc_get t 0xb)) 4"
  have "rtc_get t 4 = (if ?b then to_bcd else id) (of_int h)"
    using False by (simp add: assms(1) hour_register_def convert_bcd_def)
  then have "ram t 4 = (if ?b then from_bcd else id) ((if ?b then to_bcd else id) (of_int h))"
    using False by (simp add: ram_def Let_def)
  then show ?thesis using bcd_roundtrip [of h ?b] assms(2,3) by simp
qed

lemma hms_cong: "rtc_get s 0xb = rtc_get t 0xb \<Longrightarrow> convert_bcd s = convert_bcd t"
  "rtc_get s 0xb = rtc_get t 0xb \<Longrightarrow> hour_register s = hour_register t"
  by (auto simp: convert_bcd_def hour_register_def fun_eq_iff Let_def)

lemma update_ram_time:
  assumes "length (rtc_ram s) = 128" "unat seconds < 2 ^ 37"
  shows "get_ram_time (fst (update_ram seconds s)) = Inr seconds"
proof -
  define tm where "tm = gmtime seconds date_info_init"
  define t where "t = put_time tm s"
  note G = gmtime_ranges [OF assms(2), of date_info_init, folded tm_def]
  have b: "rtc_get t 0xb = rtc_get s 0xb" by (simp add: t_def put_time_get(8) [OF assms(1)])
  note P = put_time_get(1-7) [OF assms(1), of tm, folded t_def, folded hms_cong [OF b]]
  have l: "length (rtc_ram t) = 128" using assms(1) by (simp add: t_def put_time_def Let_def)
  have v: "0 \<le> sec tm" "sec tm < 60" "0 \<le> min tm" "min tm < 60" "0 \<le> hour tm" "hour tm < 24"
      "1 \<le> mon tm" "mon tm \<le> 12" "1 \<le> mday tm" "mday tm < 100"
    using G mday_bound by (auto simp: valid_date_def Let_def)
  have y: "0 \<le> year tm smod 100" "year tm smod 100 < 100" "0 \<le> year tm sdiv 100" "year tm sdiv 100 < 100"
      "year tm smod 100 + year tm sdiv 100 * 100 = year tm"
    using G by (auto simp: smod_nonneg sdiv_nonneg)
  have R: "uint (ram t 0) = sec tm" "uint (ram t 2) = min tm" "uint (ram t 4) = hour tm" "uint (ram t 7) = mday tm"
      "uint (ram t 8) = mon tm" "uint (ram t 9) = year tm smod 100" "uint (ram t 0x32) = year tm sdiv 100"
    using v y by (auto intro!: ram_digits ram_hour P simp: P)
  have "get_ram_time (fst (update_ram seconds s)) = get_ram_time t"
    using set_irqflags_get [OF l] by (intro get_ram_time_cong) (simp add: update_ram_def t_def tm_def Let_def)
  also have "\<dots> = mktime tm" unfolding get_ram_time_def by (rule mktime_cong) (simp_all add: R y)
  finally show ?thesis using G by simp
qed

section \<open>The next alarm\<close>



text \<open>Seconds, minutes, hours and days of a time.\<close>

lemma hms_parts:
  fixes x :: nat
  assumes "x = 86400 * D + 3600 * h + 60 * m + s" "s < 60" "m < 60" "h < 24"
  shows "x mod 60 = s" "x div 60 mod 60 = m" "x div 3600 mod 24 = h"
    "x mod 86400 = 3600 * h + 60 * m + s" "x div 86400 = D" "x mod 3600 = 60 * m + s"
proof -
  have 1: "x = s + 60 * (m + 60 * (h + 24 * D))" using assms(1) by simp
  have g: "(a + b * k) div b = k" "(a + b * k) mod b = a" if "a < b" for a b k :: nat using that by simp_all
  have d1: "x div 60 = m + 60 * (h + 24 * D)" "x mod 60 = s" unfolding 1 by (rule g [OF assms(2)])+
  have d2: "x div 60 div 60 = h + 24 * D" unfolding d1 by (rule g [OF assms(3)])
  have d3: "x div 3600 = h + 24 * D" using d2 by (simp add: div_mult2_eq [symmetric])
  show "x mod 60 = s" by (rule d1)
  show "x div 60 mod 60 = m" unfolding d1 by (rule g [OF assms(3)])
  show "x div 3600 mod 24 = h" unfolding d3 by (rule g [OF assms(4)])
  have "x = (3600 * h + 60 * m + s) + 86400 * D" "3600 * h + 60 * m + s < 86400" using assms by simp_all
  then show "x mod 86400 = 3600 * h + 60 * m + s" "x div 86400 = D" using g by metis+
  have "x = (60 * m + s) + 3600 * (24 * D + h)" "60 * m + s < 3600" using assms by simp_all
  then show "x mod 3600 = 60 * m + s" using g by metis
qed

lemma hms_cases:
  obtains D h m s where "(x::nat) = 86400 * D + 3600 * h + 60 * m + s" "s < 60" "m < 60" "h < 24"
proof
  show "x = 86400 * (x div 60 div 60 div 24) + 3600 * (x div 60 div 60 mod 24) + 60 * (x div 60 mod 60) + x mod 60"
  proof -
    have e: "x = ((a * 24 + b) * 60 + c) * 60 + d \<Longrightarrow> x = 86400 * a + 3600 * b + 60 * c + d" for a b c d by simp
    show ?thesis by (rule e [OF hms_split])
  qed
qed simp_all



lemma first_from_block:
  assumes M: "\<And>u. M u \<longleftrightarrow> S \<le> u mod P \<and> u mod P \<le> S + R" and b: "S + R < P"
  shows "first_from M N (alarm_nat P S R False N)"
proof -
  define q n where "q = N div P" and "n = N mod P"
  have N: "N = q * P + n" "n < P" using b by (simp_all add: q_def n_def)
  have m: "(k * P + j) mod P = j" if "j < P" for k j using that by simp
  consider "n \<le> S" | "S < n" "n \<le> S + R" | "S + R < n" by linarith
  then show ?thesis
  proof cases
    case 1
    have "\<not> M u" if u: "q * P + n \<le> u" "u < q * P + S" for u
    proof -
      have "u = q * P + (u - q * P)" "u - q * P < S" using u by auto
      then have "u mod P = u - q * P" using m [of "u - q * P" q] b by simp
      then show ?thesis using M [of u] \<open>u - q * P < S\<close> by simp
    qed
    moreover have "alarm_nat P S R False N = q * P + S" using 1 by (simp add: alarm_nat_def q_def [symmetric] n_def [symmetric])
    ultimately show ?thesis using 1 N b m [of S q] M by (auto simp: first_from_def)
  next
    case 2
    have "alarm_nat P S R False N = N" using 2 N by (simp add: alarm_nat_def q_def [symmetric] n_def [symmetric])
    then show ?thesis using 2 N b m [of n q] M by (auto simp: first_from_def)
  next
    case 3
    have "\<not> M u" if u: "q * P + n \<le> u" "u < (q + 1) * P + S" for u
    proof (cases "u < (q + 1) * P")
      case True
      then have "u = q * P + (u - q * P)" "u - q * P < P" using u by auto
      then have "u mod P = u - q * P" using m [of "u - q * P" q] by simp
      moreover have "n \<le> u - q * P" using u(1) by linarith
      ultimately show ?thesis using M [of u] 3 by simp
    next
      case False
      then have "u = (q + 1) * P + (u - (q + 1) * P)" "u - (q + 1) * P < S" using u by auto
      then have "u mod P = u - (q + 1) * P" using m [of "u - (q + 1) * P" "q + 1"] b by simp
      then show ?thesis using M [of u] \<open>u - (q + 1) * P < S\<close> by simp
    qed
    moreover have "alarm_nat P S R False N = (q + 1) * P + S" using 3 by (simp add: alarm_nat_def q_def [symmetric] n_def [symmetric])
    moreover have "((q + 1) * P + S) mod P = S" using m [of S "q + 1"] b by simp
    ultimately show ?thesis using 3 N b M [of "(q + 1) * P + S"] by (auto simp: first_from_def)
  qed
qed

text \<open>With a wildcard only in the minutes the alarm fires once a minute in its hour.\<close>

lemma first_from_minutes:
  assumes v: "v0 < 60" "v2 < 24"
  shows "first_from (hms_match False True False v0 v1 v2) N (alarm_nat 86400 (v0 + 3600 * v2) 3540 True N)"
proof -
  let ?M = "hms_match False True False v0 v1 v2" and ?S = "v0 + 3600 * v2"
  obtain D h m s where N: "N = 86400 * D + 3600 * h + 60 * m + s" "s < 60" "m < 60" "h < 24" by (rule hms_cases)
  note P = hms_parts [OF N]
  have M: "?M (86400 * d + 3600 * v2 + 60 * k + v0)" if "k < 60" for d k
    using hms_parts [OF refl v(1) that v(2)] by (simp add: hms_match_def)
  have M': "\<exists>d k. u = 86400 * d + 3600 * v2 + 60 * k + v0 \<and> k < 60" if m: "?M u" for u
  proof -
    obtain D' h' m' s' where U: "u = 86400 * D' + 3600 * h' + 60 * m' + s'" "s' < 60" "m' < 60" "h' < 24" by (rule hms_cases)
    have "s' = v0" "h' = v2" using hms_parts [OF U] m by (simp_all add: hms_match_def)
    then show ?thesis using U by blast
  qed
  have S: "?S mod 60 = v0" using v(1) mod_mult_self2 [of v0 60 "60 * v2"] by simp
  have n60: "(3600 * h + 60 * m + s) mod 60 = s" "(3600 * h + 60 * m + s + 60) mod 60 = s"
    using N(2) mod_mult_self2 [of s 60 "60 * h + m"] mod_mult_self2 [of s 60 "60 * h + m + 1"]
    by (simp_all add: algebra_simps)
  consider "3600 * h + 60 * m + s \<le> ?S" | "?S < 3600 * h + 60 * m + s" "3600 * h + 60 * m + s \<le> ?S + 3540"
    | "?S + 3540 < 3600 * h + 60 * m + s" by linarith
  then show ?thesis
  proof cases
    case 1
    have R: "alarm_nat 86400 ?S 3540 True N = 86400 * D + 3600 * v2 + 60 * 0 + v0"
      using 1 unfolding alarm_nat_def Let_def P by simp
    have "\<not> ?M u" if u: "N \<le> u" "u < 86400 * D + 3600 * v2 + 60 * 0 + v0" for u
    proof
      assume "?M u"
      then obtain d k where "u = 86400 * d + 3600 * v2 + 60 * k + v0" "k < 60" using M' by blast
      then have "d < D" "86400 * D \<le> u" using u N(1) by linarith+
      then show False using \<open>u = _\<close> \<open>k < 60\<close> v by linarith
    qed
    then show ?thesis using 1 N M [of 0 D] unfolding first_from_def R by simp
  next
    case 2
    define k where "k = (if s > v0 then m + 1 else m)"
    have h: "h = v2" using 2 N v by linarith
    have k: "k < 60" using 2 N v h by (auto simp: k_def)
    have R: "alarm_nat 86400 ?S 3540 True N = 86400 * D + 3600 * v2 + 60 * k + v0"
      using 2 h n60 unfolding alarm_nat_def Let_def P S k_def by simp
    have "\<not> ?M u" if u: "N \<le> u" "u < 86400 * D + 3600 * v2 + 60 * k + v0" for u
    proof
      assume "?M u"
      then obtain d j where U: "u = 86400 * d + 3600 * v2 + 60 * j + v0" "j < 60" using M' by blast
      have "d \<le> D" using U u k v by linarith
      moreover have "D \<le> d" using U u N v by linarith
      ultimately have "j < k" "3600 * h + 60 * m + s \<le> 3600 * v2 + 60 * j + v0" using U u N by auto
      then show False using h v(1) unfolding k_def by (auto split: if_splits)
    qed
    then show ?thesis using 2 N M [OF k, of D] h unfolding first_from_def R k_def by auto
  next
    case 3
    have R: "alarm_nat 86400 ?S 3540 True N = 86400 * (D + 1) + 3600 * v2 + 60 * 0 + v0"
      using 3 unfolding alarm_nat_def Let_def P by simp
    have "\<not> ?M u" if u: "N \<le> u" "u < 86400 * (D + 1) + 3600 * v2 + 60 * 0 + v0" for u
    proof
      assume "?M u"
      then obtain d k where U: "u = 86400 * d + 3600 * v2 + 60 * k + v0" "k < 60" using M' by blast
      then have "d < D + 1" using u by simp
      then show False using U u N 3 by linarith
    qed
    then show ?thesis using N M [of 0 "D + 1"] unfolding first_from_def R by simp
  qed
qed

text \<open>The matching times of the day, of the hour and of the minute.\<close>

lemma pack_eq:
  assumes "s < b" "s' < (b::nat)"
  shows "b * m + s = b * m' + s' \<longleftrightarrow> m = m' \<and> s = s'"
proof
  assume e: "b * m + s = b * m' + s'"
  have "(b * m + s) div b = m" "(b * m' + s') div b = m'" using assms by simp_all
  then have "m = m'" using e by simp
  then show "m = m' \<and> s = s'" using e by simp
qed simp

lemma pack_in:
  assumes "s < b" shows "b * k \<le> b * m + s \<and> b * m + s \<le> b * k + (b - 1) \<longleftrightarrow> m = (k::nat)"
proof
  assume a: "b * k \<le> b * m + s \<and> b * m + s \<le> b * k + (b - 1)"
  then have "b * k < b * m + b" "b * m < b * k + b" using assms by linarith+
  then have "b * k < b * (m + 1)" "b * m < b * (k + 1)" by simp_all
  then have "k < m + 1" "m < k + 1" using mult_less_cancel1 by blast+
  then show "m = k" by simp
qed (use assms in auto)

lemma hms_match_day:
  assumes "v0 < 60" "v1 < 60" "v2 < 24"
  shows "hms_match False False False v0 v1 v2 u \<longleftrightarrow> v0 + 60 * v1 + 3600 * v2 = u mod 86400"
    and "hms_match True False False v0 v1 v2 u \<longleftrightarrow> 60 * v1 + 3600 * v2 \<le> u mod 86400 \<and> u mod 86400 \<le> 60 * v1 + 3600 * v2 + 59"
    and "hms_match True True False v0 v1 v2 u \<longleftrightarrow> 3600 * v2 \<le> u mod 86400 \<and> u mod 86400 \<le> 3600 * v2 + 3599"
    and "hms_match False False True v0 v1 v2 u \<longleftrightarrow> v0 + 60 * v1 = u mod 3600"
    and "hms_match True False True v0 v1 v2 u \<longleftrightarrow> 60 * v1 \<le> u mod 3600 \<and> u mod 3600 \<le> 60 * v1 + 59"
proof -
  obtain D h m s where U: "u = 86400 * D + 3600 * h + 60 * m + s" "s < 60" "m < 60" "h < 24" by (rule hms_cases)
  note P = hms_parts [OF U]
  have e1: "60 * (60 * h + m) + s = 60 * (60 * v2 + v1) + v0 \<longleftrightarrow> h = v2 \<and> m = v1 \<and> s = v0"
    using U assms by (simp only: pack_eq) blast
  have e2: "60 * (60 * v2 + v1) \<le> 60 * (60 * h + m) + s \<and> 60 * (60 * h + m) + s \<le> 60 * (60 * v2 + v1) + (60 - 1) \<longleftrightarrow> h = v2 \<and> m = v1"
    using U assms by (simp only: pack_eq pack_in)
  have e3: "3600 * v2 \<le> 3600 * h + (60 * m + s) \<and> 3600 * h + (60 * m + s) \<le> 3600 * v2 + (3600 - 1) \<longleftrightarrow> h = v2"
    using U by (intro pack_in) simp
  have e4: "60 * m + s = 60 * v1 + v0 \<longleftrightarrow> m = v1 \<and> s = v0" using U assms by (simp only: pack_eq)
  have e5: "60 * v1 \<le> 60 * m + s \<and> 60 * m + s \<le> 60 * v1 + (60 - 1) \<longleftrightarrow> m = v1" using U by (simp only: pack_in)
  show "hms_match False False False v0 v1 v2 u \<longleftrightarrow> v0 + 60 * v1 + 3600 * v2 = u mod 86400"
    using e1 unfolding hms_match_def P by auto
  show "hms_match True False False v0 v1 v2 u \<longleftrightarrow> 60 * v1 + 3600 * v2 \<le> u mod 86400 \<and> u mod 86400 \<le> 60 * v1 + 3600 * v2 + 59"
    using e2 unfolding hms_match_def P by auto
  show "hms_match True True False v0 v1 v2 u \<longleftrightarrow> 3600 * v2 \<le> u mod 86400 \<and> u mod 86400 \<le> 3600 * v2 + 3599"
    using e3 unfolding hms_match_def P by auto
  show "hms_match False False True v0 v1 v2 u \<longleftrightarrow> v0 + 60 * v1 = u mod 3600"
    using e4 unfolding hms_match_def P by auto
  show "hms_match True False True v0 v1 v2 u \<longleftrightarrow> 60 * v1 \<le> u mod 3600 \<and> u mod 3600 \<le> 60 * v1 + 59"
    using e5 unfolding hms_match_def P by auto
qed

lemma first_from_cases:
  assumes "v0 < 60" "v1 < 60" "v2 < 24"
  shows "first_from (hms_match False False False v0 v1 v2) N (alarm_nat 86400 (v0 + 60 * v1 + 3600 * v2) 0 False N)"
    and "first_from (hms_match True False False v0 v1 v2) N (alarm_nat 86400 (60 * v1 + 3600 * v2) 59 False N)"
    and "first_from (hms_match True True False v0 v1 v2) N (alarm_nat 86400 (3600 * v2) 3599 False N)"
    and "first_from (hms_match False False True v0 v1 v2) N (alarm_nat 3600 (v0 + 60 * v1) 0 False N)"
    and "first_from (hms_match True False True v0 v1 v2) N (alarm_nat 3600 (60 * v1) 59 False N)"
    and "first_from (hms_match False True True v0 v1 v2) N (alarm_nat 60 v0 0 False N)"
    and "first_from (hms_match True True True v0 v1 v2) N (alarm_nat 1 0 0 False N)"
  using assms by (auto intro!: first_from_block simp: hms_match_day [OF assms] hms_match_def [of False True True]
      hms_match_def [of True True True])

lemma alarm_nat_first:
  assumes "w0 \<or> v0 < 60" "w1 \<or> v1 < 60" "w2 \<or> v2 < 24"
  defines "k \<equiv> (if w0 then 1 else 0) + (if w1 then 2 else 0) + (if w2 then 4 else (0::nat))"
  shows "first_from (hms_match w0 w1 w2 v0 v1 v2) N
    (alarm_nat ([86400, 86400, 86400, 86400, 3600, 3600, 60, 1] ! k)
       ((if w0 then 0 else v0) + (if w1 then 0 else 60 * v1) + (if w2 then 0 else 3600 * v2))
       ([0, 59, 3540, 3599, 0, 59, 0, 0] ! k) (k = 2) N)"
proof -
  have wild: "hms_match True w1 w2 v0 v1 v2 = hms_match True w1 w2 0 v1 v2"
    "hms_match w0 True w2 v0 v1 v2 = hms_match w0 True w2 v0 0 v2"
    "hms_match w0 w1 True v0 v1 v2 = hms_match w0 w1 True v0 v1 0" for w0 w1 w2 v0 v1 v2
    by (auto simp: hms_match_def fun_eq_iff)
  note F = first_from_cases [where N = N]
  show ?thesis
  proof (cases w0; cases w1; cases w2)
    assume w: "\<not> w0" "w1" "\<not> w2"
    then show ?thesis using first_from_minutes [of v0 v2 v1 N] assms by (simp add: k_def)
  next
    assume w: "\<not> w0" "\<not> w1" "\<not> w2"
    then show ?thesis using F(1) [of v0 v1 v2] assms by (simp add: k_def)
  next
    assume w: "w0" "\<not> w1" "\<not> w2"
    then show ?thesis using F(2) [of 0 v1 v2] wild(1) [of False False v0] assms by (simp add: k_def)
  next
    assume w: "w0" "w1" "\<not> w2"
    then show ?thesis using F(3) [of 0 0 v2] wild(1) [of True False v0] wild(2) [of True False 0 v1] assms by (simp add: k_def)
  next
    assume w: "\<not> w0" "\<not> w1" "w2"
    then show ?thesis using F(4) [of v0 v1 0] wild(3) [of False False v0 v1 v2] assms by (simp add: k_def)
  next
    assume w: "w0" "\<not> w1" "w2"
    then show ?thesis using F(5) [of 0 v1 0] wild(1) [of False True v0] wild(3) [of True False 0 v1 v2] assms by (simp add: k_def)
  next
    assume w: "\<not> w0" "w1" "w2"
    then show ?thesis using F(6) [of v0 0 0] wild(2) [of False True v0 v1] wild(3) [of False True v0 0 v2] assms by (simp add: k_def)
  next
    assume w: "w0" "w1" "w2"
    moreover have "hms_match True True True v0 v1 v2 = hms_match True True True 0 0 0"
      by (simp add: hms_match_def fun_eq_iff)
    ultimately show ?thesis using F(7) [of 0 0 0] by (simp add: k_def)
  qed
qed

text \<open>The words of \<^verbatim>\<open>next_alarm\<close> as natural numbers.\<close>

lemma alarm_scan_result:
  fixes s :: rtc
  defines "w i \<equiv> rtc_get s (i * 2 + 1) \<ge> 0xc0" and "v i \<equiv> unat (ram s (i * 2 + 1))"
  shows "alarm_scan s [0, 1, 2] 0 0 1 =
    (if (w 0 \<or> v 0 < 60) \<and> (w 1 \<or> v 1 < 60) \<and> (w 2 \<or> v 2 < 24)
     then Some (of_nat ((if w 0 then 1 else 0) + (if w 1 then 2 else 0) + (if w 2 then 4 else 0)),
                of_nat ((if w 0 then 0 else v 0) + (if w 1 then 0 else 60 * v 1) + (if w 2 then 0 else 3600 * v 2)))
     else None)"
proof -
  have u: "unat (ucast x :: u32) = unat x" for x :: u8
    using unat_bound [of x] by (simp add: unat_ucast)
  have b: "(60 :: u32) \<le> ucast x \<longleftrightarrow> 60 \<le> unat x" "(24 :: u32) \<le> ucast x \<longleftrightarrow> 24 \<le> unat x" for x :: u8
    by (simp_all add: word_le_nat_alt u)
  show ?thesis
    by (cases "w 0"; cases "w 1"; cases "w 2") (auto simp: w_def v_def b)
qed

lemma alarm_words:
  fixes period st sub :: u32 and seconds :: timevalue
  assumes P: "0 < unat period" "unat period \<le> 86400" and S: "unat st < unat period" "unat sub \<le> 3600"
    and N: "unat seconds < 2 ^ 63"
  defines "now \<equiv> (ucast ((seconds + 1) mod ucast period) :: u32)"
    and "time \<equiv> (seconds + 1) div (ucast period :: u64)"
  shows "unat (if now \<le> st then time * ucast period + ucast st
             else if now \<le> st + sub
             then (let now = (if b then (let now = (if now mod 60 > st mod 60 then now + 60 else now)
                                    in now + (st mod 60 - now mod 60)) else now)
                   in time * ucast period + ucast now)
             else (time + 1) * ucast period + ucast st :: u64)
    = alarm_nat (unat period) (unat st) (unat sub) b (unat seconds + 1)"
proof -
  define p M where "p = unat period" and "M = unat seconds + 1"
  define n where "n = M mod p"
  have M: "unat (seconds + 1) = M" using N by (simp add: unat_add_small M_def)
  have up: "unat (ucast period :: u64) = p" using unat_bound [of period] by (simp add: unat_ucast p_def)
  have c: "unat (ucast (x :: u32) :: u64) = unat x" for x using unat_bound [of x] by (simp add: unat_ucast)
  have nb: "n < p" using P by (simp add: n_def p_def)
  have "unat ((seconds + 1) mod ucast period) = n" by (simp add: unat_mod_distrib M up n_def M_def)
  then have now: "unat now = n" using nb P by (simp add: now_def unat_ucast p_def)
  define d q where "d = M div p" and "q = d * p"
  have time: "unat time = d" by (simp add: time_def unat_div_distrib M up d_def)
  have tp: "q \<le> M" "M \<le> 2 ^ 63" "d \<le> M" using N by (simp_all add: M_def q_def d_def)
  have qq: "Suc d * p = q + p" by (simp add: q_def)
  have lin: "unat (time * ucast period + ucast x) = q + unat x" for x :: u32
  proof -
    have "unat (time * ucast period) = q" using tp(1,2) by (subst unat_mult_small) (simp_all add: time up q_def [symmetric])
    then show ?thesis using tp unat_bound [of x] by (subst unat_add_small) (simp_all add: c)
  qed
  have lin2: "unat ((time + 1) * ucast period + ucast st) = q + p + unat st"
  proof -
    have t1: "unat (time + 1) = Suc d"
      using tp by (subst unat_add_small) (simp_all add: time)
    have "unat ((time + 1) * ucast period) = q + p"
      using tp P by (subst unat_mult_small) (simp_all add: t1 up qq p_def [symmetric] del: mult_Suc)
    then show ?thesis using tp P S by (subst unat_add_small) (simp_all add: c p_def)
  qed
  have st: "unat (st + sub) = unat st + unat sub" using S P by (subst unat_add_small) simp_all
  have m60: "unat (x mod 60) = unat x mod 60" for x :: u32 by (simp add: unat_mod_distrib)
  define r where "r = (if now mod 60 > st mod 60 then now + 60 else now)"
  have r: "unat r = (if n mod 60 > unat st mod 60 then n + 60 else n)"
    using nb P now by (auto simp: r_def word_less_nat_alt m60 unat_add_small p_def)
  have adj: "unat (r + (st mod 60 - r mod 60)) = unat r - unat r mod 60 + unat st mod 60"
  proof -
    have le: "r mod 60 \<le> r" by (simp add: word_le_nat_alt m60)
    have "unat ((r - r mod 60) + st mod 60) = unat r - unat r mod 60 + unat st mod 60"
      using nb P r le by (subst unat_add_small) (auto simp: unat_diff_small m60 p_def)
    then show ?thesis by (simp add: algebra_simps)
  qed
  show ?thesis
    unfolding alarm_nat_def Let_def r_def [symmetric] M_def [symmetric] p_def [symmetric]
    using adj r by (simp add: word_le_nat_alt now st lin lin2 q_def [symmetric] d_def [symmetric] n_def [symmetric])
qed

lemma alarm_match_hms:
  "alarm_match s = hms_match (rtc_get s 1 \<ge> 0xc0) (rtc_get s 3 \<ge> 0xc0) (rtc_get s 5 \<ge> 0xc0)
     (unat (ram s 1)) (unat (ram s 3)) (unat (ram s 5))"
  by (simp add: alarm_match_def alarm_field_def hms_match_def fun_eq_iff)

lemma next_alarm_first:
  assumes "unat seconds < 2 ^ 63"
  shows "if \<exists>t. alarm_match s t then first_from (alarm_match s) (unat seconds + 1) (unat (next_alarm seconds s))
    else next_alarm seconds s = NOT 0"
proof -
  let ?w = "\<lambda>i. rtc_get s (i * 2 + 1) \<ge> 0xc0" and ?v = "\<lambda>i. unat (ram s (i * 2 + 1))"
  let ?ok = "(?w 0 \<or> ?v 0 < 60) \<and> (?w 1 \<or> ?v 1 < 60) \<and> (?w 2 \<or> ?v 2 < 24)"
  have M: "alarm_match s = hms_match (?w 0) (?w 1) (?w 2) (?v 0) (?v 1) (?v 2)"
    by (simp add: alarm_match_hms)
  show ?thesis
  proof (cases ?ok)
    case True
    define k where "k = (if ?w 0 then 1 else 0) + (if ?w 1 then 2 else 0) + (if ?w 2 then 4 else (0::nat))"
    define S where "S = (if ?w 0 then 0 else ?v 0) + (if ?w 1 then 0 else 60 * ?v 1) + (if ?w 2 then 0 else 3600 * ?v 2)"
    have sc: "alarm_scan s [0, 1, 2] 0 0 1 = Some (of_nat k, of_nat S)"
      unfolding alarm_scan_result k_def S_def using True by (rule if_P)
    have k: "k < 8" by (simp add: k_def)
    have S: "S < 86400" using True by (auto simp: S_def)
    have SP: "S < [86400, 86400, 86400, 86400, 3600, 3600, 60, 1] ! k"
      using True unfolding S_def k_def by (cases "?w 0"; cases "?w 1"; cases "?w 2") simp_all
    have uk: "unat (of_nat k :: u32) = k" and uS: "unat (of_nat S :: u32) = S"
      using k S by (simp_all add: unat_of_nat)
    have k': "k = 0 \<or> k = 1 \<or> k = 2 \<or> k = 3 \<or> k = 4 \<or> k = 5 \<or> k = 6 \<or> k = 7" using k by presburger
    have tab: "unat (alarm_periods ! k) = [86400, 86400, 86400, 86400, 3600, 3600, 60, 1] ! k"
      "unat (alarm_subranges ! k) = [0, 59, 3540, 3599, 0, 59, 0, 0] ! k"
      "unat (alarm_subranges ! k) \<le> 3600" "0 < unat (alarm_periods ! k)" "unat (alarm_periods ! k) \<le> 86400"
      using k' by (auto simp: alarm_periods_def alarm_subranges_def)
    have k2: "(of_nat k = (2 :: u32)) = (k = 2)" using k' by (elim disjE) simp_all
    have "unat (next_alarm seconds s) = alarm_nat ([86400, 86400, 86400, 86400, 3600, 3600, 60, 1] ! k) S
        ([0, 59, 3540, 3599, 0, 59, 0, 0] ! k) (k = 2) (unat seconds + 1)"
      using alarm_words [of "alarm_periods ! k" "of_nat S" "alarm_subranges ! k" seconds "k = 2"] tab SP assms
      unfolding next_alarm_def sc option.case prod.case uk k2 uS Let_def by simp
    then have "first_from (alarm_match s) (unat seconds + 1) (unat (next_alarm seconds s))"
      using alarm_nat_first [of "?w 0" "?v 0" "?w 1" "?v 1" "?w 2" "?v 2" "unat seconds + 1"] True
      unfolding M S_def k_def by presburger
    then show ?thesis unfolding first_from_def by auto
  next
    case False
    have "\<not> alarm_match s t" for t
      using False unfolding M hms_match_def by (auto simp: not_less)
    moreover have "alarm_scan s [0, 1, 2] 0 0 1 = None" unfolding alarm_scan_result using False by (rule if_not_P)
    ultimately show ?thesis by (simp add: next_alarm_def)
  qed
qed

lemma alarm_fields_cong:
  assumes "\<And>i. i \<in> {1, 3, 5, 0xb} \<Longrightarrow> rtc_get s i = rtc_get t i"
  shows "next_alarm seconds s = next_alarm seconds t" "alarm_match s = alarm_match t"
proof -
  have r: "ram s i = ram t i" if "i \<in> {1, 3, 5}" for i using that assms by (intro ram_cong) auto
  have "alarm_scan s [0, 1, 2] 0 0 1 = alarm_scan t [0, 1, 2] 0 0 1"
    using assms r by (simp add: Let_def del: One_nat_def)
  then show "next_alarm seconds s = next_alarm seconds t" by (simp only: next_alarm_def)
  show "alarm_match s = alarm_match t" using assms r by (simp add: alarm_match_hms)
qed

lemma flag_or_out: "m AND 0x80 = 0 \<Longrightarrow> flag (v OR 0x80) m = flag (v :: u8) m"
  by (simp add: flag_def bit.conj_disj_distrib2 and.commute [of 128])

lemma set_irqflags_C:
  assumes "length (rtc_ram s) = 128" "m AND 0x80 = 0"
  shows "flag (rtc_get (fst (set_irqflags v s)) 0xc) m = flag v m"
    "length (rtc_ram (fst (set_irqflags v s))) = 128" "rtc_last (fst (set_irqflags v s)) = rtc_last s"
  using assms flag_or_out [OF assms(2)]
  by (auto simp: set_irqflags_def Let_def rtc_get_put) (simp_all add: rtc_put_def)

lemma put_time_len: "length (rtc_ram (put_time tm s)) = length (rtc_ram s)" "rtc_last (put_time tm s) = rtc_last s"
  by (simp_all add: put_time_def Let_def)

lemma update_ram_keeps:
  assumes "length (rtc_ram s) = 128"
  shows "length (rtc_ram (fst (update_ram seconds s))) = 128" "rtc_last (fst (update_ram seconds s)) = rtc_last s"
    "\<And>i. i \<in> {1, 3, 5, 0xa, 0xb} \<Longrightarrow> rtc_get (fst (update_ram seconds s)) i = rtc_get s i"
    "\<And>m. m AND 0x80 = 0 \<Longrightarrow> flag (rtc_get (fst (update_ram seconds s)) 0xc) m = flag (rtc_get s 0xc OR 0x10) m"
proof -
  define t where "t = put_time (gmtime seconds date_info_init) s"
  have t: "length (rtc_ram t) = 128" "rtc_last t = rtc_last s" "rtc_get t 0xc = rtc_get s 0xc"
      "\<And>i. i \<in> {1, 3, 5, 0xa, 0xb} \<Longrightarrow> rtc_get t i = rtc_get s i"
    using assms by (auto simp: t_def put_time_len put_time_get(8))
  have u: "update_ram seconds s = set_irqflags (rtc_get t 0xc OR 0x10) t" by (simp add: update_ram_def t_def Let_def)
  show "length (rtc_ram (fst (update_ram seconds s))) = 128" "rtc_last (fst (update_ram seconds s)) = rtc_last s"
    using t set_irqflags_C(2,3) [of t 0] unfolding u by simp_all
  show "rtc_get (fst (update_ram seconds s)) i = rtc_get s i" if "i \<in> {1, 3, 5, 0xa, 0xb}" for i
    using that t set_irqflags_get [of t i] unfolding u by auto
  show "flag (rtc_get (fst (update_ram seconds s)) 0xc) m = flag (rtc_get s 0xc OR 0x10) m" if "m AND 0x80 = 0" for m
    using t set_irqflags_C(1) [OF t(1) that] unfolding u by simp
qed

lemma flag_or: "flag (a OR b) m \<longleftrightarrow> flag a m \<or> flag b m"
  by (auto simp: flag_def bit.conj_disj_distrib2 or_eq_0_iff)

text \<open>An update cycle that crosses a second, from the state after the periodic interrupt.\<close>

lemma cross_second:
  assumes l: "length (rtc_ram s) = 128" and old: "unat old < 2 ^ 37" and new: "unat new < 2 ^ 37"
    and u: "update_ram new s = (s1, ms1)"
    and v: "(if next_alarm old s1 \<le> new then set_irqflags (rtc_get s1 0xc OR 0x20) s1 else (s1, [])) = (s2, ms2)"
  shows "get_ram_time s2 = Inr new" "rtc_last s2 = rtc_last s" "flag (rtc_get s2 0xc) 0x10"
    "flag (rtc_get s2 0xc) 0x20 \<longleftrightarrow> flag (rtc_get s 0xc) 0x20 \<or> (\<exists>t. unat old < t \<and> t \<le> unat new \<and> alarm_match s t)"
proof -
  note U = update_ram_keeps [OF l, where seconds = new, unfolded u fst_conv]
  have tm: "get_ram_time s1 = Inr new" using update_ram_time [OF l new] u by simp
  have s2: "s2 = (if next_alarm old s1 \<le> new then fst (set_irqflags (rtc_get s1 0xc OR 0x20) s1) else s1)"
    using v by (auto split: if_splits)
  show "get_ram_time s2 = Inr new"
    using tm get_ram_time_cong [of "fst (set_irqflags (rtc_get s1 0xc OR 0x20) s1)" s1] set_irqflags_get [OF U(1)]
    by (simp add: s2)
  show "rtc_last s2 = rtc_last s" using U(2) set_irqflags_C(3) [OF U(1), of 0] by (simp add: s2)
  show "flag (rtc_get s2 0xc) 0x10"
    using U(4) [where m = "0x10"] set_irqflags_C(1) [OF U(1), of "0x10"] by (simp add: s2 flag_or) (simp add: flag_def)
  have u3: "rtc_get s1 i = rtc_get s i" if "i \<in> {1, 3, 5, 0xb}" for i using that U(3) by auto
  have al: "next_alarm old s1 = next_alarm old s" by (rule alarm_fields_cong(1) [OF u3])
  have "next_alarm old s1 \<le> new \<longleftrightarrow> (\<exists>t. unat old < t \<and> t \<le> unat new \<and> alarm_match s t)"
  proof (cases "\<exists>t. alarm_match s t")
    case True
    then have "first_from (alarm_match s) (unat old + 1) (unat (next_alarm old s))"
      using next_alarm_first [of old s] old by simp
    then have F: "unat old < unat (next_alarm old s)" "alarm_match s (unat (next_alarm old s))"
      and L: "\<forall>u. unat old + 1 \<le> u \<and> u < unat (next_alarm old s) \<longrightarrow> \<not> alarm_match s u"
      by (simp_all add: first_from_def)
    have G: "unat (next_alarm old s) \<le> t" if "unat old < t" "alarm_match s t" for t
    proof (rule ccontr)
      assume "\<not> ?thesis"
      then show False using L that by (simp add: not_le)
    qed
    show ?thesis unfolding al word_le_nat_alt
    proof
      assume "unat (next_alarm old s) \<le> unat new"
      then show "\<exists>t. unat old < t \<and> t \<le> unat new \<and> alarm_match s t"
        using F by (intro exI [of _ "unat (next_alarm old s)"]) simp
    next
      assume "\<exists>t. unat old < t \<and> t \<le> unat new \<and> alarm_match s t"
      then obtain t where t: "unat old < t" "t \<le> unat new" "alarm_match s t" by (elim exE conjE)
      show "unat (next_alarm old s) \<le> unat new" by (rule le_trans [OF G [OF t(1,3)] t(2)])
    qed
  next
    case False
    then have "next_alarm old s = NOT 0" using next_alarm_first [of old s] old by simp
    then show ?thesis using False new unfolding al
      by (auto simp: word_le_nat_alt unsigned_minus_1_eq_mask mask_eq_exp_minus_1)
  qed
  then show "flag (rtc_get s2 0xc) 0x20 \<longleftrightarrow> flag (rtc_get s 0xc) 0x20 \<or> (\<exists>t. unat old < t \<and> t \<le> unat new \<and> alarm_match s t)"
    using U(4) [where m = "0x20"] set_irqflags_C(1) [OF U(1), of "0x20"] by (simp add: s2 flag_or) (auto simp: flag_def)
qed

section \<open>Properties\<close>

text \<open>Claim C22. \<^verbatim>\<open>next_alarm\<close> is exact: if some time of day matches the alarm registers (with
  wildcards in any combination of hour, minute and second, in BCD or binary, 12 or 24 hour
  format), then the result is the first matching second after the given time; if no time
  matches, the result is the \<^verbatim>\<open>~0ull\<close> that means never.\<close>

theorem rtc_next_alarm_exact:
  assumes "unat seconds < 2 ^ 63"
  shows "if \<exists>t. alarm_match s t
    then unat seconds < unat (next_alarm seconds s) \<and> alarm_match s (unat (next_alarm seconds s))
      \<and> (\<forall>t. unat seconds < t \<and> t < unat (next_alarm seconds s) \<longrightarrow> \<not> alarm_match s t)
    else next_alarm seconds s = NOT 0"
  using next_alarm_first [OF assms, of s]
  unfolding first_from_def Suc_eq_plus1 [symmetric] Suc_le_eq by (cases "\<exists>t. alarm_match s t") auto

theorem rtc_next_alarm_exact_witness:
  "unat (5 :: timevalue) < 2 ^ 63 \<and>
   (let s = (rtc_init 0 0x70 8)\<lparr>rtc_ram := (replicate 128 0)[0xb := 6, 3 := 30, 5 := 0xc0]\<rparr>
    in alarm_match s 1800 \<and> alarm_match s (unat (next_alarm 5 s)) \<and> 5 < unat (next_alarm 5 s))"
proof -
  let ?s = "(rtc_init 0 0x70 8)\<lparr>rtc_ram := (replicate 128 0)[0xb := 6, 3 := 30, 5 := 0xc0]\<rparr>"
  have "alarm_match ?s 1800" by code_simp
  then show ?thesis using rtc_next_alarm_exact [of 5 ?s] by (auto simp: Let_def split: if_splits)
qed

text \<open>Claim C23. The time in the CMOS RAM: whatever format the registers select (BCD or binary,
  12 or 24 hours), after \<^verbatim>\<open>update_ram\<close> has stored a time, \<^verbatim>\<open>get_ram_time\<close> reads the same time
  back.\<close>

theorem rtc_time_roundtrip:
  assumes "length (rtc_ram s) = 128" "unat seconds < 2 ^ 37"
  shows "get_ram_time (fst (update_ram seconds s)) = Inr seconds"
  using assms by (rule update_ram_time)

theorem rtc_time_roundtrip_witness:
  "length (rtc_ram (rtc_init 0 0x70 8)) = 128 \<and> unat (1330520400 :: timevalue) < 2 ^ 37
    \<and> get_ram_time (fst (update_ram 1330520400 (rtc_init 0 0x70 8))) = Inr 1330520400"
proof -
  have l: "length (rtc_ram (rtc_init 0 0x70 8)) = 128" by (simp add: rtc_init_def)
  show ?thesis using l rtc_time_roundtrip [OF l, of 1330520400] by simp
qed

text \<open>Claim C24. The clock keeps time: an update cycle of a running clock that crosses seconds
  advances the time in the RAM by exactly the elapsed seconds, sets the update-ended flag,
  and sets the alarm flag exactly if it was set before or an alarm time lies between the
  old and the new time.\<close>

theorem rtc_update_cycle_exact:
  assumes l: "length (rtc_ram s) = 128" and run: "rtc_get s 0xa AND 0x60 \<noteq> 0x60" "flag (NOT (rtc_get s 0xb)) 0x80"
    and cross: "now div 32768 \<noteq> rtc_last s div 32768" and old: "get_ram_time s = Inr old"
    and b: "unat old < 2 ^ 37" "unat (old + now div 32768 - rtc_last s div 32768) < 2 ^ 37"
  shows "\<exists>f s' ms. update_cycle now s = Inr (f, s', ms) \<and> get_ram_time s' = Inr (old + now div 32768 - rtc_last s div 32768)
    \<and> rtc_last s' = now \<and> flag (rtc_get s' 0xc) 0x10
    \<and> (flag (rtc_get s' 0xc) 0x20 \<longleftrightarrow> flag (rtc_get s 0xc) 0x20
        \<or> (\<exists>t. unat old < t \<and> t \<le> unat (old + now div 32768 - rtc_last s div 32768) \<and> alarm_match s t))"
proof -
  define new where "new = old + now div 32768 - rtc_last s div 32768"
  let ?tics = "get_periodic_tics s" and ?fn = "ucast (now mod 32768) :: u32" and ?fl = "ucast (rtc_last s mod 32768) :: u32"
  define p where "p = (if ?tics \<noteq> 0 \<and> (?fn - ?tics div 2) div ?tics \<noteq> (?fl - ?tics div 2) div ?tics
                         then set_irqflags (rtc_get s 0xc OR 0x40) s else (s, []))"
  obtain s0 ms0 where s0: "p = (s0, ms0)" by fastforce
  have f0: "s0 = s \<or> s0 = fst (set_irqflags (rtc_get s 0xc OR 0x40) s)" using s0 by (auto simp: p_def split: if_splits)
  have keep: "length (rtc_ram s0) = 128" "rtc_last s0 = rtc_last s" "\<And>i. i \<noteq> 0xc \<Longrightarrow> rtc_get s0 i = rtc_get s i"
      "flag (rtc_get s0 0xc) 0x20 = flag (rtc_get s 0xc) 0x20"
    using f0 l set_irqflags_C [OF l, of "0x20"] set_irqflags_get [OF l] by (auto simp: flag_or) (auto simp: flag_def)
  have old0: "get_ram_time s0 = Inr old" using old get_ram_time_cong [of s0 s] keep(3) by simp
  obtain s1 ms1 where s1: "update_ram new s0 = (s1, ms1)" by fastforce
  obtain s2 ms2 where s2: "(if next_alarm old s1 \<le> new then set_irqflags (rtc_get s1 0xc OR 0x20) s1 else (s1, [])) = (s2, ms2)"
    by fastforce
  note C = cross_second [OF keep(1) b(1) b(2) [folded new_def] s1 s2]
  have c0: "flag (NOT (rtc_get s0 0xb)) 0x80" using run keep(3) by simp
  have "update_cycle now s = Inr (?fn, s2\<lparr>rtc_last := now\<rparr>, ms0 @ ms1 @ ms2)"
    unfolding update_cycle_def Let_def if_not_P [OF run(1)] p_def [symmetric] s0 prod.case
    using c0 cross old0 s1 s2 by (simp add: keep(2) new_def)
  moreover have "get_ram_time (s2\<lparr>rtc_last := now\<rparr>) = Inr new"
    using C(1) get_ram_time_cong [of "s2\<lparr>rtc_last := now\<rparr>" s2] by (simp add: rtc_get_def)
  moreover have "rtc_get (s2\<lparr>rtc_last := now\<rparr>) 0xc = rtc_get s2 0xc" by (simp add: rtc_get_def)
  moreover have "alarm_match s0 = alarm_match s" by (rule alarm_fields_cong) (use keep(3) in auto)
  ultimately show ?thesis using C(3,4) keep(4) unfolding new_def [symmetric] by auto
qed

theorem rtc_update_cycle_exact_witness:
  "let s0 = (rtc_init 0 0x70 8)\<lparr>rtc_ram := (replicate 128 0)[0xa := 0x26, 0xb := 2]\<rparr>;
       s = fst (update_ram 1000000000 s0)
   in \<exists>f s' ms. update_cycle 98304 s = Inr (f, s', ms) \<and> get_ram_time s' = Inr 1000000003"
proof -
  define s0 where "s0 = (rtc_init 0 0x70 8)\<lparr>rtc_ram := (replicate 128 0)[0xa := 0x26, 0xb := 2]\<rparr>"
  define s where "s = fst (update_ram 1000000000 s0)"
  have l: "length (rtc_ram s0) = 128" by (simp add: s0_def)
  have g: "rtc_get s0 0xa = 0x26" "rtc_get s0 0xb = 2" "rtc_last s0 = 0"
    by (simp_all add: s0_def rtc_get_def rtc_init_def)
  note K = update_ram_keeps [OF l, where seconds = 1000000000, folded s_def]
  have "\<exists>f s' ms. update_cycle 98304 s = Inr (f, s', ms)
      \<and> get_ram_time s' = Inr (1000000000 + 98304 div 32768 - rtc_last s div 32768)"
    using rtc_update_cycle_exact [of s 98304 1000000000] K update_ram_time [OF l, of 1000000000] g
    by (simp add: s_def [symmetric] flag_def) blast
  then show ?thesis using K(2) g by (simp add: Let_def s_def [symmetric] s0_def [symmetric])
qed

end
