(* ===== verification/Pit8254.thy ===== *)
theory Pit8254
  imports Date Bus
begin

text \<open>
  The interval timer of \<^verbatim>\<open>apps/vancouver/model/pit8254.cc\<close>: three counters with their modes,
  gates, latches and read/write sequencing. An operation may read \<^verbatim>\<open>_clock.time(FREQ)\<close> several
  times; \<^verbatim>\<open>T k\<close> is the value at the \<^verbatim>\<open>k\<close>-th such place of the operation, nested calls get the
  places from an offset on. The time stamp counter read by \<^verbatim>\<open>_clock.source_time\<close> and the clock
  are further arguments. An access outside the feature table, a division by zero and an
  overflow of \<^verbatim>\<open>long long\<close> are undefined.
\<close>

section \<open>A counter\<close>

datatype pit_feature = FPERIODIC | FSOFTWARE_TRIGGER | FGATE_DISABLE_COUNTING | FSQUARE_WAVE | FCOUNTDOWN

record pitc =
  modus :: u16
  latch :: u16
  new_counter :: u16
  initial :: u32
  latched_status :: u8
  read_low :: bool
  wrote_low :: bool
  stopped :: bool
  stopped_out :: bool
  gate :: bool
  lstatus :: bool
  latched :: "2 word"
  start :: timevalue
  pit_irq :: u32
  pit_timer :: u32

datatype pit_msg = PitTimer u32 timevalue | PitIrq irq_type u8

type_synonym times = "nat \<Rightarrow> timevalue"

definition PIT_FREQ :: timevalue where "PIT_FREQ = 1193180"

definition BCD :: u16 where "BCD = 0x001"
definition RW_LOW :: u16 where "RW_LOW = 0x010"
definition RW_HIGH :: u16 where "RW_HIGH = 0x020"
definition NULL_COUNT :: u16 where "NULL_COUNT = 0x040"

definition from_place :: "nat \<Rightarrow> times \<Rightarrow> times" where
  "from_place k T = (\<lambda>i. T (k + i))"

definition pit_features :: "pit_feature list list" where
  "pit_features =
     [[FCOUNTDOWN, FSOFTWARE_TRIGGER, FGATE_DISABLE_COUNTING],
      [FCOUNTDOWN],
      [FPERIODIC, FGATE_DISABLE_COUNTING],
      [FPERIODIC, FGATE_DISABLE_COUNTING, FSQUARE_WAVE],
      [FSOFTWARE_TRIGGER, FGATE_DISABLE_COUNTING],
      []]"

definition pit_mode :: "pitc \<Rightarrow> nat" where
  "pit_mode s = unat (drop_bit 1 (modus s) AND 7)"

definition feature :: "pit_feature list \<Rightarrow> pitc \<Rightarrow> bool res" where
  "feature fs s = (if pit_mode s < 6 then Inr (set fs \<subseteq> set (pit_features ! pit_mode s)) else Inl Undefined)"

definition s2bcd :: "pitc \<Rightarrow> u16 \<Rightarrow> u16" where
  "s2bcd s v = (if flag (modus s) BCD
     then push_bit 12 (v div 1000 mod 10) + push_bit 8 (v div 100 mod 10) + push_bit 4 (v div 10 mod 10) + v mod 10
     else v)"

definition bcd2s :: "pitc \<Rightarrow> u16 \<Rightarrow> u16" where
  "bcd2s s v = (if flag (modus s) BCD
     then drop_bit 12 (v AND 0xf000) * 1000 + drop_bit 8 (v AND 0xf00) * 100 + drop_bit 4 (v AND 0xf0) * 10 + (v AND 0xf)
     else v)"

definition load_counter :: "pitc \<Rightarrow> pitc" where
  "load_counter s = s\<lparr>initial := (if new_counter s \<noteq> 0 then ucast (new_counter s) else 65536),
                      modus := modus s AND NOT NULL_COUNT\<rparr>"

text \<open>The old value is still visible in the tick in which the counter was loaded.\<close>

definition at_load :: "timevalue \<Rightarrow> pitc \<Rightarrow> bool" where
  "at_load t s \<longleftrightarrow> start s - ucast (initial s) - 1 = t"

definition fits_long :: "int \<Rightarrow> bool" where
  "fits_long x \<longleftrightarrow> - (2 ^ 63) \<le> x \<and> x < 2 ^ 63"

definition get_counter :: "times \<Rightarrow> pitc \<Rightarrow> (u16 \<times> pitc) res" where
  "get_counter T s =
     (if stopped s then Inr (latch s, s)
      else let res = sint (start s - T 0);
               res = (if flag (modus s) BCD then res smod 10000 else res)
           in if at_load (T 1) s then Inr (latch s, s)
              else let s = (if res \<le> 0 then load_counter s else s) in
                bindR (feature [FPERIODIC] s) (\<lambda>p.
                bindR (feature [FSQUARE_WAVE] s) (\<lambda>q.
                bindR (if p \<and> res \<le> 0
                       then (if initial s = 0 then Inl Undefined else Inr (uint (initial s) + res smod uint (initial s)))
                       else Inr res) (\<lambda>res.
                bindR (if q
                       then (if initial s + 1 = 0 \<or> \<not> fits_long (res * 2) then Inl Undefined
                             else Inr ((res * 2 smod uint (initial s + 1) + uint (NOT (initial s) AND 1)) AND NOT 1))
                       else Inr res) (\<lambda>res.
                let res = (if flag (modus s) BCD then 10000 + res smod 10000 else res)
                in Inr (of_int res, s))))))"

text \<open>\<^verbatim>\<open>get_out\<close> uses the places 0 to 3.\<close>

definition get_out :: "times \<Rightarrow> pitc \<Rightarrow> (bool \<times> pitc) res" where
  "get_out T s =
     (if stopped s \<or> at_load (T 0) s then Inr (stopped_out s, s)
      else bindR (feature [FCOUNTDOWN] s) (\<lambda>cd.
           bindR (feature [FPERIODIC] s) (\<lambda>p.
           bindR (feature [FSQUARE_WAVE] s) (\<lambda>sq.
             if cd then Inr (T 1 \<ge> start s, s)
             else if p \<and> \<not> sq then bindR (get_counter (from_place 2 T) s) (\<lambda>(c, s). Inr (c \<noteq> 1, s))
             else if p then (if initial s = 0 then Inl Undefined
                             else Inr ((T 1 - start s + ucast (initial s)) mod ucast (initial s) * 2 < ucast (initial s), s))
             else Inr (T 1 \<noteq> start s, s)))))"

definition disable_counting :: "times \<Rightarrow> pitc \<Rightarrow> pitc res" where
  "disable_counting T s =
     bindR (get_counter T s) (\<lambda>(c, s).
     let s = s\<lparr>latch := c\<rparr> in
     bindR (feature [FPERIODIC] s) (\<lambda>p.
     bindR (if p then Inr (True, s) else get_out (from_place 2 T) s) (\<lambda>(b, s).
       Inr (s\<lparr>stopped_out := b, start := T 6, stopped := True\<rparr>))))"

text \<open>The time of the next timeout in ticks, and the timer request.\<close>

definition timeout_ticks :: "timevalue \<Rightarrow> pitc \<Rightarrow> timevalue res" where
  "timeout_ticks t s =
     bindR (feature [FPERIODIC] s) (\<lambda>p.
       if p then (if initial s = 0 then Inl Undefined
                  else Inr (t + (ucast (initial s) + start s - t) mod ucast (initial s)))
       else Inr (start s))"

definition update_timer :: "clock \<Rightarrow> timevalue \<Rightarrow> timevalue \<Rightarrow> pitc \<Rightarrow> pit_msg list res" where
  "update_timer c tsc t s =
     (if pit_irq s = NOT 0 then Inr []
      else bindR (timeout_ticks t s) (\<lambda>to.
           bindR (source_time c tsc (if to < t then 0 else to - t) PIT_FREQ) (\<lambda>abs.
             Inr [PitTimer (pit_timer s) abs])))"

definition reload_counter :: "clock \<Rightarrow> timevalue \<Rightarrow> times \<Rightarrow> pitc \<Rightarrow> (pitc \<times> pit_msg list) res" where
  "reload_counter c tsc T s =
     bindR (get_counter T s) (\<lambda>(v, s).
     let s = s\<lparr>latch := v\<rparr> in
     bindR (if modus s AND 0xe \<noteq> 0 then get_out (from_place 2 T) s else Inr (False, s)) (\<lambda>(b, s).
     let s = load_counter (s\<lparr>stopped_out := b, stopped := False, start := T 6 + ucast (new_counter s) + 1\<rparr>) in
     bindR (update_timer c tsc (T 7) s) (\<lambda>ms. Inr (s, ms))))"

definition read_back :: "times \<Rightarrow> u8 \<Rightarrow> pitc \<Rightarrow> pitc res" where
  "read_back T v s =
     bindR (get_counter T s) (\<lambda>(counter, s).
     bindR (if \<not> flag v 0x20 \<and> \<not> lstatus s
            then bindR (get_out (from_place 2 T) s) (\<lambda>(b, s).
                   Inr (s\<lparr>latched_status := ucast (modus s AND 0x7f) OR (if b then 0x80 else 0), lstatus := True\<rparr>))
            else Inr s) (\<lambda>s.
       if \<not> flag v 0x10 \<and> latched s = 0
       then Inr (s\<lparr>latch := counter, latched := ucast ((modus s AND (RW_LOW OR RW_HIGH)) div RW_LOW)\<rparr>)
       else Inr s))"

definition set_modus :: "times \<Rightarrow> u8 \<Rightarrow> pitc \<Rightarrow> pitc res" where
  "set_modus T m s =
     (if flag m 0x30
      then (if m AND 0xe \<le> 10
            then bindR (disable_counting T (s\<lparr>modus := (modus s AND NOT 0x3f) OR (ucast m AND 0x3f) OR NULL_COUNT,
                                              start := 0\<rparr>)) (\<lambda>s.
                   Inr (s\<lparr>stopped_out := (modus s AND 0xe \<noteq> 0), wrote_low := False, read_low := False,
                          lstatus := False, latched := 0\<rparr>))
            else Inr s)
      else read_back T 0x20 s)"

definition set_gate :: "clock \<Rightarrow> timevalue \<Rightarrow> times \<Rightarrow> u8 \<Rightarrow> pitc \<Rightarrow> (pitc \<times> pit_msg list) res" where
  "set_gate c tsc T v s =
     (if v = (if gate s then 1 else 0) then Inr (s, [])
      else let s = s\<lparr>gate := flag v 1\<rparr> in
       bindR (feature [FGATE_DISABLE_COUNTING] s) (\<lambda>g.
       bindR (if v = 0 \<and> g then disable_counting T s else Inr s) (\<lambda>s.
         if v = 0 then Inr (s, [])
         else bindR (get_out (from_place 7 T) s) (\<lambda>(b, s).
              let s = s\<lparr>stopped_out := b\<rparr> in
              bindR (feature [FSOFTWARE_TRIGGER] s) (\<lambda>sw.
                if \<not> sw then reload_counter c tsc (from_place 11 T) s
                else if stopped s
                then (let s = s\<lparr>initial := (if latch s \<noteq> 0 then ucast (latch s) else 65536)\<rparr>
                      in Inr (s\<lparr>start := T 11 + ucast (initial s) + 1, stopped := False\<rparr>, []))
                else Inr (s, []))))))"

definition pit_read :: "times \<Rightarrow> pitc \<Rightarrow> (u8 \<times> pitc) res" where
  "pit_read T s =
     (let lo = (\<lambda>v. ucast (s2bcd s v AND 0xff) :: u8); hi = (\<lambda>v. ucast (drop_bit 8 (s2bcd s v) AND 0xff) :: u8)
      in if lstatus s then Inr (latched_status s, s\<lparr>lstatus := False\<rparr>)
         else if flag (latched s) 1 then Inr (lo (latch s), s\<lparr>latched := latched s - 1\<rparr>)
         else if flag (latched s) 2 then Inr (hi (latch s), s\<lparr>latched := 0\<rparr>)
         else bindR (get_counter T s) (\<lambda>(c, s').
           if read_low s then Inr (ucast (drop_bit 8 (s2bcd s' c) AND 0xff), s'\<lparr>read_low := False\<rparr>)
           else let v = (if flag (modus s) RW_LOW then ucast (s2bcd s' c AND 0xff)
                         else ucast (drop_bit 8 (s2bcd s' c) AND 0xff))
                in Inr (v, if modus s' AND (RW_LOW OR RW_HIGH) = RW_LOW OR RW_HIGH then s'\<lparr>read_low := True\<rparr> else s')))"

text \<open>The end of \<^verbatim>\<open>write\<close>, after the new counter value is complete.\<close>

definition write_done :: "clock \<Rightarrow> timevalue \<Rightarrow> times \<Rightarrow> pitc \<Rightarrow> (pitc \<times> pit_msg list) res" where
  "write_done c tsc T s =
     (let s = s\<lparr>modus := modus s OR NULL_COUNT\<rparr> in
      bindR (feature [FSOFTWARE_TRIGGER] s) (\<lambda>sw.
      bindR (feature [FPERIODIC] s) (\<lambda>p.
        if sw then (if gate s then reload_counter c tsc T s else Inr (s\<lparr>latch := new_counter s\<rparr>, []))
        else if p \<and> gate s
        then (if stopped s then reload_counter c tsc T s
              else bindR (get_counter T s) (\<lambda>(v, s). Inr (s\<lparr>start := T 2 + ucast v\<rparr>, [])))
        else Inr (s, []))))"

definition pit_write :: "clock \<Rightarrow> timevalue \<Rightarrow> times \<Rightarrow> u8 \<Rightarrow> pitc \<Rightarrow> (pitc \<times> pit_msg list) res" where
  "pit_write c tsc T v s =
     (if wrote_low s
      then write_done c tsc T (s\<lparr>wrote_low := False,
             new_counter := (new_counter s AND 0xff) + bcd2s s (push_bit 8 (ucast v))\<rparr>)
      else if flag (modus s) RW_LOW
      then (if flag (modus s) RW_HIGH
            then (let s = s\<lparr>wrote_low := True\<rparr> in
                  bindR (feature [FSOFTWARE_TRIGGER, FCOUNTDOWN] s) (\<lambda>f.
                  bindR (if f then get_out T s else Inr (True, s)) (\<lambda>(b, s).
                  bindR (if f \<and> \<not> b then disable_counting (from_place 4 T) s else Inr s) (\<lambda>s.
                    Inr (s\<lparr>new_counter := bcd2s s (ucast v) AND 0xff\<rparr>, [])))))
            else write_done c tsc T (s\<lparr>new_counter := bcd2s s (ucast v) AND 0xff\<rparr>))
      else write_done c tsc T (s\<lparr>new_counter := bcd2s s (push_bit 8 (ucast v))\<rparr>))"

definition pitc_receive_notify :: "clock \<Rightarrow> timevalue \<Rightarrow> timevalue \<Rightarrow> u8 \<Rightarrow> u8 \<Rightarrow> pitc \<Rightarrow> (bool \<times> pit_msg list) res" where
  "pitc_receive_notify c tsc t baseirq msk s =
     (if ucast baseirq \<noteq> pit_irq s AND NOT 7 \<or> \<not> flag (ucast msk) (push_bit (unat (pit_irq s AND 7)) 1 :: u32)
      then Inr (False, [])
      else bindR (feature [FPERIODIC] s) (\<lambda>p.
           bindR (if p then update_timer c tsc t s else Inr []) (\<lambda>ms. Inr (True, ms))))"

definition pitc_receive_timeout :: "u32 \<Rightarrow> pitc \<Rightarrow> bool \<times> pit_msg list" where
  "pitc_receive_timeout nr s =
     (if nr = pit_timer s then (True, [PitIrq ASSERT_NOTIFY (ucast (pit_irq s))]) else (False, []))"

text \<open>A new counter. \<^verbatim>\<open>timer\<close> is the number that the timer bus assigns to a counter with an
  interrupt. The constructor does not initialise the bit fields, they keep the content of
  the memory \<^verbatim>\<open>junk\<close>.\<close>

definition pitc_init :: "u32 \<Rightarrow> u32 \<Rightarrow> pitc \<Rightarrow> pitc" where
  "pitc_init irq timer junk =
     junk\<lparr>modus := 0, latch := 0, new_counter := 0, initial := 0, latched_status := 0, start := 0,
          pit_irq := irq, pit_timer := (if irq \<noteq> NOT 0 then timer else 0)\<rparr>"

section \<open>The device\<close>

record pitdev =
  pit_base :: u16
  pit_addr :: u32
  pit_c :: "pitc list"

datatype pit_type = GET_OUT | SET_GATE

definition pit_get :: "pitdev \<Rightarrow> nat \<Rightarrow> pitc res" where
  "pit_get d i = (if i < length (pit_c d) then Inr (pit_c d ! i) else Inl Undefined)"

definition pit_put :: "nat \<Rightarrow> pitc \<Rightarrow> pitdev \<Rightarrow> pitdev" where
  "pit_put i s d = d\<lparr>pit_c := (pit_c d)[i := s]\<rparr>"

definition pit_receive_pit ::
    "clock \<Rightarrow> timevalue \<Rightarrow> times \<Rightarrow> pit_type \<Rightarrow> u32 \<Rightarrow> u8 \<Rightarrow> pitdev \<Rightarrow> (u8 option \<times> pitdev \<times> pit_msg list) res" where
  "pit_receive_pit c tsc T ty pit v d =
     (if \<not> bus_in_range (ucast pit) (ucast (pit_addr d)) 3 then Inr (None, d, [])
      else let i = unat (pit - pit_addr d) in
       bindR (pit_get d i) (\<lambda>s.
         case ty of
           GET_OUT \<Rightarrow> bindR (get_out T s) (\<lambda>(b, s). Inr (Some (if b then 1 else 0), pit_put i s d, []))
         | SET_GATE \<Rightarrow> bindR (set_gate c tsc T v s) (\<lambda>(s, ms). Inr (Some v, pit_put i s d, ms))))"

definition pit_receive_in :: "times \<Rightarrow> io_in \<Rightarrow> pitdev \<Rightarrow> (io_in option \<times> pitdev) res" where
  "pit_receive_in T m d =
     (if \<not> bus_in_range (ucast (in_port m)) (ucast (pit_base d)) 3 \<or> in_type m \<noteq> TYPE_B then Inr (None, d)
      else let i = unat (in_port m - pit_base d) in
       bindR (pit_get d i) (\<lambda>s. bindR (pit_read T s) (\<lambda>(v, s).
         Inr (Some (m\<lparr>in_value := ucast v\<rparr>), pit_put i s d))))"

fun pit_read_backs :: "times \<Rightarrow> u8 \<Rightarrow> nat list \<Rightarrow> pitdev \<Rightarrow> pitdev res" where
  "pit_read_backs T v [] d = Inr d"
| "pit_read_backs T v (i # is) d =
     (if flag v (push_bit (i + 1) 1)
      then bindR (pit_get d i) (\<lambda>s. bindR (read_back (from_place (6 * i) T) v s) (\<lambda>s.
             pit_read_backs T v is (pit_put i s d)))
      else pit_read_backs T v is d)"

definition pit_receive_out ::
    "clock \<Rightarrow> timevalue \<Rightarrow> times \<Rightarrow> io_out \<Rightarrow> pitdev \<Rightarrow> (bool \<times> pitdev \<times> pit_msg list) res" where
  "pit_receive_out c tsc T m d =
     (let v = (ucast (out_value m) :: u8)
      in if \<not> bus_in_range (ucast (out_port m)) (ucast (pit_base d)) 4 \<or> out_type m \<noteq> TYPE_B then Inr (False, d, [])
         else if (ucast (out_port m) :: u32) = ucast (pit_base d) + 3
         then (if v AND 0xc0 = 0xc0
               then bindR (pit_read_backs T v [0, 1, 2] d) (\<lambda>d. Inr (True, d, []))
               else let i = unat (drop_bit 6 v AND 3) in
                 bindR (pit_get d i) (\<lambda>s. bindR (set_modus T v s) (\<lambda>s. Inr (True, pit_put i s d, []))))
         else let i = unat (out_port m - pit_base d) in
           bindR (pit_get d i) (\<lambda>s. bindR (pit_write c tsc T v s) (\<lambda>(s, ms). Inr (True, pit_put i s d, ms))))"

text \<open>The constructor builds the three counters, only the first with an interrupt, and opens
  their gates.\<close>

fun pit_build :: "clock \<Rightarrow> timevalue \<Rightarrow> times \<Rightarrow> u32 \<Rightarrow> u32 \<Rightarrow> (nat \<Rightarrow> pitc) \<Rightarrow> nat list \<Rightarrow> (pitc list \<times> pit_msg list) res" where
  "pit_build c tsc T irq timer junk [] = Inr ([], [])"
| "pit_build c tsc T irq timer junk (i # is) =
     bindR (set_gate c tsc (from_place (20 * i) T) 1 (pitc_init (if i \<noteq> 0 then NOT 0 else irq) timer (junk i))) (\<lambda>(s, ms).
     bindR (pit_build c tsc T irq timer junk is) (\<lambda>(cs, ms'). Inr (s # cs, ms @ ms')))"

definition pit_init :: "clock \<Rightarrow> timevalue \<Rightarrow> times \<Rightarrow> u16 \<Rightarrow> u32 \<Rightarrow> u32 \<Rightarrow> u32 \<Rightarrow> (nat \<Rightarrow> pitc) \<Rightarrow> (pitdev \<times> pit_msg list) res" where
  "pit_init c tsc T base irq pit timer junk =
     bindR (pit_build c tsc T irq timer junk [0, 1, 2]) (\<lambda>(cs, ms).
       Inr (\<lparr>pit_base = base, pit_addr = pit * 3, pit_c = cs\<rparr>, ms))"

section \<open>Invariant\<close>

text \<open>The mode is in the feature table, a running periodic counter has a period, and the
  expiry time of the counter is at most one full count after the time \<^verbatim>\<open>t\<close> of the last
  operation.\<close>

definition pitc_inv :: "nat \<Rightarrow> pitc \<Rightarrow> bool" where
  "pitc_inv t s \<longleftrightarrow> pit_mode s < 6 \<and> unat (initial s) \<le> 65536 \<and> unat (start s) \<le> t + 65537
     \<and> (stopped s \<or> initial s \<noteq> 0 \<or> pit_mode s \<noteq> 2 \<and> pit_mode s \<noteq> 3)"

definition pit_inv :: "nat \<Rightarrow> pitdev \<Rightarrow> bool" where
  "pit_inv t d \<longleftrightarrow> length (pit_c d) = 3 \<and> (\<forall>s \<in> set (pit_c d). pitc_inv t s)"

text \<open>Time readings between two points of time.\<close>

definition within :: "nat \<Rightarrow> times \<Rightarrow> nat \<Rightarrow> bool" where
  "within t T t' \<longleftrightarrow> (\<forall>i. t \<le> unat (T i) \<and> unat (T i) \<le> t')"

inductive pit_reach :: "nat \<Rightarrow> pitdev \<Rightarrow> bool" where
  reach_init: "pit_init c tsc T base irq pit timer junk = Inr (d, ms) \<Longrightarrow> within 0 T t \<Longrightarrow> t < 2 ^ 61 \<Longrightarrow> pit_reach t d"
| reach_in: "pit_reach t d \<Longrightarrow> within t T t' \<Longrightarrow> t' < 2 ^ 61 \<Longrightarrow> pit_receive_in T m d = Inr (r, d') \<Longrightarrow> pit_reach t' d'"
| reach_out: "pit_reach t d \<Longrightarrow> within t T t' \<Longrightarrow> t' < 2 ^ 61 \<Longrightarrow> pit_receive_out c tsc T m' d = Inr (b, d', ms) \<Longrightarrow> pit_reach t' d'"
| reach_pit: "pit_reach t d \<Longrightarrow> within t T t' \<Longrightarrow> t' < 2 ^ 61 \<Longrightarrow> pit_receive_pit c tsc T ty pit v d = Inr (r', d', ms) \<Longrightarrow> pit_reach t' d'"

section \<open>Modes and time differences\<close>

lemma pit_mode_and: "pit_mode s = unat (drop_bit 1 (modus s AND 0xe))"
proof -
  have "drop_bit 1 (modus s AND 0xe) = drop_bit 1 (modus s) AND 7"
    by (simp add: drop_bit_and)
  then show ?thesis by (simp add: pit_mode_def)
qed

lemma pit_mode_cong: "modus s AND 0xe = modus s' AND 0xe \<Longrightarrow> pit_mode s = pit_mode s'"
  by (simp add: pit_mode_and)

lemma pit_mode_load [simp]: "pit_mode (load_counter s) = pit_mode s"
  by (rule pit_mode_cong) (simp add: load_counter_def NULL_COUNT_def and.assoc)

lemma pit_mode_null [simp]: "pit_mode (s\<lparr>modus := modus s OR NULL_COUNT\<rparr>) = pit_mode s"
  by (rule pit_mode_cong) (simp add: NULL_COUNT_def bit.conj_disj_distrib2)

lemma pit_mode_fields [simp]:
  "pit_mode (s\<lparr>latch := a\<rparr>) = pit_mode s" "pit_mode (s\<lparr>new_counter := a\<rparr>) = pit_mode s"
  "pit_mode (s\<lparr>initial := b\<rparr>) = pit_mode s" "pit_mode (s\<lparr>stopped := x\<rparr>) = pit_mode s"
  "pit_mode (s\<lparr>stopped_out := x\<rparr>) = pit_mode s" "pit_mode (s\<lparr>start := y\<rparr>) = pit_mode s"
  "pit_mode (s\<lparr>gate := x\<rparr>) = pit_mode s" "pit_mode (s\<lparr>wrote_low := x\<rparr>) = pit_mode s"
  "pit_mode (s\<lparr>read_low := x\<rparr>) = pit_mode s" "pit_mode (s\<lparr>lstatus := x\<rparr>) = pit_mode s"
  "pit_mode (s\<lparr>latched := z\<rparr>) = pit_mode s" "pit_mode (s\<lparr>latched_status := w\<rparr>) = pit_mode s"
  by (simp_all add: pit_mode_def)

lemma feature_ok: "pit_mode s < 6 \<Longrightarrow> feature fs s = Inr (set fs \<subseteq> set (pit_features ! pit_mode s))"
  by (simp add: feature_def)

lemma feature_iff:
  assumes "pit_mode s < 6"
  shows "feature [FPERIODIC] s = Inr (pit_mode s = 2 \<or> pit_mode s = 3)"
    "feature [FSQUARE_WAVE] s = Inr (pit_mode s = 3)"
    "feature [FCOUNTDOWN] s = Inr (pit_mode s = 0 \<or> pit_mode s = 1)"
    "feature [FSOFTWARE_TRIGGER] s = Inr (pit_mode s = 0 \<or> pit_mode s = 4)"
    "feature [FGATE_DISABLE_COUNTING] s = Inr (pit_mode s \<noteq> 1 \<and> pit_mode s \<noteq> 5)"
    "feature [FSOFTWARE_TRIGGER, FCOUNTDOWN] s = Inr (pit_mode s = 0)"
proof -
  have "pit_mode s = 0 \<or> pit_mode s = 1 \<or> pit_mode s = 2 \<or> pit_mode s = 3 \<or> pit_mode s = 4 \<or> pit_mode s = 5"
    using assms by presburger
  then show "feature [FPERIODIC] s = Inr (pit_mode s = 2 \<or> pit_mode s = 3)"
    "feature [FSQUARE_WAVE] s = Inr (pit_mode s = 3)"
    "feature [FCOUNTDOWN] s = Inr (pit_mode s = 0 \<or> pit_mode s = 1)"
    "feature [FSOFTWARE_TRIGGER] s = Inr (pit_mode s = 0 \<or> pit_mode s = 4)"
    "feature [FGATE_DISABLE_COUNTING] s = Inr (pit_mode s \<noteq> 1 \<and> pit_mode s \<noteq> 5)"
    "feature [FSOFTWARE_TRIGGER, FCOUNTDOWN] s = Inr (pit_mode s = 0)"
    by (auto simp: feature_def pit_features_def)
qed

lemma sint_diff:
  fixes a b :: u64
  assumes "unat a < 2 ^ 62" "unat b < 2 ^ 62"
  shows "sint (a - b) = int (unat a) - int (unat b)"
proof -
  have "a - b = of_int (int (unat a) - int (unat b))" by simp
  then have "sint (a - b) = signed_take_bit 63 (int (unat a) - int (unat b))"
    using signed_of_int [where 'a = int and 'b = 64, of "int (unat a) - int (unat b)"] by simp
  moreover have "signed_take_bit 63 (int x - int y) = int x - int y" if "x < 2 ^ 62" "y < 2 ^ 62" for x y
    using that by (intro signed_take_bit_int_eq_self) auto
  ultimately show ?thesis using assms by metis
qed

lemma smod_bounds:
  fixes a b :: int
  assumes "0 < b"
  shows "- b < a smod b" "a smod b < b" "a \<le> 0 \<Longrightarrow> a smod b \<le> 0"
proof -
  have r: "0 \<le> \<bar>a\<bar> mod b" "\<bar>a\<bar> mod b < b" using assms by simp_all
  have "a smod b = \<bar>a\<bar> mod b \<or> a smod b = - (\<bar>a\<bar> mod b)" "a \<le> 0 \<Longrightarrow> a smod b = - (\<bar>a\<bar> mod b)"
    using assms by (auto simp: smod_int_alt_def sgn_if)
  then show "- b < a smod b" "a smod b < b" "a \<le> 0 \<Longrightarrow> a smod b \<le> 0" using r assms by linarith+
qed

section \<open>The operations of a counter are defined\<close>

lemma load_counter_fields [simp]:
  "start (load_counter s) = start s" "stopped (load_counter s) = stopped s" "latch (load_counter s) = latch s"
  "stopped_out (load_counter s) = stopped_out s" "gate (load_counter s) = gate s"
  "new_counter (load_counter s) = new_counter s"
  by (simp_all add: load_counter_def)

lemma load_counter_initial: "initial (load_counter s) \<noteq> 0 \<and> unat (initial (load_counter s)) \<le> 65536"
proof -
  have "unat (ucast (x :: u16) :: u32) = unat x" for x using unat_bound [of x] by (simp add: unat_ucast)
  moreover have "unat (new_counter s) < 65536" using unat_bound [of "new_counter s"] by simp
  ultimately show ?thesis by (auto simp: load_counter_def unat_eq_0 [symmetric] simp del: unat_eq_0)
qed

text \<open>Reading the counter either keeps the state or loads the counter.\<close>

lemma get_counter_ok:
  assumes m: "pit_mode s < 6" and i: "unat (initial s) \<le> 65536" and st: "unat (start s) \<le> t + 65537"
    and T: "t \<le> unat (T 0)" "unat (T 0) < 2 ^ 61"
  shows "\<exists>c s'. get_counter T s = Inr (c, s') \<and> (s' = s \<or> s' = load_counter s)"
proof (cases "stopped s \<or> at_load (T 1) s")
  case True
  then show ?thesis by (auto simp: get_counter_def Let_def)
next
  case False
  define r where "r = (if flag (modus s) BCD then sint (start s - T 0) smod 10000 else sint (start s - T 0))"
  define s1 where "s1 = (if r \<le> 0 then load_counter s else s)"
  have "int (unat (start s)) - int (unat (T 0)) \<le> 65537" using st T(1) by linarith
  moreover have "unat (start s) < 2 ^ 62" "unat (T 0) < 2 ^ 62" using st T by simp_all
  ultimately have "sint (start s - T 0) \<le> 65537" using sint_diff [of "start s" "T 0"] by simp
  then have rb: "r \<le> 65537" using smod_bounds [of 10000 "sint (start s - T 0)"] by (simp add: r_def)
  have m1: "pit_mode s1 < 6" using m by (simp add: s1_def)
  have i1: "unat (initial s1) \<le> 65536" "r \<le> 0 \<Longrightarrow> initial s1 \<noteq> 0"
    using i load_counter_initial [of s] by (auto simp: s1_def)
  define r2 where "r2 = (if (pit_mode s1 = 2 \<or> pit_mode s1 = 3) \<and> r \<le> 0 then uint (initial s1) + r smod uint (initial s1) else r)"
  have "fits_long (r2 * 2)" if "pit_mode s1 = 3"
  proof (cases "r \<le> 0")
    case True
    define n where "n = unat (initial s1)"
    have n: "n \<le> 65536" "0 < n" "uint (initial s1) = int n"
      using i1 True by (simp_all add: n_def unat_gt_0)
    then show ?thesis using True that smod_bounds [of "int n" r] by (auto simp: r2_def fits_long_def)
  next
    case False
    then show ?thesis using rb by (simp add: r2_def fits_long_def)
  qed
  moreover have "initial s1 + 1 \<noteq> 0"
  proof -
    have "unat (initial s1 + 1) = unat (initial s1) + 1" using i1(1) by (simp add: unat_add_small)
    then show ?thesis by (metis Suc_eq_plus1 nat.simps(3) unat_0)
  qed
  ultimately obtain r3 where r3: "(if pit_mode s1 = 3
      then (if initial s1 + 1 = 0 \<or> \<not> fits_long (r2 * 2) then Inl Undefined
            else Inr ((r2 * 2 smod uint (initial s1 + 1) + uint (NOT (initial s1) AND 1)) AND NOT 1))
      else Inr r2) = Inr r3" by (cases "pit_mode s1 = 3") auto
  have e: "(if (pit_mode s1 = 2 \<or> pit_mode s1 = 3) \<and> r \<le> 0
      then (if initial s1 = 0 then Inl Undefined else Inr (uint (initial s1) + r smod uint (initial s1)))
      else Inr r) = Inr r2" using i1(2) by (auto simp: r2_def)
  have ns: "\<not> stopped s" "\<not> at_load (T 1) s" using False by auto
  have "\<exists>c. get_counter T s = Inr (c, s1)"
    unfolding get_counter_def Let_def r_def [symmetric] s1_def [symmetric] if_not_P [OF ns(1)] if_not_P [OF ns(2)]
      feature_iff [OF m1] bindR_simps e r3 by blast
  then show ?thesis by (auto simp: s1_def)
qed

lemma withinD: "within t T t' \<Longrightarrow> t' < 2 ^ 61 \<Longrightarrow> t \<le> unat (T i) \<and> unat (T i) < 2 ^ 61"
  by (auto simp: within_def intro: le_less_trans)

lemma within_from [intro]: "within t T t' \<Longrightarrow> within t (from_place k T) t'"
  by (simp add: within_def from_place_def)

lemma get_counter_inv:
  assumes "pitc_inv t s" "within t T t'" "t' < 2 ^ 61"
  shows "\<exists>c s'. get_counter T s = Inr (c, s') \<and> (s' = s \<or> s' = load_counter s)"
  using get_counter_ok [of s t T] assms withinD [OF assms(2,3)] by (auto simp: pitc_inv_def)

lemma pitc_inv_load: "pitc_inv t s \<Longrightarrow> pitc_inv t (load_counter s)"
  using load_counter_initial [of s] by (simp add: pitc_inv_def)

lemma pitc_inv_mono: "pitc_inv t s \<Longrightarrow> t \<le> t' \<Longrightarrow> pitc_inv t' s"
  by (auto simp: pitc_inv_def)

lemma get_out_ok:
  assumes "pit_mode s < 6" "unat (initial s) \<le> 65536" "unat (start s) \<le> t + 65537"
    and d: "pit_mode s = 3 \<Longrightarrow> stopped s \<or> initial s \<noteq> 0" and T: "within t T t'" "t' < 2 ^ 61"
  shows "\<exists>b s'. get_out T s = Inr (b, s') \<and> (s' = s \<or> s' = load_counter s)"
proof (cases "stopped s \<or> at_load (T 0) s")
  case True
  then show ?thesis by (auto simp: get_out_def)
next
  case False
  obtain c s' where g: "get_counter (from_place 2 T) s = Inr (c, s')" "s' = s \<or> s' = load_counter s"
    using get_counter_ok [of s t "from_place 2 T"] assms(1-3) withinD [OF within_from [OF T(1)] T(2)] by blast
  show ?thesis unfolding get_out_def if_not_P [OF False] feature_iff [OF assms(1)] bindR_simps
    using g d False by auto
qed

lemma get_out_inv:
  assumes "pitc_inv t s" "within t T t'" "t' < 2 ^ 61"
  shows "\<exists>b s'. get_out T s = Inr (b, s') \<and> (s' = s \<or> s' = load_counter s)"
  using get_out_ok [OF _ _ _ _ assms(2,3), of s] assms(1) by (auto simp: pitc_inv_def)

lemma disable_counting_ok:
  assumes "pit_mode s < 6" "unat (initial s) \<le> 65536" "unat (start s) \<le> t + 65537" "within t T t'" "t' < 2 ^ 61"
  shows "\<exists>s'. disable_counting T s = Inr s' \<and> pitc_inv t' s' \<and> pit_mode s' = pit_mode s"
proof -
  obtain c s1 where g: "get_counter T s = Inr (c, s1)" "s1 = s \<or> s1 = load_counter s"
    using get_counter_ok [of s t T] assms(1-3) withinD [OF assms(4,5)] by blast
  have k: "pit_mode s1 = pit_mode s" "unat (initial s1) \<le> 65536" "start s1 = start s"
    using g(2) assms(2) load_counter_initial [of s] by auto
  have "\<exists>b s2. (if pit_mode s = 2 \<or> pit_mode s = 3 then Inr (True, s1\<lparr>latch := c\<rparr>)
      else get_out (from_place 2 T) (s1\<lparr>latch := c\<rparr>)) = Inr (b, s2)
    \<and> (s2 = s1\<lparr>latch := c\<rparr> \<or> s2 = load_counter (s1\<lparr>latch := c\<rparr>))"
  proof (cases "pit_mode s = 2 \<or> pit_mode s = 3")
    case False
    then show ?thesis
      using get_out_ok [OF _ _ _ _ within_from [OF assms(4)] assms(5), of "s1\<lparr>latch := c\<rparr>" 2] k assms(1-3) by auto
  qed auto
  then obtain b s2 where o: "(if pit_mode s = 2 \<or> pit_mode s = 3 then Inr (True, s1\<lparr>latch := c\<rparr>)
      else get_out (from_place 2 T) (s1\<lparr>latch := c\<rparr>)) = Inr (b, s2)"
    "s2 = s1\<lparr>latch := c\<rparr> \<or> s2 = load_counter (s1\<lparr>latch := c\<rparr>)" by blast
  have "T 6 = T 6 \<and> unat (T 6) \<le> t'" using assms(4) by (simp add: within_def)
  moreover have "unat (initial s2) \<le> 65536" "pit_mode s2 = pit_mode s"
    using o(2) k load_counter_initial by auto
  moreover have "feature [FPERIODIC] (s1\<lparr>latch := c\<rparr>) = Inr (pit_mode s = 2 \<or> pit_mode s = 3)"
    using feature_iff(1) [of "s1\<lparr>latch := c\<rparr>"] k assms(1) by simp
  ultimately show ?thesis using assms(1) o(1) unfolding disable_counting_def g(1) bindR_simps prod.case Let_def
    by (simp add: pitc_inv_def)
qed

lemma source_time_ok: "freq \<noteq> 0 \<Longrightarrow> \<exists>x. source_time c tsc d freq = Inr x"
  by (simp add: source_time_def muldiv128_def moddiv_def Let_def)

lemma update_timer_ok:
  assumes "pit_mode s < 6" "pit_mode s = 2 \<or> pit_mode s = 3 \<Longrightarrow> initial s \<noteq> 0"
  shows "\<exists>ms. update_timer c tsc t s = Inr ms"
proof -
  obtain to where "timeout_ticks t s = Inr to"
    using assms by (cases "pit_mode s = 2 \<or> pit_mode s = 3") (auto simp: timeout_ticks_def feature_iff)
  moreover have "PIT_FREQ \<noteq> 0" by (simp add: PIT_FREQ_def)
  then obtain x where "source_time c tsc (if to < t then 0 else to - t) PIT_FREQ = Inr x"
    using source_time_ok by blast
  ultimately show ?thesis by (simp add: update_timer_def)
qed

lemma reload_counter_ok:
  assumes "pitc_inv t s" "within t T t'" "t' < 2 ^ 61"
  shows "\<exists>s' ms. reload_counter c tsc T s = Inr (s', ms) \<and> pitc_inv t' s'"
proof -
  note I = assms(1) [unfolded pitc_inv_def]
  obtain v s1 where g: "get_counter T s = Inr (v, s1)" "s1 = s \<or> s1 = load_counter s"
    using get_counter_inv [OF assms] by blast
  then have I1: "pitc_inv t (s1\<lparr>latch := v\<rparr>)" using assms(1) pitc_inv_load [of t s] by (auto simp: pitc_inv_def)
  obtain b s2 where o: "(if modus (s1\<lparr>latch := v\<rparr>) AND 0xe \<noteq> 0 then get_out (from_place 2 T) (s1\<lparr>latch := v\<rparr>)
      else Inr (False, s1\<lparr>latch := v\<rparr>)) = Inr (b, s2)"
    "s2 = s1\<lparr>latch := v\<rparr> \<or> s2 = load_counter (s1\<lparr>latch := v\<rparr>)"
    using get_out_inv [OF I1 within_from [OF assms(2)] assms(3), of 2]
    by (cases "modus (s1\<lparr>latch := v\<rparr>) AND 0xe = 0") auto
  have I2: "pitc_inv t s2" using o(2) I1 pitc_inv_load by auto
  define s3 where "s3 = load_counter (s2\<lparr>stopped_out := b, stopped := False, start := T 6 + ucast (new_counter s2) + 1\<rparr>)"
  have u: "unat (ucast (new_counter s2) :: u64) < 65536"
    using unat_bound [of "new_counter s2"] by (simp add: unat_ucast)
  have t6: "unat (T 6) \<le> t'" using assms(2) by (simp add: within_def)
  have w: "(a + b + 1 :: u64) = a + (b + 1)" for a b by simp
  have "unat (ucast (new_counter s2) + 1 :: u64) = unat (ucast (new_counter s2) :: u64) + 1"
    using u by (simp add: unat_add_small)
  then have "unat (T 6 + ucast (new_counter s2) + 1) = unat (T 6) + (unat (ucast (new_counter s2) :: u64) + 1)"
    using u t6 assms(3) unfolding w by (subst unat_add_small) simp_all
  then have I3: "pitc_inv t' s3" "initial s3 \<noteq> 0"
    using I2 u t6 load_counter_initial
    by (auto simp: pitc_inv_def s3_def)
  obtain ms where "update_timer c tsc (T 7) s3 = Inr ms"
    using update_timer_ok [of s3 c tsc "T 7"] I3 by (auto simp: pitc_inv_def)
  then show ?thesis using I3 unfolding reload_counter_def g(1) bindR_simps prod.case Let_def o(1)
    by (simp add: s3_def)
qed

lemma pitc_inv_fields [simp]:
  "pitc_inv t (s\<lparr>latch := a\<rparr>) = pitc_inv t s" "pitc_inv t (s\<lparr>new_counter := a\<rparr>) = pitc_inv t s"
  "pitc_inv t (s\<lparr>stopped_out := x\<rparr>) = pitc_inv t s" "pitc_inv t (s\<lparr>gate := x\<rparr>) = pitc_inv t s"
  "pitc_inv t (s\<lparr>wrote_low := x\<rparr>) = pitc_inv t s" "pitc_inv t (s\<lparr>read_low := x\<rparr>) = pitc_inv t s"
  "pitc_inv t (s\<lparr>lstatus := x\<rparr>) = pitc_inv t s" "pitc_inv t (s\<lparr>latched := z\<rparr>) = pitc_inv t s"
  "pitc_inv t (s\<lparr>latched_status := w\<rparr>) = pitc_inv t s"
  "pitc_inv t (s\<lparr>modus := modus s OR NULL_COUNT\<rparr>) = pitc_inv t s"
  by (simp_all add: pitc_inv_def)

lemma within_le: "within t T t' \<Longrightarrow> t \<le> t'"
  unfolding within_def using le_trans by blast

lemma read_back_ok:
  assumes "pitc_inv t s" "within t T t'" "t' < 2 ^ 61"
  shows "\<exists>s'. read_back T v s = Inr s' \<and> pitc_inv t' s'"
proof -
  obtain c s1 where g: "get_counter T s = Inr (c, s1)" "s1 = s \<or> s1 = load_counter s"
    using get_counter_inv [OF assms] by blast
  then have I1: "pitc_inv t s1" using assms(1) pitc_inv_load [of t s] by auto
  obtain b s2 where o: "get_out (from_place 2 T) s1 = Inr (b, s2)" "s2 = s1 \<or> s2 = load_counter s1"
    using get_out_inv [OF I1 within_from [OF assms(2)] assms(3)] by blast
  then have I2: "pitc_inv t s2" using I1 pitc_inv_load by auto
  show ?thesis using I1 I2 pitc_inv_mono [OF _ within_le [OF assms(2)]] unfolding read_back_def g(1) bindR_simps prod.case o(1)
    by auto
qed

lemma set_modus_ok:
  assumes "pitc_inv t s" "within t T t'" "t' < 2 ^ 61"
  shows "\<exists>s'. set_modus T m s = Inr s' \<and> pitc_inv t' s'"
proof (cases "flag m 0x30 \<and> m AND 0xe \<le> 10")
  case True
  define s1 where "s1 = s\<lparr>modus := (modus s AND NOT 0x3f) OR (ucast m AND 0x3f) OR NULL_COUNT, start := 0\<rparr>"
  have "modus s1 AND 0xe = ucast m AND 0xe"
    by (simp add: s1_def NULL_COUNT_def bit.conj_disj_distrib2 and.assoc)
  also have "\<dots> = ucast (m AND 0xe)" by (simp add: unsigned_and_eq)
  finally have "pit_mode s1 = unat (ucast (m AND 0xe) :: u16) div 2" by (simp add: pit_mode_and unat_drop_bit)
  moreover have "unat (ucast (m AND 0xe) :: u16) \<le> 10"
    using True unat_bound [of "m AND 0xe"] by (simp add: word_le_nat_alt unat_ucast)
  ultimately have m1: "pit_mode s1 < 6" by linarith
  obtain s2 where d: "disable_counting T s1 = Inr s2" "pitc_inv t' s2"
    using disable_counting_ok [OF m1 _ _ assms(2,3)] assms(1) by (auto simp: s1_def pitc_inv_def)
  then show ?thesis using True unfolding set_modus_def s1_def [symmetric] by simp
next
  case False
  then show ?thesis using read_back_ok [OF assms, of "0x20"] assms(1) pitc_inv_mono [OF _ within_le [OF assms(2)]]
    by (auto simp: set_modus_def)
qed

lemma pit_read_ok:
  assumes "pitc_inv t s" "within t T t'" "t' < 2 ^ 61"
  shows "\<exists>v s'. pit_read T s = Inr (v, s') \<and> pitc_inv t' s'"
proof -
  have M: "pitc_inv t u \<Longrightarrow> pitc_inv t' u" for u using pitc_inv_mono within_le [OF assms(2)] by blast
  obtain c s1 where g: "get_counter T s = Inr (c, s1)" "s1 = s \<or> s1 = load_counter s"
    using get_counter_inv [OF assms] by blast
  then have I1: "pitc_inv t' s1" "pitc_inv t' s" using assms(1) pitc_inv_load [of t s] M by auto
  show ?thesis using I1 unfolding pit_read_def Let_def g(1) bindR_simps prod.case by auto
qed

lemma write_done_ok:
  assumes "pitc_inv t s" "within t T t'" "t' < 2 ^ 61"
  shows "\<exists>s' ms. write_done c tsc T s = Inr (s', ms) \<and> pitc_inv t' s'"
proof -
  define s0 where "s0 = s\<lparr>modus := modus s OR NULL_COUNT\<rparr>"
  have I0: "pitc_inv t s0" using assms(1) by (simp add: s0_def)
  have M: "pitc_inv t u \<Longrightarrow> pitc_inv t' u" for u using pitc_inv_mono within_le [OF assms(2)] by blast
  have m0: "pit_mode s0 < 6" using I0 by (simp add: pitc_inv_def)
  obtain v s1 where g: "get_counter T s0 = Inr (v, s1)" "s1 = s0 \<or> s1 = load_counter s0"
    using get_counter_inv [OF I0 assms(2,3)] by blast
  have I1: "pitc_inv t s1" using g(2) I0 pitc_inv_load by auto
  have "unat (T 2) \<le> t'" using assms(2) by (simp add: within_def)
  moreover have u: "unat (ucast v :: u64) < 65536" using unat_bound [of v] by (simp add: unat_ucast)
  ultimately have "unat (T 2 + ucast v) \<le> t' + 65537" using assms(3) by (subst unat_add_small) simp_all
  then have "pitc_inv t' (s1\<lparr>start := T 2 + ucast v\<rparr>)" using I1 by (auto simp: pitc_inv_def)
  then show ?thesis
    using reload_counter_ok [OF I0 assms(2,3), of c tsc] M [OF I0] g(1)
    unfolding write_done_def Let_def s0_def [symmetric] feature_iff [OF m0] bindR_simps by auto
qed

lemma pit_write_ok:
  assumes "pitc_inv t s" "within t T t'" "t' < 2 ^ 61"
  shows "\<exists>s' ms. pit_write c tsc T v s = Inr (s', ms) \<and> pitc_inv t' s'"
proof (cases "\<not> wrote_low s \<and> flag (modus s) RW_LOW \<and> flag (modus s) RW_HIGH")
  case True
  define s1 where "s1 = s\<lparr>wrote_low := True\<rparr>"
  have I1: "pitc_inv t s1" using assms(1) by (simp add: s1_def)
  have m1: "pit_mode s1 < 6" using I1 by (simp add: pitc_inv_def)
  have M: "pitc_inv t u \<Longrightarrow> pitc_inv t' u" for u using pitc_inv_mono within_le [OF assms(2)] by blast
  obtain b s2 where o: "(if pit_mode s1 = 0 then get_out T s1 else Inr (True, s1)) = Inr (b, s2)" "pitc_inv t s2"
    using get_out_inv [OF I1 assms(2,3)] I1 pitc_inv_load by (cases "pit_mode s1 = 0") auto
  obtain s3 where d: "(if pit_mode s1 = 0 \<and> \<not> b then disable_counting (from_place 4 T) s2 else Inr s2) = Inr s3" "pitc_inv t' s3"
    using disable_counting_ok [OF _ _ _ within_from [OF assms(2)] assms(3), of s2 4] o(2) M [OF o(2)]
    by (cases "pit_mode s1 = 0 \<and> \<not> b") (auto simp: pitc_inv_def)
  show ?thesis using True d(2)
    by (simp add: pit_write_def s1_def [symmetric] feature_iff [OF m1] o(1) d(1))
next
  case False
  then show ?thesis using write_done_ok [OF _ assms(2,3), of _ c tsc] assms(1) by (auto simp: pit_write_def)
qed

lemma set_gate_ok:
  assumes "pitc_inv t s" "within t T t'" "t' < 2 ^ 61"
  shows "\<exists>s' ms. set_gate c tsc T v s = Inr (s', ms) \<and> pitc_inv t' s'"
proof (cases "v = (if gate s then 1 else 0)")
  case True
  then show ?thesis using assms(1) pitc_inv_mono [OF _ within_le [OF assms(2)]] by (auto simp: set_gate_def)
next
  case False
  define s0 where "s0 = s\<lparr>gate := flag v 1\<rparr>"
  have I0: "pitc_inv t s0" using assms(1) by (simp add: s0_def)
  have m0: "pit_mode s0 < 6" using I0 by (simp add: pitc_inv_def)
  have M: "pitc_inv t u \<Longrightarrow> pitc_inv t' u" for u using pitc_inv_mono within_le [OF assms(2)] by blast
  show ?thesis
  proof (cases "v = 0")
    case True
    obtain s1 where "(if pit_mode s0 \<noteq> 1 \<and> pit_mode s0 \<noteq> 5 then disable_counting T s0 else Inr s0) = Inr s1" "pitc_inv t' s1"
      using disable_counting_ok [OF _ _ _ assms(2,3), of s0] I0 M [OF I0]
      by (cases "pit_mode s0 \<noteq> 1 \<and> pit_mode s0 \<noteq> 5") (auto simp: pitc_inv_def)
    then show ?thesis using True
      unfolding set_gate_def Let_def if_not_P [OF False] s0_def [symmetric] feature_iff [OF m0] bindR_simps by auto
  next
    case nz: False
    obtain b s1 where o: "get_out (from_place 7 T) s0 = Inr (b, s1)" "s1 = s0 \<or> s1 = load_counter s0"
      using get_out_inv [OF I0 within_from [OF assms(2)] assms(3)] by blast
    define s2 where "s2 = s1\<lparr>stopped_out := b\<rparr>"
    have I2: "pitc_inv t s2" using o(2) I0 pitc_inv_load by (auto simp: s2_def)
    have m2: "pit_mode s2 < 6" using I2 by (simp add: pitc_inv_def)
    define i where "i = (if latch s2 \<noteq> 0 then ucast (latch s2) else 65536 :: u32)"
    have i: "unat i \<le> 65536" "i \<noteq> 0" using load_counter_initial [of "s2\<lparr>new_counter := latch s2\<rparr>"]
      by (auto simp: i_def load_counter_def)
    have u: "unat (ucast i :: u64) = unat i" using unat_bound [of i] by (simp add: unat_ucast)
    have t11: "unat (T 11) \<le> t'" using assms(2) by (simp add: within_def)
    have u1: "unat (ucast i + 1 :: u64) = unat i + 1" using i u by (simp add: unat_add_small)
    have w: "(a + b + 1 :: u64) = a + (b + 1)" for a b by simp
    have "unat (T 11 + ucast i + 1) = unat (T 11) + (unat i + 1)"
      using i t11 assms(3) u1 unfolding w by (subst unat_add_small) simp_all
    then have I3: "pitc_inv t' (s2\<lparr>initial := i, start := T 11 + ucast i + 1, stopped := False\<rparr>)"
      using I2 i t11 by (simp add: pitc_inv_def)
    have f: "feature [FGATE_DISABLE_COUNTING] s0 = Inr (pit_mode s0 \<noteq> 1 \<and> pit_mode s0 \<noteq> 5)" by (rule feature_iff [OF m0])
    have e: "(if v = 0 \<and> g then disable_counting T s0 else Inr s0) = Inr s0" for g using nz by simp
    have e2: "s2\<lparr>initial := i\<rparr>\<lparr>start := T 11 + ucast (initial (s2\<lparr>initial := i\<rparr>)) + 1, stopped := False\<rparr>
        = s2\<lparr>initial := i, start := T 11 + ucast i + 1, stopped := False\<rparr>" by simp
    show ?thesis
      using I3 M [OF I2] reload_counter_ok [OF I2 within_from [OF assms(2)] assms(3), of c tsc 11]
      unfolding set_gate_def Let_def if_not_P [OF False] s0_def [symmetric] f bindR_simps e if_not_P [OF nz] o(1)
        prod.case s2_def [symmetric] feature_iff [OF m2] i_def [symmetric] e2 by auto
  qed
qed

section \<open>The device never fails\<close>

lemma range_index:
  fixes p b :: "'a::len word"
  assumes "bus_in_range (ucast p) (ucast b) (of_nat n)" "LENGTH('a) \<le> 32" "0 < n" "n < 2 ^ 32"
  shows "unat (p - b) < n" "unat p = unat b + unat (p - b)"
proof -
  have l: "unat (x :: 'a word) < 2 ^ 32" for x
    using unat_bound [of x] assms(2) by (meson le_less_trans one_le_numeral order_less_le_trans power_increasing)
  have u: "unat (ucast x :: u64) = unat x" for x :: "'a word" using l [of x] by (simp add: unat_ucast)
  have n: "unat (of_nat n :: u64) = n" using assms(4) by (simp add: unat_of_nat)
  have "unat (ucast b + of_nat n :: u64) = unat b + n"
    using l [of b] assms(4) by (subst unat_add_small) (simp_all add: u n)
  then have "unat (ucast b + of_nat n - 1 :: u64) = unat b + n - 1"
    using assms(3) by (subst unat_diff_small) (simp_all add: word_le_nat_alt)
  then have "unat b \<le> unat p" "unat p < unat b + n"
    using assms(1,3) by (auto simp: bus_in_range_def word_le_nat_alt u)
  moreover have "unat (p - b) = unat p - unat b" using \<open>unat b \<le> unat p\<close> by (simp add: unat_diff_small word_le_nat_alt)
  ultimately show "unat (p - b) < n" "unat p = unat b + unat (p - b)" by linarith+
qed

lemma pit_get_inv: "pit_inv t d \<Longrightarrow> i < 3 \<Longrightarrow> \<exists>s. pit_get d i = Inr s \<and> pitc_inv t s"
  by (auto simp: pit_get_def pit_inv_def)

lemma pit_inv_mono: "pit_inv t d \<Longrightarrow> t \<le> t' \<Longrightarrow> pit_inv t' d"
  using pitc_inv_mono by (auto simp: pit_inv_def)

lemma pit_put_inv: "pit_inv t d \<Longrightarrow> pitc_inv t s \<Longrightarrow> pit_inv t (pit_put i s d)"
  using set_update_subset_insert by (fastforce simp: pit_inv_def pit_put_def)

lemma pit_in_ok:
  assumes "pit_inv t d" "within t T t'" "t' < 2 ^ 61"
  shows "\<exists>r d'. pit_receive_in T m d = Inr (r, d') \<and> pit_inv t' d'"
proof (cases "bus_in_range (ucast (in_port m)) (ucast (pit_base d)) 3 \<and> in_type m = TYPE_B")
  case True
  then have "unat (in_port m - pit_base d) < 3" using range_index [of "in_port m" "pit_base d" 3] by simp
  then obtain s where s: "pit_get d (unat (in_port m - pit_base d)) = Inr s" "pitc_inv t s"
    using pit_get_inv assms(1) by blast
  obtain v s' where r: "pit_read T s = Inr (v, s')" "pitc_inv t' s'" using pit_read_ok [OF s(2) assms(2,3)] by blast
  show ?thesis using True pit_put_inv [OF pit_inv_mono [OF assms(1) within_le [OF assms(2)]] r(2)]
    by (simp add: pit_receive_in_def Let_def s(1) r(1))
next
  case False
  then show ?thesis using pit_inv_mono [OF assms(1) within_le [OF assms(2)]] by (auto simp: pit_receive_in_def)
qed

lemma pit_pit_ok:
  assumes "pit_inv t d" "within t T t'" "t' < 2 ^ 61"
  shows "\<exists>r d' ms. pit_receive_pit c tsc T ty pit v d = Inr (r, d', ms) \<and> pit_inv t' d'"
proof (cases "bus_in_range (ucast pit) (ucast (pit_addr d)) 3")
  case True
  have D: "pit_inv t' d" using pit_inv_mono [OF assms(1) within_le [OF assms(2)]] .
  have M: "pitc_inv t u \<Longrightarrow> pitc_inv t' u" for u using pitc_inv_mono within_le [OF assms(2)] by blast
  have "unat (pit - pit_addr d) < 3" using True range_index [of pit "pit_addr d" 3] by simp
  then obtain s where s: "pit_get d (unat (pit - pit_addr d)) = Inr s" "pitc_inv t s"
    using pit_get_inv assms(1) by blast
  obtain b s1 where o: "get_out T s = Inr (b, s1)" "pitc_inv t' s1"
    using get_out_inv [OF s(2) assms(2,3)] s(2) pitc_inv_load M by blast
  obtain s2 ms where g: "set_gate c tsc T v s = Inr (s2, ms)" "pitc_inv t' s2"
    using set_gate_ok [OF s(2) assms(2,3)] by blast
  show ?thesis using True pit_put_inv [OF D o(2)] pit_put_inv [OF D g(2)]
    by (cases ty) (auto simp: pit_receive_pit_def Let_def s(1) o(1) g(1))
next
  case False
  then show ?thesis using pit_inv_mono [OF assms(1) within_le [OF assms(2)]] by (auto simp: pit_receive_pit_def)
qed

lemma pit_read_backs_ok:
  assumes "pit_inv t' d" "\<forall>i \<in> set is. i < 3 \<and> pitc_inv t (pit_c d ! i)"
    and T: "within t T t'" "t' < 2 ^ 61" and "distinct is"
  shows "\<exists>d'. pit_read_backs T v is d = Inr d' \<and> pit_inv t' d'"
  using assms(1,2,5)
proof (induction "is" arbitrary: d)
  case (Cons i "is")
  obtain s' where r: "read_back (from_place (6 * i) T) v (pit_c d ! i) = Inr s'" "pitc_inv t' s'"
    using read_back_ok [OF _ within_from [OF T(1)] T(2), of "pit_c d ! i" "6 * i" v] Cons.prems(2) by auto
  have l: "length (pit_c d) = 3" using Cons.prems(1) by (simp add: pit_inv_def)
  have "\<forall>j \<in> set is. j < 3 \<and> pitc_inv t (pit_c (pit_put i s' d) ! j)"
    using Cons.prems(2,3) by (auto simp: pit_put_def) (metis nth_list_update_neq)
  then show ?case using Cons.IH [OF pit_put_inv [OF Cons.prems(1) r(2)]] Cons.IH [OF Cons.prems(1)] Cons.prems r(1) l
    by (auto simp: pit_get_def)
qed simp

lemma counter_select:
  fixes v :: u8
  assumes "v AND 0xc0 \<noteq> 0xc0"
  shows "unat (drop_bit 6 v AND 3) < 3"
proof -
  have d: "unat (drop_bit 6 v AND 3) = unat v div 64"
    using unat_and_mask [of "drop_bit 6 v" 2] unat_bound [of v] by (simp add: mask_eq_exp_minus_1 unat_drop_bit)
  have m: "(0xc0 :: u8) = NOT (mask 6)" by code_simp
  have a: "unat (v AND 0xc0) = unat v - unat v mod 64" unfolding m using unat_and_not_mask [of v 6] by simp
  have "unat v div 64 \<noteq> 3"
  proof
    assume "unat v div 64 = 3"
    then have "unat v - unat v mod 64 = 192" using div_mult_mod_eq [of "unat v" 64] by linarith
    then have "v AND 0xc0 = 0xc0" using a by (simp add: word_unat_eq_iff)
    then show False using assms by simp
  qed
  then show ?thesis using d unat_bound [of v] by simp
qed

lemma pit_out_ok:
  assumes "pit_inv t d" "within t T t'" "t' < 2 ^ 61"
  shows "\<exists>b d' ms. pit_receive_out c tsc T m d = Inr (b, d', ms) \<and> pit_inv t' d'"
proof -
  let ?v = "ucast (out_value m) :: u8"
  let ?hit = "bus_in_range (ucast (out_port m)) (ucast (pit_base d)) 4 \<and> out_type m = TYPE_B"
  have D: "pit_inv t' d" using pit_inv_mono [OF assms(1) within_le [OF assms(2)]] .
  show ?thesis
  proof (cases "?hit \<and> (ucast (out_port m) :: u32) = ucast (pit_base d) + 3")
    case True
    show ?thesis
    proof (cases "?v AND 0xc0 = 0xc0")
      case rb: True
      have "\<forall>i \<in> set [0, 1, 2]. i < 3 \<and> pitc_inv t (pit_c d ! i)"
        using assms(1) by (simp add: pit_inv_def)
      then obtain d' where "pit_read_backs T ?v [0, 1, 2] d = Inr d'" "pit_inv t' d'"
        using pit_read_backs_ok [OF D _ assms(2,3), of "[0, 1, 2]" ?v] by auto
      then show ?thesis using True rb by (auto simp: pit_receive_out_def Let_def simp del: pit_read_backs.simps)
    next
      case nb: False
      have "unat (drop_bit 6 ?v AND 3) < 3" by (rule counter_select [OF nb])
      then obtain s where s: "pit_get d (unat (drop_bit 6 ?v AND 3)) = Inr s" "pitc_inv t s"
        using pit_get_inv assms(1) by blast
      obtain s' where "set_modus T ?v s = Inr s'" "pitc_inv t' s'" using set_modus_ok [OF s(2) assms(2,3)] by blast
      then show ?thesis using True nb s(1) pit_put_inv [OF D] by (auto simp: pit_receive_out_def Let_def)
    qed
  next
    case False
    show ?thesis
    proof (cases ?hit)
      case True
      have "unat (out_port m - pit_base d) < 4" using True range_index [of "out_port m" "pit_base d" 4] by simp
      moreover have "unat (out_port m - pit_base d) \<noteq> 3"
      proof
        assume a: "unat (out_port m - pit_base d) = 3"
        have p: "unat (out_port m) = unat (pit_base d) + 3"
          using True range_index(2) [of "out_port m" "pit_base d" 4] a by simp
        have "unat (ucast (pit_base d) + 3 :: u32) = unat (pit_base d) + 3"
          using unat_bound [of "pit_base d"] by (subst unat_add_small) (simp_all add: unat_ucast)
        moreover have "unat (ucast (out_port m) :: u32) = unat (out_port m)"
          using unat_bound [of "out_port m"] by (simp add: unat_ucast)
        ultimately have "(ucast (out_port m) :: u32) = ucast (pit_base d) + 3"
          using p by (simp only: word_unat_eq_iff)
        then show False using False True by simp
      qed
      ultimately have "unat (out_port m - pit_base d) < 3" by linarith
      then obtain s where s: "pit_get d (unat (out_port m - pit_base d)) = Inr s" "pitc_inv t s"
        using pit_get_inv assms(1) by blast
      obtain s' ms where "pit_write c tsc T ?v s = Inr (s', ms)" "pitc_inv t' s'"
        using pit_write_ok [OF s(2) assms(2,3)] by blast
      then show ?thesis using True False s(1) pit_put_inv [OF D] by (auto simp: pit_receive_out_def Let_def)
    next
      case nh: False
      then show ?thesis using D by (auto simp: pit_receive_out_def)
    qed
  qed
qed

lemma pitc_init_inv: "pitc_inv t (pitc_init irq timer junk)"
  by (simp add: pitc_inv_def pitc_init_def pit_mode_def)

lemma pit_build_ok:
  assumes "within 0 T t" "t < 2 ^ 61"
  shows "\<exists>cs ms. pit_build c tsc T irq timer junk is = Inr (cs, ms) \<and> length cs = length is \<and> (\<forall>s \<in> set cs. pitc_inv t s)"
proof (induction "is")
  case (Cons i "is")
  obtain s ms where s: "set_gate c tsc (from_place (20 * i) T) 1 (pitc_init (if i \<noteq> 0 then NOT 0 else irq) timer (junk i)) = Inr (s, ms)"
      "pitc_inv t s"
    using set_gate_ok [OF pitc_init_inv within_from [OF assms(1)] assms(2)] by blast
  show ?case using Cons.IH s by auto
qed simp

lemma pit_init_ok:
  assumes "within 0 T t" "t < 2 ^ 61"
  shows "\<exists>d ms. pit_init c tsc T base irq pit timer junk = Inr (d, ms) \<and> pit_inv t d"
  using pit_build_ok [OF assms, of c tsc irq timer junk "[0, 1, 2]"]
  by (auto simp: pit_init_def pit_inv_def simp del: pit_build.simps)

lemma pit_reach_inv: "pit_reach t d \<Longrightarrow> pit_inv t d"
proof (induction rule: pit_reach.induct)
  case (reach_init c tsc T base irq pit timer junk d ms t)
  then show ?case using pit_init_ok [OF reach_init(2,3), of c tsc base irq pit timer junk] by auto
next
  case (reach_in t d T t' m r d')
  then show ?case using pit_in_ok [OF reach_in.IH reach_in.hyps(2,3), of m] by auto
next
  case (reach_out t d T t' c tsc m' b d' ms)
  then show ?case using pit_out_ok [OF reach_out.IH reach_out.hyps(2,3), of c tsc m'] by auto
next
  case (reach_pit t d T t' c tsc ty pit v r' d' ms)
  then show ?case using pit_pit_ok [OF reach_pit.IH reach_pit.hyps(2,3), of c tsc ty pit v] by auto
qed

lemma bytes16:
  fixes x :: u16
  shows "ucast (ucast (x AND 0xff) :: u8) + push_bit 8 (ucast (ucast (drop_bit 8 x AND 0xff) :: u8)) = x"
proof -
  have m: "unat (y AND 0xff) = unat y mod 256" for y :: u16
    using unat_and_mask [of y 8] by (simp add: mask_eq_exp_minus_1)
  have h: "unat x div 256 < 256" using unat_bound [of x] by (simp add: less_mult_imp_div_less)
  have a: "unat (ucast (ucast (x AND 0xff) :: u8) :: u16) = unat x mod 256" by (simp add: unat_ucast m)
  have b: "unat (ucast (ucast (drop_bit 8 x AND 0xff) :: u8) :: u16) = unat x div 256"
    using h by (simp add: unat_ucast m unat_drop_bit)
  have c: "unat (push_bit 8 (ucast (ucast (drop_bit 8 x AND 0xff) :: u8)) :: u16) = unat x div 256 * 256"
    using h by (subst unat_push_bit_small) (simp_all add: b)
  have "unat (ucast (ucast (x AND 0xff) :: u8) + push_bit 8 (ucast (ucast (drop_bit 8 x AND 0xff) :: u8)) :: u16) = unat x"
    using unat_bound [of x] by (subst unat_add_small) (simp_all add: a c)
  then show ?thesis by (simp only: word_unat_eq_iff)
qed

lemma get_counter_state: "get_counter T s = Inr (c, s0) \<Longrightarrow> s0 = s \<or> s0 = load_counter s"
  by (auto simp: get_counter_def Let_def bindR_eq_Inr split: if_splits)

lemma load_modus: "modus (load_counter s) AND 0x30 = modus s AND 0x30" "s2bcd (load_counter s) = s2bcd s"
  by (simp_all add: load_counter_def NULL_COUNT_def s2bcd_def flag_def BCD_def and.assoc fun_eq_iff)

section \<open>Properties\<close>

text \<open>Claim C27. No access to the timer is undefined: in every state that the device reaches
  from its constructor (whatever the uninitialised bit fields contain) through port
  accesses and gate messages, with a clock that does not run backwards, every further
  access returns. The mode stays inside the feature table and no counter divides by a
  zero period.\<close>

theorem pit_never_undefined:
  assumes "pit_reach t d" "within t T t'" "t' < 2 ^ 61"
  shows "(\<exists>r. pit_receive_in T m d = Inr r) \<and> (\<exists>r. pit_receive_out c tsc T m' d = Inr r)
    \<and> (\<exists>r. pit_receive_pit c tsc T ty pit v d = Inr r)"
  using pit_in_ok [OF pit_reach_inv [OF assms(1)] assms(2,3), of m]
    pit_out_ok [OF pit_reach_inv [OF assms(1)] assms(2,3), of c tsc m']
    pit_pit_ok [OF pit_reach_inv [OF assms(1)] assms(2,3), of c tsc ty pit v] by blast

theorem pit_never_undefined_witness:
  "\<exists>d. pit_reach 7 d \<and> (\<exists>r. pit_receive_out \<lparr>src_freq = 1000, dst_freq = 1000\<rparr> 0 (\<lambda>_. 7)
     \<lparr>out_type = TYPE_B, out_port = 0x43, out_value = 0x34\<rparr> d = Inr r)"
proof -
  let ?c = "\<lparr>src_freq = 1000, dst_freq = 1000\<rparr>" and ?j = "\<lambda>_ :: nat. pitc_init 0 0 (undefined :: pitc)"
  have w: "within 0 (\<lambda>_. 7) 7" "within 7 (\<lambda>_. 7) 7" by (simp_all add: within_def)
  obtain d ms where d: "pit_init ?c 0 (\<lambda>_. 7) 0x40 0 0 1 ?j = Inr (d, ms)"
    using pit_init_ok [OF w(1), of ?c 0 "0x40" 0 0 1 ?j] by auto
  then have "pit_reach 7 d" using w(1) by (rule reach_init) simp
  then show ?thesis
    using pit_never_undefined [of 7 d "\<lambda>_. 7" 7 undefined ?c 0 "\<lparr>out_type = TYPE_B, out_port = 0x43, out_value = 0x34\<rparr>"] w by auto
qed

text \<open>In BCD mode the elapsed time is reduced modulo 10000 before the period is taken from it, which is wrong for periods
  that do not divide 10000: 10001 ticks after the start, a counter with the period 3000 should be at 1999
  and is read as 2999.\<close>

lemma pit_rate_bcd_phase:
  "let s = (pitc_init 0 1 (undefined :: pitc))\<lparr>modus := 0x35, new_counter := 3000, initial := 3000, start := 0, stopped := False\<rparr>
   in map_sum id (\<lambda>(c, s). s2bcd s c) (get_counter (\<lambda>_. 10001) s) = Inr 0x2999"
proof -
  let ?s = "(pitc_init 0 1 (undefined :: pitc))\<lparr>modus := 0x35, new_counter := 3000, initial := 3000, start := 0, stopped := False\<rparr>"
  have l: "\<not> at_load 10001 ?s" by (simp add: at_load_def)
  have m: "pit_mode (load_counter ?s) = 2" by (simp add: pit_mode_def load_counter_def NULL_COUNT_def)
  have f: "flag (modus ?s) BCD" "flag (modus (load_counter ?s)) BCD" "initial (load_counter ?s) = 3000"
    by (simp_all add: flag_def BCD_def load_counter_def NULL_COUNT_def)
  have "sint (- 10001 :: u64) smod 10000 = - 1" by code_simp
  then have r: "sint (start ?s - 10001) smod 10000 = - 1" by simp
  have z: "(1 :: int) smod 3000 = 1" "(2999 :: int) smod 10000 = 2999" by code_simp+
  have "get_counter (\<lambda>_. 10001) ?s = Inr (12999, load_counter ?s)"
    unfolding get_counter_def Let_def if_P [OF f(1)] r if_not_P [OF l] using m f
    by (simp add: feature_iff z)
  then show ?thesis using f by (simp add: s2bcd_def)
qed

text \<open>Claim C26. The rate generator in binary counting (mode 2 without \<^verbatim>\<open>BCD\<close>): once its start time has passed, a
  running counter counts from the programmed period down to 1 and starts over, with period \<^verbatim>\<open>65536\<close>
  for the programmed value 0. Excluded is the tick at which the old value is still latched; the ticks are
  counted below \<^verbatim>\<open>2^61\<close>.\<close>

theorem pit_rate_generator:
  assumes "\<not> stopped s" "pit_mode s = 2" "\<not> flag (modus s) BCD" "unat (start s) \<le> unat t" "unat t < 2 ^ 61"
    "\<not> at_load t s"
  defines "n \<equiv> if new_counter s \<noteq> 0 then unat (new_counter s) else 65536"
  shows "get_counter (\<lambda>_. t) s = Inr (of_nat (n - (unat t - unat (start s)) mod n), load_counter s)"
proof -
  define e where "e = unat t - unat (start s)"
  have "sint (start s - t) = int (unat (start s)) - int (unat t)" using assms(4,5) by (intro sint_diff) simp_all
  then have r: "sint (start s - t) = - int e" using assms(4) by (simp add: e_def)
  have n: "0 < n" "uint (initial (load_counter s)) = int n"
  proof -
    have "unat (ucast (new_counter s) :: u32) = unat (new_counter s)"
      using unat_bound [of "new_counter s"] by (simp add: unat_ucast)
    then have "unat (initial (load_counter s)) = n" by (simp add: load_counter_def n_def)
    then have "int (unat (initial (load_counter s))) = int n" by (rule arg_cong)
    then show "uint (initial (load_counter s)) = int n" by simp
    show "0 < n" by (simp add: n_def unat_gt_0)
  qed
  have "int e smod int n = int (e mod n)" using n(1) by (simp add: smod_nonneg zmod_int)
  then have v: "int n + (- int e) smod int n = int (n - e mod n)" using n(1) by (simp add: of_nat_diff less_imp_le)
  have m: "pit_mode (load_counter s) < 6" using assms(2) by simp
  have i: "initial (load_counter s) \<noteq> 0" using load_counter_initial [of s] by simp
  have b: "\<not> flag (modus (load_counter s)) BCD"
    using assms(3) by (simp add: flag_def load_counter_def NULL_COUNT_def BCD_def and.assoc)
  have le: "(- int e \<le> 0) = True" by simp
  show ?thesis
    unfolding get_counter_def Let_def if_not_P [OF assms(1)] if_not_P [OF assms(3)] r if_not_P [OF assms(6)]
      le if_True feature_iff [OF m] bindR_simps n(2) e_def [symmetric]
    using i b assms(2) by (simp only: pit_mode_load v) simp
qed

theorem pit_rate_generator_witness:
  "let s = (pitc_init 0 1 (undefined :: pitc))\<lparr>modus := 0x34, new_counter := 100, initial := 100, start := 1000, stopped := False\<rparr>
   in \<not> stopped s \<and> pit_mode s = 2 \<and> get_counter (\<lambda>_. 1230) s = Inr (70, load_counter s)"
proof -
  let ?s = "(pitc_init 0 1 (undefined :: pitc))\<lparr>modus := 0x34, new_counter := 100, initial := 100, start := 1000, stopped := False\<rparr>"
  have "pit_mode ?s = 2" by (simp add: pit_mode_def)
  moreover have "\<not> flag (modus ?s) BCD" by (simp add: flag_def BCD_def)
  moreover have "\<not> at_load 1230 ?s" by (simp add: at_load_def)
  ultimately show ?thesis using pit_rate_generator [of ?s 1230] by (simp add: Let_def)
qed

text \<open>The timeout of a periodic counter: the timer request lies less than one period in
  the future, and it is in phase with the start of the counter as long as the current time
  is at most one period after the start. After that the subtraction wraps, and the phase
  is shifted by \<^verbatim>\<open>2^64\<close> modulo the period.\<close>

lemma pit_periodic_timeout:
  assumes "pit_mode s = 2 \<or> pit_mode s = 3" "initial s \<noteq> 0" "unat (start s) < 2 ^ 62" "unat t < 2 ^ 62"
  defines "n \<equiv> unat (initial s)"
  shows "\<exists>to. timeout_ticks t s = Inr to \<and> unat t \<le> unat to \<and> unat to < unat t + n
    \<and> unat to mod n = (unat (start s) + (if unat t \<le> unat (start s) + n then 0 else 2 ^ 64)) mod n"
proof -
  define x where "x = ucast (initial s) + start s - t"
  have n: "0 < n" "n < 2 ^ 32" "unat (ucast (initial s) :: u64) = n"
    using assms(2) unat_bound [of "initial s"] by (simp_all add: n_def unat_gt_0 unat_ucast)
  have a: "unat (ucast (initial s) + start s) = n + unat (start s)"
    using n assms(3) by (subst unat_add_small) simp_all
  define k where "k = (if unat t \<le> unat (start s) + n then 0 else 2 ^ 64 :: nat)"
  have x: "unat x + unat t = unat (start s) + n + k"
  proof (cases "unat t \<le> unat (start s) + n")
    case True
    then show ?thesis unfolding x_def k_def by (subst unat_diff_small) (simp_all add: word_le_nat_alt a)
  next
    case False
    then have "unat x = 2 ^ 64 + (unat (start s) + n) - unat t"
      using assms(4) a unfolding x_def by (simp add: unat_sub_if' word_le_nat_alt)
    then show ?thesis using False assms(4) by (simp add: k_def)
  qed
  define y where "y = unat x mod n"
  have xm: "unat (x mod ucast (initial s)) = y" by (simp add: unat_mod_distrib n(3) y_def)
  have lt: "y < n" using n by (simp add: y_def)
  have to: "unat (t + x mod ucast (initial s)) = unat t + y"
    using lt n assms(4) by (subst unat_add_small) (simp_all add: xm)
  have "(unat t + y) mod n = (unat x + unat t) mod n" by (simp add: y_def mod_simps add.commute)
  also have "\<dots> = (unat (start s) + k) mod n" unfolding x using mod_add_self2 [of "unat (start s) + k" n] by (simp add: ac_simps)
  finally have ph: "unat (t + x mod ucast (initial s)) mod n = (unat (start s) + k) mod n" unfolding to .
  have "timeout_ticks t s = Inr (t + x mod ucast (initial s))"
  proof -
    have "pit_mode s < 6" using assms(1) by auto
    then show ?thesis using assms(1,2) by (auto simp: timeout_ticks_def feature_iff x_def)
  qed
  then show ?thesis using to lt ph unfolding k_def by (intro exI [of _ "t + x mod ucast (initial s)"]) simp
qed

text \<open>A latched counter is read consistently: after the counter latch command two reads
  return the low and the high byte of the value that the counter had at the time of the
  command, however long the reads are delayed.\<close>

lemma pit_latch_consistent:
  assumes "latched s = 0" "\<not> lstatus s" "modus s AND 0x30 = 0x30"
    "get_counter T s = Inr (value', s0)" "read_back T 0x20 s = Inr s1"
    "pit_read T1 s1 = Inr (low, s2)" "pit_read T2 s2 = Inr (high, s3)"
  shows "ucast low + push_bit 8 (ucast high) = s2bcd s value' \<and> latched s3 = 0"
proof -
  have s0: "modus s0 AND 0x30 = 0x30" "s2bcd s0 = s2bcd s" "latched s0 = 0" "\<not> lstatus s0"
    using get_counter_state [OF assms(4)] assms(1-3) load_modus [of s] by (auto simp: load_counter_def)
  have f: "flag (0x20 :: u8) 0x20" "\<not> flag (0x20 :: u8) 0x10" by (simp_all add: flag_def)
  have s1: "s1 = s0\<lparr>latch := value', latched := 3\<rparr>"
    using assms(5) s0 f by (simp add: read_back_def assms(4) RW_LOW_def RW_HIGH_def)
  have g: "flag (3 :: 2 word) 1" "\<not> flag (2 :: 2 word) 1" "flag (2 :: 2 word) 2" "(3 :: 2 word) - 1 = 2"
    by (simp_all add: flag_def)
  have c: "s2bcd (s0\<lparr>latch := x, latched := y\<rparr>) = s2bcd s" for x y
    using s0(2) by (simp add: s2bcd_def fun_eq_iff)
  have low: "low = ucast (s2bcd s value' AND 0xff)" "s2 = s0\<lparr>latch := value', latched := 2\<rparr>"
    using assms(6) s0 g by (auto simp: pit_read_def s1 c)
  have high: "high = ucast (drop_bit 8 (s2bcd s value') AND 0xff)" "latched s3 = 0"
    using assms(7) s0 g by (auto simp: pit_read_def low(2) c)
  show ?thesis using bytes16 [of "s2bcd s value'"] low high by simp
qed

end
