(* ===== verification/IoApic.thy ===== *)
theory IoApic
  imports Bus
begin

text \<open>
  The I/O APIC of \<^verbatim>\<open>apps/vancouver/model/ioapic.cc\<close>: redirection table, pending and remote
  interrupt request bits, the memory-mapped index and data registers, end of interrupt and
  the routing of the interrupt lines. An access outside of the redirection table is
  undefined. Messages that the device sends are returned in order.
\<close>

section \<open>State\<close>

definition PINS :: nat where "PINS = 24"

record ioapic =
  io_base :: u32
  gsibase :: u32
  io_index :: u8
  io_id :: u32
  redir :: "u32 list"
  rirr :: "bool list"
  ds :: "bool list"
  io_notify :: "bool list"

datatype io_msg = IoNotify u8 u8 | IoMem u64 u32

section \<open>Operations\<close>

definition irq_routing :: "u32 \<Rightarrow> ioapic \<Rightarrow> u32" where
  "irq_routing gsi s = (if gsi = 2 \<or> gsi = 0 then 2 - gsi else gsi) - gsibase s"

definition reverse_routing :: "u32 \<Rightarrow> ioapic \<Rightarrow> u32" where
  "reverse_routing pin s = (let pin = pin + gsibase s in if pin = 2 \<or> pin = 0 then 2 - pin else pin)"

definition read_data :: "u32 \<Rightarrow> ioapic \<Rightarrow> u32 res" where
  "read_data v s =
     (if bus_in_range (ucast (io_index s)) 0x10 (0x10 + 48)
      then (let i = unat (io_index s) - 0x10
            in if i < length (redir s)
               then Inr (redir s ! i OR (if ds s ! (i div 2) then 0x1000 else 0)
                           OR (if rirr s ! (i div 2) then 0x4000 else 0))
               else Inl Undefined)
      else Inr (if io_index s = 0 then io_id s
                else if io_index s = 1 then 0x00008020 OR push_bit 16 23 else v))"

definition notify_msg :: "nat \<Rightarrow> ioapic \<Rightarrow> io_msg" where
  "notify_msg pin s =
     (let gsi = reverse_routing (of_nat pin) s in IoNotify (ucast (gsi AND NOT 7)) (push_bit (unat (gsi AND 7)) 1))"

definition notify_pin :: "nat \<Rightarrow> ioapic \<Rightarrow> ioapic \<times> io_msg list" where
  "notify_pin pin s =
     (if io_notify s ! pin
      then (s\<lparr>io_notify := (io_notify s)[pin := False]\<rparr>, [notify_msg pin s])
      else (s, []))"

text \<open>The address and the data of the message signalled interrupt of a pin.\<close>

definition msi_phys :: "u32 \<Rightarrow> u32 \<Rightarrow> u64" where
  "msi_phys dst v =
     ucast (0xfee00000 OR (drop_bit 12 dst AND 0xffff0)) OR (if flag v 0x800 then 4 else 0)
       OR (if v AND 0x700 = 0x100 then 8 else 0)"

definition pin_assert :: "u32 \<Rightarrow> irq_type \<Rightarrow> ioapic \<Rightarrow> bool \<times> ioapic \<times> io_msg list" where
  "pin_assert p ty s =
     (let pin = unat p
      in if pin \<ge> PINS then (False, s, [])
         else if ty = DEASSERT_IRQ then (True, s\<lparr>ds := (ds s)[pin := False]\<rparr>, [])
         else if rirr s ! pin then (True, s, [])
         else let dst = redir s ! (2 * pin + 1);
                  v = redir s ! (2 * pin);
                  level = flag v 0x8000;
                  s = s\<lparr>io_notify := (io_notify s)[pin := (ty = ASSERT_NOTIFY)]\<rparr>
              in if flag v 0x10000
                 then (True, if level then s\<lparr>ds := (ds s)[pin := True]\<rparr> else s, [])
                 else let s = s\<lparr>rirr := (rirr s)[pin := level], ds := (ds s)[pin := False]\<rparr>;
                          m = IoMem (msi_phys dst v) (if level then v OR 0x4000 else v)
                      in if level then (True, s, [m])
                         else (case notify_pin pin s of (s, ms) \<Rightarrow> (True, s, m # ms)))"

definition write_redir :: "nat \<Rightarrow> u32 \<Rightarrow> ioapic \<Rightarrow> ioapic \<times> io_msg list" where
  "write_redir i v s =
     (let s = s\<lparr>redir := (redir s)[i := v AND (if odd i then 0xffff0000 else 0x1afff)]\<rparr>;
          pin = i div 2;
          s = s\<lparr>ds := (ds s)[pin := ds s ! pin \<and> flag (redir s ! (pin * 2)) 0x8000]\<rparr>
      in if flag (NOT (redir s ! (pin * 2))) 0x10000
         then (if ds s ! pin then (case pin_assert (of_nat pin) ASSERT_NOTIFY s of (_, s, ms) \<Rightarrow> (s, ms))
               else notify_pin pin (s\<lparr>io_notify := (io_notify s)[pin := True]\<rparr>))
         else (s, []))"

definition write_data :: "u32 \<Rightarrow> ioapic \<Rightarrow> (ioapic \<times> io_msg list) res" where
  "write_data v s =
     (if bus_in_range (ucast (io_index s)) 0x10 0x3f
      then (let i = unat (io_index s) - 0x10
            in if i < length (redir s) then Inr (write_redir i v s) else Inl Undefined)
      else Inr (if io_index s = 0 then s\<lparr>io_id := v\<rparr> else s, []))"

fun eoi_pins :: "u8 \<Rightarrow> nat list \<Rightarrow> ioapic \<Rightarrow> ioapic \<times> io_msg list" where
  "eoi_pins vector [] s = (s, [])"
| "eoi_pins vector (i # is) s =
     (if redir s ! (i * 2) AND 0xff = ucast vector \<and> rirr s ! i
      then (case notify_pin i (s\<lparr>rirr := (rirr s)[i := False]\<rparr>) of (s, ms) \<Rightarrow>
            case eoi_pins vector is s of (s, ms') \<Rightarrow> (s, ms @ ms'))
      else eoi_pins vector is s)"

definition eoi :: "u8 \<Rightarrow> ioapic \<Rightarrow> ioapic \<times> io_msg list" where
  "eoi vector s = eoi_pins vector [0..<PINS] s"

definition ioapic_reset :: "ioapic \<Rightarrow> ioapic" where
  "ioapic_reset s =
     (let r = concat (replicate PINS [0x10000, 0])
      in s\<lparr>redir := (if gsibase s = 0 then r[2 * 0 := 0x10700, 2 * 23 := 0x10400] else r),
           io_notify := replicate PINS False, ds := replicate PINS False, rirr := replicate PINS False,
           io_id := 0, io_index := 0\<rparr>)"

text \<open>A memory access: the result is the dword of the message after the access, or \<^term>\<open>None\<close>
  if the device does not answer.\<close>

definition ioapic_receive_mem ::
    "bool \<Rightarrow> u64 \<Rightarrow> u32 \<Rightarrow> ioapic \<Rightarrow> (u32 option \<times> ioapic \<times> io_msg list) res" where
  "ioapic_receive_mem rd phys v s =
     (let off = phys AND 0xff
      in if \<not> bus_in_range phys (ucast (io_base s)) 0x100 \<and> phys \<noteq> 0xfec00040 then Inr (None, s, [])
         else if off = 0
         then Inr (if rd then (Some (ucast (io_index s)), s, []) else (Some v, s\<lparr>io_index := ucast v\<rparr>, []))
         else if off = 0x10
         then (if rd then bindR (read_data v s) (\<lambda>v. Inr (Some v, s, []))
               else bindR (write_data v s) (\<lambda>(s, ms). Inr (Some v, s, ms)))
         else if off = 0x20 \<and> \<not> rd
         then (case pin_assert v ASSERT_IRQ s of (_, s, ms) \<Rightarrow> Inr (Some v, s, ms))
         else if off = 0x40 \<and> \<not> rd
         then (case eoi (ucast v) s of (s, ms) \<Rightarrow> Inr (Some v, s, ms))
         else Inr (None, s, []))"

definition ioapic_receive_irq :: "irq_type \<Rightarrow> u8 \<Rightarrow> ioapic \<Rightarrow> bool \<times> ioapic \<times> io_msg list" where
  "ioapic_receive_irq ty line s =
     (if \<not> bus_in_range (ucast line) (ucast (gsibase s)) 24 then (False, s, [])
      else (case pin_assert (irq_routing (ucast line) s) ty s of (_, s, ms) \<Rightarrow> (True, s, ms)))"

definition ioapic_receive_legacy :: "legacy_type \<Rightarrow> ioapic \<Rightarrow> bool \<times> ioapic \<times> io_msg list" where
  "ioapic_receive_legacy ty s =
     (if gsibase s = 0 \<and> ty = INTR then pin_assert 0 ASSERT_IRQ s
      else if gsibase s = 0 \<and> ty = NMI then pin_assert 23 ASSERT_IRQ s
      else if ty = RESET then (True, ioapic_reset s, [])
      else (False, s, []))"

definition ioapic_init :: "u64 \<Rightarrow> u32 \<Rightarrow> ioapic" where
  "ioapic_init base gsi = ioapic_reset
     \<lparr>io_base = ucast base, gsibase = gsi, io_index = 0, io_id = 0, redir = replicate 48 0,
      rirr = replicate 24 False, ds = replicate 24 False, io_notify = replicate 24 False\<rparr>"

section \<open>Invariant\<close>

definition ioapic_inv :: "ioapic \<Rightarrow> bool" where
  "ioapic_inv s \<longleftrightarrow> length (redir s) = 48 \<and> length (rirr s) = 24 \<and> length (ds s) = 24 \<and> length (io_notify s) = 24"

inductive ioapic_reach :: "ioapic \<Rightarrow> bool" where
  io_reach_init: "ioapic_reach (ioapic_init base gsi)"
| io_reach_mem: "ioapic_reach s \<Longrightarrow> ioapic_receive_mem rd phys v s = Inr (r, s', ms) \<Longrightarrow> ioapic_reach s'"
| io_reach_irq: "ioapic_reach s \<Longrightarrow> ioapic_receive_irq ty line s = (b, s', ms) \<Longrightarrow> ioapic_reach s'"
| io_reach_legacy: "ioapic_reach s \<Longrightarrow> ioapic_receive_legacy lt s = (b, s', ms) \<Longrightarrow> ioapic_reach s'"

lemma notify_pin_inv: "ioapic_inv s \<Longrightarrow> ioapic_inv (fst (notify_pin pin s))"
  by (auto simp: ioapic_inv_def notify_pin_def Let_def)

lemma notify_pin_fields:
  "redir (fst (notify_pin pin s)) = redir s" "rirr (fst (notify_pin pin s)) = rirr s" "ds (fst (notify_pin pin s)) = ds s"
  "io_base (fst (notify_pin pin s)) = io_base s" "gsibase (fst (notify_pin pin s)) = gsibase s"
  by (simp_all add: notify_pin_def Let_def)

lemma pin_assert_inv: "ioapic_inv s \<Longrightarrow> pin_assert p ty s = (b, s', ms) \<Longrightarrow> ioapic_inv s'"
  using notify_pin_inv
  by (fastforce simp: pin_assert_def Let_def ioapic_inv_def notify_pin_def split: if_splits prod.splits)

lemma write_redir_inv: "ioapic_inv s \<Longrightarrow> ioapic_inv (fst (write_redir i v s))"
proof -
  assume inv: "ioapic_inv s"
  define s1 where "s1 = s\<lparr>redir := (redir s)[i := v AND (if odd i then 0xffff0000 else 0x1afff)]\<rparr>"
  define s2 where "s2 = s1\<lparr>ds := (ds s1)[i div 2 := ds s1 ! (i div 2) \<and> flag (redir s1 ! (i div 2 * 2)) 0x8000]\<rparr>"
  have "ioapic_inv s2" "ioapic_inv (s2\<lparr>io_notify := (io_notify s2)[i div 2 := True]\<rparr>)"
    using inv by (simp_all add: ioapic_inv_def s1_def s2_def)
  then show ?thesis
    using pin_assert_inv [of s2 "of_nat (i div 2)" ASSERT_NOTIFY] notify_pin_inv
    unfolding write_redir_def Let_def s1_def [symmetric] s2_def [symmetric] by (auto split: prod.splits)
qed

lemma eoi_pins_inv: "ioapic_inv s \<Longrightarrow> ioapic_inv (fst (eoi_pins vector is s))"
proof (induction "is" arbitrary: s)
  case (Cons i "is")
  have "ioapic_inv (fst (notify_pin i (s\<lparr>rirr := (rirr s)[i := False]\<rparr>)))"
    using Cons.prems by (intro notify_pin_inv) (simp add: ioapic_inv_def)
  then show ?case using Cons by (fastforce split: prod.splits)
qed simp

lemma ioapic_reset_inv: "ioapic_inv (ioapic_reset s)"
  by (simp add: ioapic_inv_def ioapic_reset_def Let_def PINS_def length_concat sum_list_replicate)

lemma index_range:
  "bus_in_range (ucast (x :: u8)) 0x10 0x40 \<longleftrightarrow> 0x10 \<le> unat x \<and> unat x < 0x50"
  "bus_in_range (ucast (x :: u8)) 0x10 0x3f \<longleftrightarrow> 0x10 \<le> unat x \<and> unat x < 0x4f"
proof -
  have u: "unat (ucast x :: u64) = unat x" using unat_bound [of x] by (simp add: unat_ucast)
  show "bus_in_range (ucast x) 0x10 0x40 \<longleftrightarrow> 0x10 \<le> unat x \<and> unat x < 0x50"
    "bus_in_range (ucast x) 0x10 0x3f \<longleftrightarrow> 0x10 \<le> unat x \<and> unat x < 0x4f"
    by (auto simp: bus_in_range_def word_le_nat_alt u)
qed

lemma write_data_inv: "ioapic_inv s \<Longrightarrow> write_data v s = Inr (s', ms) \<Longrightarrow> ioapic_inv s'"
  using write_redir_inv [of s _ v]
  by (auto simp: write_data_def Let_def ioapic_inv_def split: if_splits) (metis fst_conv)+

lemma ioapic_mem_inv: "ioapic_inv s \<Longrightarrow> ioapic_receive_mem rd phys v s = Inr (r, s', ms) \<Longrightarrow> ioapic_inv s'"
proof -
  assume inv: "ioapic_inv s" and e: "ioapic_receive_mem rd phys v s = Inr (r, s', ms)"
  have "ioapic_inv (s\<lparr>io_index := ucast v\<rparr>)" using inv by (simp add: ioapic_inv_def)
  moreover have "ioapic_inv (fst (eoi (ucast v) s))" using inv by (simp add: eoi_def eoi_pins_inv)
  moreover have "ioapic_inv t" if "pin_assert v ASSERT_IRQ s = (b, t, ns)" for b t ns using pin_assert_inv inv that by blast
  ultimately show ?thesis using inv e write_data_inv [OF inv]
    by (auto simp: ioapic_receive_mem_def Let_def bindR_eq_Inr split: if_splits prod.splits)
qed

lemma ioapic_reach_inv: "ioapic_reach s \<Longrightarrow> ioapic_inv s"
proof (induction rule: ioapic_reach.induct)
  case (io_reach_init base gsi)
  then show ?case by (simp add: ioapic_init_def ioapic_reset_inv)
next
  case (io_reach_mem s rd phys v r s' ms)
  then show ?case using ioapic_mem_inv by blast
next
  case (io_reach_irq s ty line b s' ms)
  then show ?case using pin_assert_inv by (auto simp: ioapic_receive_irq_def split: if_splits prod.splits)
next
  case (io_reach_legacy s lt b s' ms)
  then show ?case using pin_assert_inv ioapic_reset_inv by (auto simp: ioapic_receive_legacy_def split: if_splits)
qed

lemma notify_msg_cong: "gsibase s = gsibase t \<Longrightarrow> notify_msg pin s = notify_msg pin t"
  by (simp add: notify_msg_def reverse_routing_def)

lemma eoi_pins_effect:
  assumes "ioapic_inv s" "eoi_pins v is s = (s2, ms)" "distinct is" "\<forall>i \<in> set is. i < 24"
  shows "(\<forall>j < 24. rirr s2 ! j \<longleftrightarrow> rirr s ! j \<and> \<not> (j \<in> set is \<and> redir s ! (j * 2) AND 0xff = ucast v))
    \<and> (\<forall>j \<in> set is. rirr s ! j \<and> redir s ! (j * 2) AND 0xff = ucast v \<and> io_notify s ! j \<longrightarrow> notify_msg j s \<in> set ms)"
  using assms
proof (induction "is" arbitrary: s s2 ms)
  case (Cons i "is")
  show ?case
  proof (cases "redir s ! (i * 2) AND 0xff = ucast v \<and> rirr s ! i")
    case True
    define t where "t = fst (notify_pin i (s\<lparr>rirr := (rirr s)[i := False]\<rparr>))"
    define ns where "ns = snd (notify_pin i (s\<lparr>rirr := (rirr s)[i := False]\<rparr>))"
    obtain ms' where e: "eoi_pins v is t = (s2, ms')" "ms = ns @ ms'"
      using Cons.prems(2) True by (auto simp: t_def ns_def split: prod.splits)
    have it: "ioapic_inv t" unfolding t_def using Cons.prems(1) by (intro notify_pin_inv) (simp add: ioapic_inv_def)
    have f: "redir t = redir s" "rirr t = (rirr s)[i := False]" "gsibase t = gsibase s"
      by (simp_all add: t_def notify_pin_fields)
    have n: "io_notify t ! j = io_notify s ! j" if "j \<noteq> i" for j
      using that by (simp add: t_def notify_pin_def)
    have i: "i < length (rirr s)" using Cons.prems(1,4) by (simp add: ioapic_inv_def)
    have m: "io_notify s ! i \<Longrightarrow> notify_msg i s \<in> set ns"
      using notify_msg_cong [of "s\<lparr>rirr := (rirr s)[i := False]\<rparr>" s i] by (simp add: ns_def notify_pin_def)
    have c: "notify_msg j t = notify_msg j s" for j by (rule notify_msg_cong [OF f(3)])
    have d: "i \<notin> set is" "distinct is" "\<forall>i \<in> set is. i < 24" using Cons.prems(3,4) by auto
    note IH = Cons.IH [OF it e(1) d(2,3), unfolded f c]
    have "rirr s2 ! j \<longleftrightarrow> rirr s ! j \<and> \<not> (j \<in> set (i # is) \<and> redir s ! (j * 2) AND 0xff = ucast v)" if "j < 24" for j
      using IH that True i by (cases "j = i") simp_all
    moreover have "notify_msg j s \<in> set ms"
      if "j \<in> set (i # is)" "rirr s ! j \<and> redir s ! (j * 2) AND 0xff = ucast v \<and> io_notify s ! j" for j
    proof (cases "j = i")
      case True
      then show ?thesis using m that e(2) by simp
    next
      case False
      then have "j \<in> set is" "(rirr s)[i := False] ! j" "io_notify t ! j" using that n by simp_all
      then show ?thesis using IH that(2) e(2) by simp
    qed
    ultimately show ?thesis by blast
  next
    case False
    then show ?thesis using Cons.IH [OF Cons.prems(1), of s2 ms] Cons.prems by auto
  qed
qed simp

section \<open>Properties\<close>

text \<open>Claim C37. The memory interface touches the redirection table out of bounds exactly for the
  index register values 0x40 to 0x4f (reads) and 0x40 to 0x4e (writes), which the range
  checks of \<^verbatim>\<open>read_data\<close> and \<^verbatim>\<open>write_data\<close> let through; every other access in a reachable
  state is in bounds.\<close>

theorem ioapic_out_of_bounds_exactly:
  assumes "ioapic_reach s"
  shows "ioapic_receive_mem rd phys v s = Inl e \<longleftrightarrow> e = Undefined
    \<and> (bus_in_range phys (ucast (io_base s)) 0x100 \<or> phys = 0xfec00040) \<and> phys AND 0xff = 0x10
    \<and> 0x40 \<le> unat (io_index s) \<and> unat (io_index s) < (if rd then 0x50 else 0x4f)"
proof -
  have l: "length (redir s) = 48" using ioapic_reach_inv [OF assms] by (simp add: ioapic_inv_def)
  have r: "read_data v s = Inl e \<longleftrightarrow> e = Undefined \<and> 0x40 \<le> unat (io_index s) \<and> unat (io_index s) < 0x50"
    by (auto simp: read_data_def index_range Let_def l)
  have w: "write_data v s = Inl e \<longleftrightarrow> e = Undefined \<and> 0x40 \<le> unat (io_index s) \<and> unat (io_index s) < 0x4f"
    by (auto simp: write_data_def index_range Let_def l)
  show ?thesis
    using r w by (cases rd) (auto simp: ioapic_receive_mem_def Let_def bindR_eq_Inl split: prod.splits)
qed

theorem ioapic_out_of_bounds_exactly_witness:
  "ioapic_reach (ioapic_init 0xfec00000 0) \<and>
   ioapic_receive_mem False 0xfec00010 0 (ioapic_init 0xfec00000 0) \<noteq> Inl Undefined"
  using io_reach_init [of "0xfec00000" 0]
    ioapic_out_of_bounds_exactly [OF io_reach_init [of "0xfec00000" 0], of False "0xfec00010" 0 Undefined]
  by (simp add: ioapic_init_def ioapic_reset_def)

text \<open>The routing of interrupt lines to pins and the routing of pins back to lines are
  inverse to each other, for every base of the interrupt lines.\<close>

lemma ioapic_routing_inverse:
  "reverse_routing (irq_routing gsi s) s = gsi \<and> irq_routing (reverse_routing pin s) s = pin"
proof -
  define sw where "sw x = (if x = 2 \<or> x = 0 then 2 - x else x)" for x :: u32
  have sw: "sw (sw x) = x" for x by (simp add: sw_def)
  have "irq_routing g s = sw g - gsibase s" "reverse_routing p s = sw (p + gsibase s)" for g p
    by (simp_all add: irq_routing_def reverse_routing_def sw_def Let_def)
  then show ?thesis by (simp add: sw)
qed

text \<open>A level-triggered interrupt is delivered once per end of interrupt: asserting an
  unmasked level-triggered pin sends exactly one message with its vector, further asserts
  send nothing and change nothing until the end of interrupt for the vector, which
  makes the pin ready again and passes the notification on that was requested.\<close>

lemma ioapic_level_once:
  assumes inv: "ioapic_inv s" and pin: "pin < 24" and ty: "ty \<noteq> DEASSERT_IRQ"
    and ready: "\<not> rirr s ! pin" "flag (redir s ! (2 * pin)) 0x8000" "\<not> flag (redir s ! (2 * pin)) 0x10000"
  shows "\<exists>s1. pin_assert (of_nat pin) ty s = (True, s1,
        [IoMem (msi_phys (redir s ! (2 * pin + 1)) (redir s ! (2 * pin))) (redir s ! (2 * pin) OR 0x4000)])
    \<and> (\<forall>ty'. ty' \<noteq> DEASSERT_IRQ \<longrightarrow> pin_assert (of_nat pin) ty' s1 = (True, s1, []))
    \<and> (\<exists>s2 ms. eoi (ucast (redir s ! (2 * pin) AND 0xff)) s1 = (s2, ms) \<and> \<not> rirr s2 ! pin
        \<and> (ty = ASSERT_NOTIFY \<longrightarrow> notify_msg pin s \<in> set ms))"
proof -
  define s1 where "s1 = s\<lparr>io_notify := (io_notify s)[pin := (ty = ASSERT_NOTIFY)], rirr := (rirr s)[pin := True],
    ds := (ds s)[pin := False]\<rparr>"
  have u: "unat (of_nat pin :: u32) = pin" using pin by (simp add: unat_of_nat)
  have l: "length (redir s) = 48" "length (rirr s) = 24" "length (io_notify s) = 24" "length (ds s) = 24"
    using inv by (auto simp: ioapic_inv_def)
  have i1: "ioapic_inv s1" using l by (simp add: ioapic_inv_def s1_def)
  have a: "pin_assert (of_nat pin) ty s = (True, s1,
        [IoMem (msi_phys (redir s ! (2 * pin + 1)) (redir s ! (2 * pin))) (redir s ! (2 * pin) OR 0x4000)])"
    using pin ty ready by (simp add: pin_assert_def Let_def u PINS_def s1_def)
  have b: "pin_assert (of_nat pin) ty' s1 = (True, s1, [])" if "ty' \<noteq> DEASSERT_IRQ" for ty'
    using that pin l by (simp add: pin_assert_def Let_def u PINS_def s1_def)
  obtain s2 ms where e: "eoi (ucast (redir s ! (2 * pin) AND 0xff)) s1 = (s2, ms)" by fastforce
  have v: "ucast (ucast (x AND 0xff) :: u8) = x AND 0xff" for x :: u32
  proof -
    have "unat (x AND 0xff) < 256" using unat_and_mask [of x 8] by (simp add: mask_eq_exp_minus_1)
    then show ?thesis by (simp add: word_unat_eq_iff unat_ucast)
  qed
  have r: "redir s1 = redir s" "rirr s1 ! pin" "io_notify s1 ! pin = (ty = ASSERT_NOTIFY)" "gsibase s1 = gsibase s"
    using l pin by (simp_all add: s1_def)
  have "\<not> rirr s2 ! pin \<and> (ty = ASSERT_NOTIFY \<longrightarrow> notify_msg pin s \<in> set ms)"
    using eoi_pins_effect [OF i1 e [unfolded eoi_def]] pin r v [of "redir s ! (2 * pin)"] notify_msg_cong [OF r(4), of pin]
    by (auto simp: PINS_def mult.commute)
  then show ?thesis using a b e by blast
qed

text \<open>Claim C28. No level-triggered interrupt is lost while its pin is masked: asserting a masked
  pin that is not in service sends nothing but remembers the interrupt, and the write that unmasks the
  pin and leaves it level-triggered sends it, to the vector that the new entry selects.\<close>

theorem ioapic_pending_delivered:
  assumes inv: "ioapic_inv s" and pin: "pin < 24" and ty: "ty \<noteq> DEASSERT_IRQ"
    and masked: "\<not> rirr s ! pin" "flag (redir s ! (2 * pin)) 0x8000" "flag (redir s ! (2 * pin)) 0x10000"
    and v: "flag v 0x8000" "\<not> flag v 0x10000"
  shows "\<exists>s1. pin_assert (of_nat pin) ty s = (True, s1, [])
    \<and> (\<exists>s2. write_data v (s1\<lparr>io_index := of_nat (0x10 + 2 * pin)\<rparr>)
          = Inr (s2, [IoMem (msi_phys (redir s ! (2 * pin + 1)) (v AND 0x1afff)) ((v AND 0x1afff) OR 0x4000)])
        \<and> rirr s2 ! pin)"
proof -
  have u: "unat (of_nat pin :: u32) = pin" using pin by (simp add: unat_of_nat)
  have l: "length (redir s) = 48" "length (rirr s) = 24" "length (io_notify s) = 24" "length (ds s) = 24"
    using inv by (auto simp: ioapic_inv_def)
  define s1 where "s1 = s\<lparr>io_notify := (io_notify s)[pin := (ty = ASSERT_NOTIFY)], ds := (ds s)[pin := True]\<rparr>"
  have a: "pin_assert (of_nat pin) ty s = (True, s1, [])"
    using pin ty masked by (simp add: pin_assert_def Let_def u PINS_def s1_def)
  define t where "t = s1\<lparr>io_index := of_nat (0x10 + 2 * pin)\<rparr>"
  have g: "unat (of_nat n :: u8) = n" if "n < 256" for n using that by (simp add: unat_of_nat)
  have x: "unat (io_index t) = 0x10 + 2 * pin"
    using g [of "0x10 + 2 * pin"] pin by (simp add: t_def del: of_nat_add of_nat_mult)
  have f: "flag (v AND 0x1afff) 0x8000" "\<not> flag (v AND 0x1afff) 0x10000" "flag (NOT (v AND 0x1afff)) 0x10000"
  proof -
    show "flag (v AND 0x1afff) 0x8000" "\<not> flag (v AND 0x1afff) 0x10000"
      using v by (simp_all add: flag_def and.assoc)
    then show "flag (NOT (v AND 0x1afff)) 0x10000"
      using flag_not [of 16 "v AND 0x1afff"] by simp
  qed
  define t2 where "t2 = t\<lparr>redir := (redir s)[2 * pin := v AND 0x1afff], ds := (ds s)[pin := True]\<rparr>"
  have b: "bus_in_range (ucast (io_index t)) 0x10 0x3f" using index_range(2) [of "io_index t"] x pin by simp
  have w: "write_data v t = Inr (write_redir (2 * pin) v t)"
    using x pin l unfolding write_data_def if_P [OF b] by (simp add: Let_def t_def s1_def)
  have "write_redir (2 * pin) v t = (case pin_assert (of_nat pin) ASSERT_NOTIFY t2 of (_, s, ms) \<Rightarrow> (s, ms))"
    using f l pin by (simp add: write_redir_def Let_def t2_def t_def s1_def mult.commute split: prod.split)
  moreover have "\<exists>s2. pin_assert (of_nat pin) ASSERT_NOTIFY t2 = (True, s2,
      [IoMem (msi_phys (redir s ! (2 * pin + 1)) (v AND 0x1afff)) ((v AND 0x1afff) OR 0x4000)]) \<and> rirr s2 ! pin"
    using f l pin masked(1) by (simp add: pin_assert_def Let_def u PINS_def t2_def t_def s1_def)
  ultimately show ?thesis using a w unfolding t_def by auto
qed

theorem ioapic_pending_delivered_witness:
  "let s = \<lparr>io_base = 0xfec00000, gsibase = 0, io_index = 0, io_id = 0, redir = (replicate 48 0)[4 := 0x18031],
        rirr = replicate 24 False, ds = replicate 24 False, io_notify = replicate 24 False\<rparr>
   in ioapic_inv s \<and> (\<exists>s1. pin_assert 2 ASSERT_IRQ s = (True, s1, [])
     \<and> (\<exists>s2 m. write_data 0x8031 (s1\<lparr>io_index := 0x14\<rparr>) = Inr (s2, [m])))"
proof -
  define s where "s = \<lparr>io_base = 0xfec00000, gsibase = 0, io_index = 0, io_id = 0, redir = (replicate 48 0)[4 := 0x18031],
        rirr = replicate 24 False, ds = replicate 24 False, io_notify = replicate 24 False\<rparr>"
  have i: "ioapic_inv s" by (simp add: ioapic_inv_def s_def)
  have r: "\<not> rirr s ! 2" "flag (redir s ! (2 * 2)) 0x8000" "flag (redir s ! (2 * 2)) 0x10000"
    "flag (0x8031 :: u32) 0x8000" "\<not> flag (0x8031 :: u32) 0x10000"
    by (simp_all add: s_def flag_def)
  have "\<exists>s1. pin_assert 2 ASSERT_IRQ s = (True, s1, [])
     \<and> (\<exists>s2 m. write_data 0x8031 (s1\<lparr>io_index := 0x14\<rparr>) = Inr (s2, [m]))"
    using ioapic_pending_delivered [OF i, of 2 ASSERT_IRQ "0x8031"] r by auto
  then show ?thesis using i unfolding s_def Let_def by blast
qed

end
