(* ===== verification/Ps2Mouse.thy ===== *)
theory Ps2Mouse
  imports Bus
begin

text \<open>
  The PS/2 mouse of \<^verbatim>\<open>apps/vancouver/model/ps2mouse.cc\<close>. The two movement counters are
  32-bit signed integers, kept as integers with the wrap-around of \<^verbatim>\<open>+=\<close> and \<^verbatim>\<open><<=\<close> written
  out; the multiplications of the 2:1 scaling are undefined when they overflow. The only
  message the mouse sends is the notification of its PS/2 port, always as its last action:
  a receive function says with a flag whether it sends one.
\<close>

section \<open>Definitions\<close>

datatype mouse_param = PARAM_NONE | PARAM_ECHO | PARAM_SET_RESOLUTION | PARAM_SET_SAMPLERATE

record mouse =
  m_ps2port :: u32
  m_hostmouse :: u32
  m_packet :: u64
  m_status :: u8
  m_resolution :: u8
  m_samplerate :: u8
  m_posx :: int
  m_posy :: int
  m_param :: mouse_param

definition HOST_RESOLUTION_SHIFT :: nat where "HOST_RESOLUTION_SHIFT = 2"

definition wrap32 :: "int \<Rightarrow> int" where
  "wrap32 v = signed_take_bit 31 v"

text \<open>The scaling by the resolution; a shift by 32 or more bits is undefined.\<close>

definition scale_resolution :: "u8 \<Rightarrow> int \<Rightarrow> int res" where
  "scale_resolution r v =
     (if unat r < HOST_RESOLUTION_SHIFT then Inr (v div 2 ^ (HOST_RESOLUTION_SHIFT - unat r))
      else if unat r - HOST_RESOLUTION_SHIFT < 32 then Inr (wrap32 (v * 2 ^ (unat r - HOST_RESOLUTION_SHIFT)))
      else Inl Undefined)"

definition scale_coord :: "bool \<Rightarrow> mouse \<Rightarrow> int \<Rightarrow> int res" where
  "scale_coord report m v = bindR (scale_resolution (m_resolution m) v) (\<lambda>v.
     if report \<and> flag (m_status m) 0x10 then
       if v = 0 \<or> v = -1 \<or> v = 1 then Inr v
       else if v = -2 \<or> v = 2 then Inr (v div 2)
       else if v = 3 \<or> v = 4 \<or> v = 5 then Inr ((v - 2) * 3)
       else if v = -3 \<or> v = -4 \<or> v = -5 then Inr ((v + 2) * 3)
       else if wrap32 (v * 2) = v * 2 then Inr (v * 2) else Inl Undefined
     else Inr v)"

text \<open>What a movement is scaled to: by the resolution, from a quarter to twice the movement, and with the scaling on
  by the table of the PS/2 protocol for it.\<close>

definition scaled :: "u8 \<Rightarrow> bool \<Rightarrow> int \<Rightarrow> int" where
  "scaled r on v =
     (let w = v * 2 ^ unat r div 4
      in if \<not> on \<or> \<bar>w\<bar> \<le> 1 then w
         else if \<bar>w\<bar> = 2 then sgn w
         else if \<bar>w\<bar> \<le> 5 then 3 * (w - 2 * sgn w)
         else 2 * w)"

text \<open>The limit of a movement and the overflow flag of the packet.\<close>

definition limit_pos :: "int \<Rightarrow> int" where
  "limit_pos p = (if p > 255 \<or> p < -256 then (if p < 0 then -256 else 255) else p)"

definition gen_packet :: "bool \<Rightarrow> mouse \<Rightarrow> (u32 \<times> mouse) res" where
  "gen_packet report m =
     bindR (scale_coord report m (m_posx m)) (\<lambda>px.
     bindR (scale_coord report m (m_posy m)) (\<lambda>py.
     let value = (if py > 255 \<or> py < -256 then 0x8000 else 0) OR (if px > 255 \<or> px < -256 then 0x4000 else 0)
               OR (if py < 0 then 0x2000 else 0) OR (if px < 0 then 0x1000 else 0)
               OR push_bit 8 (ucast (m_status m AND 0xf)) OR 3;
         value = value OR push_bit 16 (word_of_int (limit_pos px) AND 0xff);
         value = value OR push_bit 24 (word_of_int (limit_pos py) AND 0xff)
     in Inr (value, m\<lparr>m_posx := 0, m_posy := 0\<rparr>)))"

definition set_packet :: "u64 \<Rightarrow> mouse \<Rightarrow> mouse \<times> bool" where
  "set_packet packet m = (m\<lparr>m_packet := packet\<rparr>, True)"

definition update_packet :: "mouse \<Rightarrow> (mouse \<times> bool) res" where
  "update_packet m =
     (if m_packet m AND 0xff = 0 \<and> flag (NOT (m_status m)) 0x40
      then bindR (gen_packet True m) (\<lambda>(v, m). Inr (set_packet (ucast v) m))
      else Inr (m, False))"

definition mouse_receive_input :: "u32 \<Rightarrow> u32 \<Rightarrow> mouse \<Rightarrow> (bool \<times> mouse \<times> bool) res" where
  "mouse_receive_input device data m =
     (if device \<noteq> m_hostmouse m then Inr (False, m, False)
      else if data AND 0xff \<noteq> 3 then Inl (Throw E_ASSERT)
      else let dx = (drop_bit 16 data AND 0xff) - (drop_bit 4 data AND 0x100);
               dy = (drop_bit 24 data AND 0xff) - (drop_bit 5 data AND 0x100);
               m = m\<lparr>m_posx := sint (word_of_int (m_posx m) + dx :: u32),
                     m_posy := sint (word_of_int (m_posy m) + dy :: u32),
                     m_status := (m_status m AND 0xf8) OR ucast (drop_bit 8 data AND 7)\<rparr>
           in bindR (update_packet m) (\<lambda>(m, n). Inr (True, m, n)))"

definition set_defaults :: "mouse \<Rightarrow> mouse" where
  "set_defaults m = m\<lparr>m_packet := 0, m_samplerate := 100, m_resolution := 2, m_status := 8,
     m_param := PARAM_NONE, m_posx := 0, m_posy := 0\<rparr>"

text \<open>\<^verbatim>\<open>READ_KEY\<close>: the low byte of the packet counts the bytes that are left.\<close>

definition mouse_read_key :: "mouse \<Rightarrow> (u8 \<times> mouse) option" where
  "mouse_read_key m =
     (let n = m_packet m AND 0xff
      in if 1 \<le> n \<and> n \<le> 3
         then Some (ucast (drop_bit 8 (m_packet m) AND 0xff),
                    m\<lparr>m_packet := (drop_bit 8 (m_packet m) AND NOT 0xff) OR (n - 1)\<rparr>)
         else None)"

text \<open>The commands when no parameter is expected, with the answer packet.\<close>

definition mouse_plain_command :: "u8 \<Rightarrow> mouse \<Rightarrow> (u64 \<times> mouse) res" where
  "mouse_plain_command v m =
     (if v = 0xe6 then Inr (0xfa01, m\<lparr>m_status := m_status m AND NOT 0x10\<rparr>)
      else if v = 0xe7 then Inr (0xfa01, m\<lparr>m_status := m_status m OR 0x10\<rparr>)
      else if v = 0xe8 then Inr (0xfa01, m\<lparr>m_param := PARAM_SET_RESOLUTION\<rparr>)
      else if v = 0xe9 then
        Inr (push_bit 32 (ucast (m_samplerate m)) OR
             scast (push_bit 24 (ucast (m_resolution m)) OR push_bit 16 (ucast (m_status m)) OR 0xfa00 OR 4 :: u32), m)
      else if v = 0xea then Inr (0xfa01, m\<lparr>m_status := m_status m AND NOT 0x40\<rparr>)
      else if v = 0xeb then
        bindR (gen_packet False m) (\<lambda>(p, m). Inr ((push_bit 16 (ucast p AND NOT 0xff) OR 0xfa00) + 1, m))
      else if v = 0xec then Inr (0xfa01, m\<lparr>m_param := PARAM_NONE\<rparr>)
      else if v = 0xee then Inr (0xfa01, m\<lparr>m_param := PARAM_ECHO\<rparr>)
      else if v = 0xf0 then Inr (0xfa01, m\<lparr>m_status := m_status m OR 0x40\<rparr>)
      else if v = 0xf2 then Inr (0x00fa02, m)
      else if v = 0xf3 then Inr (0xfa01, m\<lparr>m_param := PARAM_SET_SAMPLERATE\<rparr>)
      else if v = 0xf4 then Inr (0xfa01, m\<lparr>m_status := m_status m OR 0x20\<rparr>)
      else if v = 0xf5 then Inr (0xfa01, m\<lparr>m_status := m_status m AND NOT 0x20\<rparr>)
      else if v = 0xf6 then Inr (0xfa01, set_defaults m)
      else if v = 0xff then Inr (0x00aafa03, set_defaults m)
      else Inr (0xfc01, m))"

definition mouse_send_command :: "u8 \<Rightarrow> mouse \<Rightarrow> (mouse \<times> bool) res" where
  "mouse_send_command v m =
     bindR (case m_param m of
         PARAM_SET_RESOLUTION \<Rightarrow> Inr (0xfa01, m\<lparr>m_resolution := v AND 3, m_param := PARAM_NONE\<rparr>)
       | PARAM_SET_SAMPLERATE \<Rightarrow> Inr (0xfa01, m\<lparr>m_samplerate := v, m_param := PARAM_NONE\<rparr>)
       | PARAM_ECHO \<Rightarrow> if v \<noteq> 0xff \<and> v \<noteq> 0xec then Inr (push_bit 8 (ucast v) OR 1, m)
                      else mouse_plain_command v m
       | PARAM_NONE \<Rightarrow> mouse_plain_command v m)
       (\<lambda>(packet, m). Inr (if packet AND 0xff \<noteq> 0 then set_packet packet m else (m, False)))"

text \<open>The result of the receive function for the PS/2 bus, the value that the message has then, the
  new state and the notification.\<close>

definition mouse_receive_ps2 :: "u32 \<Rightarrow> ps2_type \<Rightarrow> u8 \<Rightarrow> mouse \<Rightarrow> (bool \<times> u8 \<times> mouse \<times> bool) res" where
  "mouse_receive_ps2 port t v m =
     (if port \<noteq> m_ps2port m then Inr (False, v, m, False)
      else case t of
        READ_KEY \<Rightarrow> (case mouse_read_key m of Some (v', m') \<Rightarrow> Inr (True, v', m', False)
                                            | None \<Rightarrow> Inr (False, v, m, False))
      | SEND_COMMAND \<Rightarrow> bindR (mouse_send_command v m) (\<lambda>(m, n). Inr (True, v, m, n))
      | NOTIFY \<Rightarrow> Inr (False, v, m, False))"

definition mouse_init :: "u32 \<Rightarrow> u32 \<Rightarrow> mouse" where
  "mouse_init ps2port hostmouse = set_defaults \<lparr>m_ps2port = ps2port, m_hostmouse = hostmouse, m_packet = 0,
     m_status = 0, m_resolution = 0, m_samplerate = 0, m_posx = 0, m_posy = 0, m_param = PARAM_NONE\<rparr>"

text \<open>Reading until the mouse has no byte left, at most \<^term>\<open>n\<close> times.\<close>

fun mouse_reads :: "nat \<Rightarrow> mouse \<Rightarrow> u8 list" where
  "mouse_reads 0 m = []"
| "mouse_reads (Suc n) m = (case mouse_read_key m of None \<Rightarrow> [] | Some (v, m) \<Rightarrow> v # mouse_reads n m)"

text \<open>The number of bytes that can still be read.\<close>

definition mouse_left :: "mouse \<Rightarrow> nat" where
  "mouse_left m = (let n = unat (m_packet m AND 0xff) in if n \<le> 3 then n else 0)"

text \<open>The movement in an input message: a byte and its sign bit.\<close>

definition mouse_delta :: "u32 \<Rightarrow> nat \<Rightarrow> nat \<Rightarrow> int" where
  "mouse_delta data sh sg = int (unat (drop_bit sh data AND 0xff)) - (if bit data sg then 256 else 0)"

definition mouse_inv :: "mouse \<Rightarrow> bool" where
  "mouse_inv m \<longleftrightarrow> unat (m_resolution m) \<le> 3
     \<and> - (2 ^ 31) \<le> m_posx m \<and> m_posx m < 2 ^ 31 \<and> - (2 ^ 31) \<le> m_posy m \<and> m_posy m < 2 ^ 31"

inductive mouse_reach :: "mouse \<Rightarrow> bool" where
  reach_init: "mouse_reach (mouse_init p h)"
| reach_input: "mouse_reach m \<Longrightarrow> mouse_receive_input d v m = Inr (b, m', n) \<Longrightarrow> mouse_reach m'"
| reach_ps2: "mouse_reach m \<Longrightarrow> mouse_receive_ps2 p t v m = Inr (b, v', m', n) \<Longrightarrow> mouse_reach m'"

section \<open>Lemmas\<close>

text \<open>One read: the byte behind the count, and the rest of the packet with the count decreased.\<close>

lemma packet_low: "(drop_bit 8 p AND NOT 0xff OR c) AND 0xff = (c :: u64) AND 0xff"
  by (rule bit_word_eqI) (auto simp: bit_simps)

lemma mask8: "(0xff :: u64) = mask 8"
  by code_simp

lemma packet_high: "(c :: u64) \<le> 3 \<Longrightarrow> drop_bit 8 (drop_bit 8 p AND NOT 0xff OR c) = drop_bit 16 p"
proof -
  assume c: "c \<le> 3"
  have "drop_bit 8 c = 0" using c by (simp add: word_unat_eq_iff unat_drop_bit word_le_nat_alt)
  moreover have "drop_bit 8 (NOT 0xff :: u64) = mask 56" by code_simp
  moreover have "drop_bit 16 p AND mask 56 = drop_bit 16 (p :: u64)"
    by (rule bit_word_eqI) (auto simp: bit_simps dest: bit_imp_le_length)
  ultimately show ?thesis by (simp only: drop_bit_or drop_bit_and drop_bit_drop_bit) simp
qed

lemma mouse_read_step:
  assumes "m_packet m AND 0xff = 1 + of_nat k" "k \<le> 2"
  obtains p where "mouse_read_key m = Some (ucast (drop_bit 8 (m_packet m)), m\<lparr>m_packet := p\<rparr>)"
    "p AND 0xff = of_nat k" "drop_bit 8 p = drop_bit 16 (m_packet m)"
proof
  let ?p = "drop_bit 8 (m_packet m) AND NOT 0xff OR of_nat k"
  have k: "k = 0 \<or> k = 1 \<or> k = 2" using assms(2) by auto
  have b: "ucast (drop_bit 8 (m_packet m) AND 0xff) = (ucast (drop_bit 8 (m_packet m)) :: u8)"
    unfolding mask8 by (rule bit_word_eqI) (auto simp: bit_simps)
  have d: "(m_packet m AND 0xff) - 1 = of_nat k" using assms(1) by simp
  have n: "1 \<le> m_packet m AND 0xff" "m_packet m AND 0xff \<le> 3" using assms k by auto
  show "mouse_read_key m = Some (ucast (drop_bit 8 (m_packet m)), m\<lparr>m_packet := ?p\<rparr>)"
    unfolding mouse_read_key_def Let_def using n by (simp only: b d) simp
  show "?p AND 0xff = of_nat k" unfolding packet_low using k by auto
  show "drop_bit 8 ?p = drop_bit 16 (m_packet m)" by (rule packet_high) (use k in auto)
qed

lemma mouse_read_none: "m_packet m AND 0xff = 0 \<or> m_packet m AND 0xff > 3 \<Longrightarrow> mouse_read_key m = None"
  by (auto simp: mouse_read_key_def Let_def word_le_nat_alt word_less_nat_alt)

lemma packet_count_cases:
  assumes "mouse_read_key m = Some (v, m')"
  obtains k where "m_packet m AND 0xff = 1 + of_nat k" "k \<le> 2"
proof -
  let ?n = "m_packet m AND 0xff"
  have "1 \<le> ?n" "?n \<le> 3" using assms by (auto simp: mouse_read_key_def Let_def split: if_splits)
  then have n: "1 \<le> unat ?n" "unat ?n \<le> 3" by (simp_all add: word_le_nat_alt)
  have "?n = of_nat (unat ?n)" by simp
  also have "\<dots> = 1 + of_nat (unat ?n - 1)" using n(1) by (simp add: of_nat_diff)
  finally show thesis using that [of "unat ?n - 1"] n(2) by simp
qed

lemma mouse_left_count: "m_packet m AND 0xff = of_nat k \<Longrightarrow> k \<le> 3 \<Longrightarrow> mouse_left m = k"
  by (simp add: mouse_left_def unat_of_nat)

lemma mouse_read_left:
  assumes "mouse_read_key m = Some (v, m')"
  shows "mouse_left m' < mouse_left m"
proof -
  obtain k where k: "m_packet m AND 0xff = 1 + of_nat k" "k \<le> 2" by (rule packet_count_cases [OF assms])
  obtain p where p: "mouse_read_key m = Some (ucast (drop_bit 8 (m_packet m)), m\<lparr>m_packet := p\<rparr>)"
    "p AND 0xff = of_nat k" by (rule mouse_read_step [OF k])
  have "mouse_left m' = k" using p assms k(2) by (auto intro: mouse_left_count)
  moreover have "mouse_left m = Suc k" using k by (intro mouse_left_count) auto
  ultimately show ?thesis by simp
qed

text \<open>A packet of three bytes is delivered byte by byte.\<close>

lemma mouse_reads_three:
  assumes "m_packet m AND 0xff = 3"
  shows "mouse_reads (Suc (Suc (Suc (Suc n)))) m =
    [ucast (drop_bit 8 (m_packet m)), ucast (drop_bit 16 (m_packet m)), ucast (drop_bit 24 (m_packet m))]"
proof -
  obtain p where p: "mouse_read_key m = Some (ucast (drop_bit 8 (m_packet m)), m\<lparr>m_packet := p\<rparr>)"
    "p AND 0xff = of_nat 2" "drop_bit 8 p = drop_bit 16 (m_packet m)"
    by (rule mouse_read_step [of m 2]) (use assms in auto)
  let ?m = "m\<lparr>m_packet := p\<rparr>"
  obtain q where q: "mouse_read_key ?m = Some (ucast (drop_bit 8 p), m\<lparr>m_packet := q\<rparr>)"
    "q AND 0xff = of_nat 1" "drop_bit 8 q = drop_bit 16 p"
    by (rule mouse_read_step [of ?m 1]) (use p(2) in auto)
  let ?m = "m\<lparr>m_packet := q\<rparr>"
  obtain r where r: "mouse_read_key ?m = Some (ucast (drop_bit 8 q), m\<lparr>m_packet := r\<rparr>)"
    "r AND 0xff = of_nat 0" "drop_bit 8 r = drop_bit 16 q"
    by (rule mouse_read_step [of ?m 0]) (use q(2) in auto)
  have none: "mouse_read_key (m\<lparr>m_packet := r\<rparr>) = None" by (rule mouse_read_none) (use r(2) in simp)
  have "drop_bit 8 q = drop_bit 8 (drop_bit 8 p)" using q(3) by (simp add: drop_bit_drop_bit)
  then have "drop_bit 8 q = drop_bit 24 (m_packet m)" using p(3) by (simp add: drop_bit_drop_bit)
  then show ?thesis using p q r none by simp
qed

text \<open>The bytes of a generated packet.\<close>

lemma gen_bytes:
  fixes px py :: int and st :: u8 and oy ox ny nx :: bool
  defines "v \<equiv> ((if oy then 0x8000 else 0) OR (if ox then 0x4000 else 0) OR (if ny then 0x2000 else 0)
     OR (if nx then 0x1000 else 0) OR push_bit 8 (ucast (st AND 0xf)) OR 3
     OR push_bit 16 (word_of_int px AND 0xff) OR push_bit 24 (word_of_int py AND 0xff)) :: u32"
  shows "(ucast v :: u64) AND 0xff = 3"
    "ucast (drop_bit 8 (ucast v :: u64)) = (((if oy then 0x80 else 0) OR (if ox then 0x40 else 0)
        OR (if ny then 0x20 else 0) OR (if nx then 0x10 else 0) OR (st AND 0xf)) :: u8)"
    "ucast (drop_bit 16 (ucast v :: u64)) = (word_of_int px :: u8)"
    "ucast (drop_bit 24 (ucast v :: u64)) = (word_of_int py :: u8)"
proof -
  have eqs: "(0x8000 :: u32) = push_bit 15 1" "(0x4000 :: u32) = push_bit 14 1" "(0x2000 :: u32) = push_bit 13 1"
    "(0x1000 :: u32) = push_bit 12 1" "(0x80 :: u8) = push_bit 7 1" "(0x40 :: u8) = push_bit 6 1"
    "(0x20 :: u8) = push_bit 5 1" "(0x10 :: u8) = push_bit 4 1" "(0xff :: u32) = mask 8" "(0xf :: u8) = mask 4"
    "(3 :: u32) = mask 2" "(3 :: u64) = mask 2"
    by code_simp+
  have bt: "bit (if c then x else 0) n \<longleftrightarrow> c \<and> bit (x :: 'a::len word) n" for c x n by simp
  show "(ucast v :: u64) AND 0xff = 3"
  proof (rule bit_word_eqI)
    fix n assume "n < LENGTH(64)"
    show "bit ((ucast v :: u64) AND 0xff) n = bit (3 :: u64) n"
    proof (cases "n < 8")
      case True
      then have "n = 0 \<or> n = 1 \<or> n = 2 \<or> n = 3 \<or> n = 4 \<or> n = 5 \<or> n = 6 \<or> n = 7" by auto
      then show ?thesis unfolding v_def eqs mask8 by (elim disjE) (simp_all add: bit_simps bt)
    next
      case False
      then show ?thesis unfolding eqs mask8 by (simp add: bit_simps)
    qed
  qed
  show "ucast (drop_bit 16 (ucast v :: u64)) = (word_of_int px :: u8)"
  proof (rule bit_word_eqI)
    fix n assume "n < LENGTH(8)"
    then have "n = 0 \<or> n = 1 \<or> n = 2 \<or> n = 3 \<or> n = 4 \<or> n = 5 \<or> n = 6 \<or> n = 7" by auto
    then show "bit (ucast (drop_bit 16 (ucast v :: u64)) :: u8) n = bit ((word_of_int px :: u8)) n"
      unfolding v_def eqs by (elim disjE) (simp_all add: bit_simps bt)
  qed
  show "ucast (drop_bit 24 (ucast v :: u64)) = (word_of_int py :: u8)"
  proof (rule bit_word_eqI)
    fix n assume "n < LENGTH(8)"
    then have "n = 0 \<or> n = 1 \<or> n = 2 \<or> n = 3 \<or> n = 4 \<or> n = 5 \<or> n = 6 \<or> n = 7" by auto
    then show "bit (ucast (drop_bit 24 (ucast v :: u64)) :: u8) n = bit ((word_of_int py :: u8)) n"
      unfolding v_def eqs by (elim disjE) (simp_all add: bit_simps bt)
  qed
  show "ucast (drop_bit 8 (ucast v :: u64)) = (((if oy then 0x80 else 0) OR (if ox then 0x40 else 0)
        OR (if ny then 0x20 else 0) OR (if nx then 0x10 else 0) OR (st AND 0xf)) :: u8)"
  proof (rule bit_word_eqI)
    fix n assume "n < LENGTH(8)"
    then have "n = 0 \<or> n = 1 \<or> n = 2 \<or> n = 3 \<or> n = 4 \<or> n = 5 \<or> n = 6 \<or> n = 7" by auto
    then show "bit (ucast (drop_bit 8 (ucast v :: u64)) :: u8) n = bit ((((if oy then 0x80 else 0) OR (if ox then 0x40 else 0)
        OR (if ny then 0x20 else 0) OR (if nx then 0x10 else 0) OR (st AND 0xf)) :: u8)) n"
      unfolding v_def eqs by (elim disjE) (simp_all add: bit_simps bt)
  qed
qed

lemma word_delta:
  fixes d :: u32
  shows "(drop_bit sh d AND 0xff) - (drop_bit sg d AND 0x100) = word_of_int (mouse_delta d sh (sg + 8))"
proof -
  have b: "drop_bit sg d AND 0x100 = (if bit d (sg + 8) then 0x100 else 0)"
    using and_exp [of "drop_bit sg d" 8] by (simp add: bit_drop_bit_eq add.commute)
  have "word_of_int (int (unat (drop_bit sh d AND 0xff))) = (drop_bit sh d AND 0xff :: u32)" by simp
  then show ?thesis unfolding b mouse_delta_def by (simp add: wi_hom_sub [symmetric])
qed

lemma mouse_delta_bounds: "- 256 \<le> mouse_delta d sh sg" "mouse_delta d sh sg \<le> 255"
proof -
  define y where "y = unat (drop_bit sh d AND 0xff)"
  have "drop_bit sh d AND 0xff \<le> 0xff" by (rule word_and_le1)
  then have "y \<le> 255" by (simp add: word_le_nat_alt y_def)
  then show "- 256 \<le> mouse_delta d sh sg" "mouse_delta d sh sg \<le> 255"
    unfolding mouse_delta_def y_def [symmetric] by auto
qed

lemma sint_range: "- (2 ^ 31) \<le> v \<Longrightarrow> v < 2 ^ 31 \<Longrightarrow> sint (word_of_int v :: u32) = v"
  by (simp add: sint_sbintrunc' signed_take_bit_int_eq_self)

lemma pos_add:
  fixes d :: u32
  assumes "\<bar>p\<bar> < 2 ^ 30"
  shows "sint (word_of_int p + ((drop_bit sh d AND 0xff) - (drop_bit sg d AND 0x100)) :: u32) = p + mouse_delta d sh (sg + 8)"
proof -
  have "- (2 ^ 31) \<le> p + mouse_delta d sh (sg + 8)" "p + mouse_delta d sh (sg + 8) < 2 ^ 31"
    using assms mouse_delta_bounds [of d sh "sg + 8"] by auto
  then show ?thesis unfolding word_delta wi_hom_add by (rule sint_range)
qed

lemma wrap32_id: "- (2 ^ 31) \<le> v \<Longrightarrow> v < 2 ^ 31 \<Longrightarrow> wrap32 v = v"
  by (simp add: wrap32_def signed_take_bit_int_eq_self)

lemma scale_resolution_scaled:
  assumes "unat r \<le> 3" "\<bar>v\<bar> < 2 ^ 29"
  shows "scale_resolution r v = Inr (v * 2 ^ unat r div 4)" "\<bar>v * 2 ^ unat r div 4\<bar> < 2 ^ 30"
proof -
  consider "unat r = 0" | "unat r = 1" | "unat r = 2" | "unat r = 3" using assms(1) by linarith
  then have "scale_resolution r v = Inr (v * 2 ^ unat r div 4) \<and> \<bar>v * 2 ^ unat r div 4\<bar> < 2 ^ 30"
  proof cases
    case 2
    have "v * 2 div 4 = v div 2" using div_mult_mult2 [of 2 v 2] by simp
    then show ?thesis using 2 assms(2) by (simp add: scale_resolution_def HOST_RESOLUTION_SHIFT_def)
  next
    case 4
    have "v * 8 div 4 = v * 2" using nonzero_mult_div_cancel_right [of 4 "v * 2"] by simp
    moreover have "wrap32 (v * 2) = v * 2" by (rule wrap32_id) (use assms(2) in auto)
    ultimately show ?thesis using 4 assms(2) by (simp add: scale_resolution_def HOST_RESOLUTION_SHIFT_def)
  next
    case 3
    moreover have "wrap32 v = v" by (rule wrap32_id) (use assms(2) in auto)
    ultimately show ?thesis using assms(2) by (simp add: scale_resolution_def HOST_RESOLUTION_SHIFT_def)
  qed (use assms(2) in \<open>auto simp: scale_resolution_def HOST_RESOLUTION_SHIFT_def\<close>)
  then show "scale_resolution r v = Inr (v * 2 ^ unat r div 4)" "\<bar>v * 2 ^ unat r div 4\<bar> < 2 ^ 30" by simp_all
qed

lemma scale_coord_scaled:
  assumes "unat (m_resolution m) \<le> 3" "\<bar>v\<bar> < 2 ^ 29"
  shows "scale_coord True m v = Inr (scaled (m_resolution m) (flag (m_status m) 0x10) v)"
proof -
  define w where "w = v * 2 ^ unat (m_resolution m) div 4"
  note r = scale_resolution_scaled [OF assms, folded w_def]
  have "wrap32 (w * 2) = w * 2" by (rule wrap32_id) (use r(2) in auto)
  moreover have "w \<in> {-5, -4, -3, -2, -1, 0, 1, 2, 3, 4, 5} \<or> \<bar>w\<bar> > 5" by (simp, arith)
  ultimately show ?thesis unfolding scale_coord_def r(1) bindR_simps scaled_def w_def [symmetric] Let_def
    by (elim disjE; auto)
qed

lemma limit_pos_word: "(word_of_int (limit_pos p) :: u8) = word_of_int (max (- 256) (min 255 p))"
  by (auto simp: limit_pos_def max_def min_def)

text \<open>The header byte of a movement packet.\<close>

lemma status_low:
  fixes st :: u8 and d :: u32
  shows "\<not> flag ((st AND 0xf8) OR ucast (drop_bit 8 d AND 7)) 0x10 \<longleftrightarrow> \<not> flag st 0x10"
    "\<not> flag ((st AND 0xf8) OR ucast (drop_bit 8 d AND 7)) 0x40 \<longleftrightarrow> \<not> flag st 0x40"
proof -
  have e: "flag x 0x10 = bit x 4" "flag x 0x40 = bit x 6" for x :: u8
    using flag_exp [of x 4] flag_exp [of x 6] by simp_all
  have "\<not> bit (7 :: u32) 4" "\<not> bit (7 :: u32) 6" "bit (0xf8 :: u8) 4" "bit (0xf8 :: u8) 6" by code_simp+
  then show "\<not> flag ((st AND 0xf8) OR ucast (drop_bit 8 d AND 7)) 0x10 \<longleftrightarrow> \<not> flag st 0x10"
    "\<not> flag ((st AND 0xf8) OR ucast (drop_bit 8 d AND 7)) 0x40 \<longleftrightarrow> \<not> flag st 0x40"
    unfolding e by (simp_all add: bit_simps)
qed

lemma remote_flag: "flag (NOT st) 0x40 \<longleftrightarrow> \<not> flag (st :: u8) 0x40"
  using flag_not [of 6 st] by simp

text \<open>Claim C38. A movement of the host mouse is reported: in stream mode, with the previous packet read completely,
  a message of three bytes from the host mouse makes the mouse send a notification, and the reads that follow return
  exactly three bytes: the buttons with the sign and overflow bits, and the movement in both
  directions, accumulated (below \<^verbatim>\<open>2^28\<close>), scaled by the resolution, which is one of the four
  of the protocol, and the scaling mode, and limited to the nine-bit range of the protocol. The counters are reset.\<close>

theorem mouse_movement_reported:
  fixes data :: u32
  assumes m: "m_packet m AND 0xff = 0" "\<not> flag (m_status m) 0x40" "unat (m_resolution m) \<le> 3"
    and d: "data AND 0xff = 3" and p: "\<bar>m_posx m\<bar> < 2 ^ 28" "\<bar>m_posy m\<bar> < 2 ^ 28"
    and x: "x = scaled (m_resolution m) (flag (m_status m) 0x10) (m_posx m + mouse_delta data 16 12)"
    and y: "y = scaled (m_resolution m) (flag (m_status m) 0x10) (m_posy m + mouse_delta data 24 13)"
  shows "\<exists>m'. mouse_receive_input (m_hostmouse m) data m = Inr (True, m', True)
    \<and> mouse_reads 4 m' =
        [(if y > 255 \<or> y < -256 then 0x80 else 0) OR (if x > 255 \<or> x < -256 then 0x40 else 0)
           OR (if y < 0 then 0x20 else 0) OR (if x < 0 then 0x10 else 0)
           OR (((m_status m AND 0xf8) OR ucast (drop_bit 8 data AND 7)) AND 0xf),
         word_of_int (max (- 256) (min 255 x)), word_of_int (max (- 256) (min 255 y))]
    \<and> m_posx m' = 0 \<and> m_posy m' = 0"
proof -
  define st where "st = (m_status m AND 0xf8) OR ucast (drop_bit 8 data AND 7)"
  define a where "a = m_posx m + mouse_delta data 16 12"
  define b where "b = m_posy m + mouse_delta data 24 13"
  define m1 where "m1 = m\<lparr>m_posx := a, m_posy := b, m_status := st\<rparr>"
  have "\<not> flag st 0x10 \<longleftrightarrow> \<not> flag (m_status m) 0x10" "\<not> flag st 0x40"
    unfolding st_def using m(2) by (simp_all only: status_low simp_thms)
  then have st: "flag st 0x10 = flag (m_status m) 0x10" "\<not> flag st 0x40" by blast+
  have pos: "sint (word_of_int (m_posx m) + ((drop_bit 16 data AND 0xff) - (drop_bit 4 data AND 0x100)) :: u32) = a"
    "sint (word_of_int (m_posy m) + ((drop_bit 24 data AND 0xff) - (drop_bit 5 data AND 0x100)) :: u32) = b"
    using pos_add [of "m_posx m" 16 data 4] pos_add [of "m_posy m" 24 data 5] p by (simp_all add: a_def b_def)
  have r: "\<bar>a\<bar> < 2 ^ 29" "\<bar>b\<bar> < 2 ^ 29"
    using p mouse_delta_bounds [of data 16 12] mouse_delta_bounds [of data 24 13] unfolding a_def b_def by auto
  have sc: "scale_coord True m1 a = Inr x" "scale_coord True m1 b = Inr y"
    using scale_coord_scaled [of m1, OF _ r(1)] scale_coord_scaled [of m1, OF _ r(2)] m(3) st
    by (simp_all add: m1_def x y a_def b_def)
  have rec: "mouse_receive_input (m_hostmouse m) data m = bindR (update_packet m1) (\<lambda>(m, n). Inr (True, m, n))"
    unfolding mouse_receive_input_def Let_def pos st_def [symmetric] m1_def using d by simp
  define v :: u32 where "v = (if y > 255 \<or> y < -256 then 0x8000 else 0) OR (if x > 255 \<or> x < -256 then 0x4000 else 0)
               OR (if y < 0 then 0x2000 else 0) OR (if x < 0 then 0x1000 else 0)
               OR push_bit 8 (ucast (st AND 0xf)) OR 3 OR push_bit 16 (word_of_int (limit_pos x) AND 0xff)
               OR push_bit 24 (word_of_int (limit_pos y) AND 0xff)"
  have fields: "m_posx m1 = a" "m_posy m1 = b" "m_status m1 = st" "m_packet m1 AND 0xff = 0"
    using m(1) by (simp_all add: m1_def)
  have gen: "gen_packet True m1 = Inr (v, m1\<lparr>m_posx := 0, m_posy := 0\<rparr>)"
    unfolding gen_packet_def Let_def v_def fields sc by (simp add: or.assoc)
  let ?m' = "m1\<lparr>m_posx := 0, m_posy := 0, m_packet := ucast v\<rparr>"
  have up: "update_packet m1 = Inr (?m', True)"
    unfolding update_packet_def gen set_packet_def using fields st by (simp add: remote_flag)
  note bytes = gen_bytes [where oy = "y > 255 \<or> y < -256" and ox = "x > 255 \<or> x < -256" and ny = "y < 0"
      and nx = "x < 0" and px = "limit_pos x" and py = "limit_pos y" and st = st, folded v_def]
  have "m_packet ?m' AND 0xff = 3" using bytes(1) by simp
  note reads = mouse_reads_three [OF this, of 0]
  have "mouse_reads 4 ?m' = mouse_reads (Suc (Suc (Suc (Suc 0)))) ?m'" by (simp add: eval_nat_numeral)
  also have "\<dots> = [ucast (drop_bit 8 (ucast v :: u64)), ucast (drop_bit 16 (ucast v :: u64)), ucast (drop_bit 24 (ucast v :: u64))]"
    using reads by simp
  finally have "mouse_reads 4 ?m' = [ucast (drop_bit 8 (ucast v :: u64)), ucast (drop_bit 16 (ucast v :: u64)), ucast (drop_bit 24 (ucast v :: u64))]" .
  moreover have "mouse_receive_input (m_hostmouse m) data m = Inr (True, ?m', True)" unfolding rec up by simp
  ultimately show ?thesis unfolding bytes limit_pos_word st_def by auto
qed

theorem mouse_movement_reported_witness:
  "\<exists>m'. mouse_receive_input 0x17 0x05fb1903 ((mouse_init 1 0x17)\<lparr>m_status := 0x18\<rparr>) = Inr (True, m', True)
    \<and> mouse_reads 4 m' = [0x19, 0xf7, 9]"
proof -
  let ?m = "(mouse_init 1 0x17)\<lparr>m_status := 0x18\<rparr>"
  have m: "m_packet ?m AND 0xff = 0" "\<not> flag (m_status ?m) 0x40" "unat (m_resolution ?m) \<le> 3"
    "\<bar>m_posx ?m\<bar> < 2 ^ 28" "\<bar>m_posy ?m\<bar> < 2 ^ 28" by code_simp+
  have d: "(0x05fb1903 :: u32) AND 0xff = 3" by code_simp
  have x: "- 9 = scaled (m_resolution ?m) (flag (m_status ?m) 0x10) (m_posx ?m + mouse_delta 0x05fb1903 16 12)"
    "9 = scaled (m_resolution ?m) (flag (m_status ?m) 0x10) (m_posy ?m + mouse_delta 0x05fb1903 24 13)" by code_simp+
  have h: "m_hostmouse ?m = 0x17" by code_simp
  have b: "((m_status ?m AND 0xf8) OR ucast (drop_bit 8 (0x05fb1903 :: u32) AND 7)) AND 0xf = 9" by code_simp
  show ?thesis
    using mouse_movement_reported [OF m(1-3) d m(4,5) x] unfolding h b by auto
qed

lemma resolution_scale:
  assumes "unat r \<le> 3"
  shows "\<exists>v'. scale_resolution r v = Inr v'"
proof -
  have "unat r - 2 < 32" using assms by linarith
  then show ?thesis by (simp add: scale_resolution_def HOST_RESOLUTION_SHIFT_def)
qed

lemma scale_coord_defined:
  assumes "unat (m_resolution m) \<le> 3" "\<not> (report \<and> flag (m_status m) 0x10)"
  shows "\<exists>v'. scale_coord report m v = Inr v'"
  using resolution_scale [OF assms(1), of v] assms(2) by (auto simp: scale_coord_def)

lemma gen_packet_state: "gen_packet report m = Inr (v, m') \<Longrightarrow> m' = m\<lparr>m_posx := 0, m_posy := 0\<rparr>"
  by (auto simp: gen_packet_def bindR_eq_Inr Let_def)

lemma gen_packet_defined:
  assumes "unat (m_resolution m) \<le> 3" "\<not> (report \<and> flag (m_status m) 0x10)"
  shows "\<exists>v. gen_packet report m = Inr (v, m\<lparr>m_posx := 0, m_posy := 0\<rparr>)"
  using scale_coord_defined [OF assms, of "m_posx m"] scale_coord_defined [OF assms, of "m_posy m"]
  by (auto simp: gen_packet_def Let_def)

lemma sint_inv: "- (2 ^ 31) \<le> sint (w :: u32)" "sint (w :: u32) < 2 ^ 31"
  using sint_ge [of w] sint_lt [of w] by simp_all

lemma update_packet_inv:
  assumes "mouse_inv m" "update_packet m = Inr (m', n)"
  shows "mouse_inv m'"
  using assms by (auto simp: update_packet_def set_packet_def mouse_inv_def bindR_eq_Inr
      dest!: gen_packet_state split: if_splits)

lemma mouse_input_inv:
  assumes "mouse_inv m" "mouse_receive_input d v m = Inr (b, m', n)"
  shows "mouse_inv m'"
proof (cases "d = m_hostmouse m")
  case True
  obtain px py st where u: "update_packet (m\<lparr>m_posx := sint (px :: u32), m_posy := sint (py :: u32), m_status := st\<rparr>) = Inr (m', n)"
    using assms(2) True by (auto simp: mouse_receive_input_def Let_def bindR_eq_Inr split: if_splits)
  show ?thesis by (rule update_packet_inv [OF _ u]) (use assms(1) sint_inv in \<open>simp add: mouse_inv_def\<close>)
next
  case False
  then show ?thesis using assms by (simp add: mouse_receive_input_def)
qed

lemma set_defaults_inv [simp]: "mouse_inv (set_defaults m)"
  by (simp add: set_defaults_def mouse_inv_def)

lemma plain_command_inv:
  assumes "mouse_inv m" "mouse_plain_command v m = Inr (p, m')"
  shows "mouse_inv m'"
proof (cases "v = 0xf6 \<or> v = 0xff")
  case True
  then show ?thesis using assms by (auto simp: mouse_plain_command_def)
next
  case False
  then show ?thesis using assms
    by (auto simp: mouse_plain_command_def mouse_inv_def bindR_eq_Inr dest!: gen_packet_state split: if_splits)
qed

lemma and3_le: "unat (v AND 3 :: u8) \<le> 3"
  using word_and_le1 [of v 3] by (simp add: word_le_nat_alt)

lemma send_command_inv:
  assumes "mouse_inv m" "mouse_send_command v m = Inr (m', n)"
  shows "mouse_inv m'"
proof -
  obtain p m1 where c: "(case m_param m of
         PARAM_SET_RESOLUTION \<Rightarrow> Inr (0xfa01, m\<lparr>m_resolution := v AND 3, m_param := PARAM_NONE\<rparr>)
       | PARAM_SET_SAMPLERATE \<Rightarrow> Inr (0xfa01, m\<lparr>m_samplerate := v, m_param := PARAM_NONE\<rparr>)
       | PARAM_ECHO \<Rightarrow> if v \<noteq> 0xff \<and> v \<noteq> 0xec then Inr (push_bit 8 (ucast v) OR 1, m)
                      else mouse_plain_command v m
       | PARAM_NONE \<Rightarrow> mouse_plain_command v m) = Inr (p, m1)"
    and m': "m' = m1\<lparr>m_packet := p\<rparr> \<or> m' = m1"
    using assms(2) by (auto simp: mouse_send_command_def bindR_eq_Inr set_packet_def split: if_splits)
  have "mouse_inv m1"
  proof (cases "m_param m")
    case PARAM_SET_RESOLUTION
    then show ?thesis using c assms(1) and3_le [of v] by (auto simp: mouse_inv_def)
  next
    case PARAM_SET_SAMPLERATE
    then show ?thesis using c assms(1) by (auto simp: mouse_inv_def)
  next
    case PARAM_ECHO
    then show ?thesis using c assms(1) plain_command_inv by (auto split: if_splits)
  next
    case PARAM_NONE
    then show ?thesis using c assms(1) plain_command_inv by auto
  qed
  then show ?thesis using m' by (auto simp: mouse_inv_def)
qed

lemma read_key_inv: "mouse_inv m \<Longrightarrow> mouse_read_key m = Some (v, m') \<Longrightarrow> mouse_inv m'"
  by (auto simp: mouse_read_key_def mouse_inv_def Let_def split: if_splits)

lemma mouse_ps2_inv:
  assumes "mouse_inv m" "mouse_receive_ps2 p t v m = Inr (b, v', m', n)"
  shows "mouse_inv m'"
proof (cases t)
  case READ_KEY
  then show ?thesis using assms read_key_inv
    by (auto simp: mouse_receive_ps2_def split: if_splits option.splits)
next
  case SEND_COMMAND
  then show ?thesis using assms send_command_inv
    by (auto simp: mouse_receive_ps2_def bindR_eq_Inr split: if_splits)
qed (use assms in \<open>auto simp: mouse_receive_ps2_def split: if_splits\<close>)

lemma mouse_reach_inv: "mouse_reach m \<Longrightarrow> mouse_inv m"
proof (induction rule: mouse_reach.induct)
  case (reach_init p h)
  show ?case by (simp add: mouse_init_def)
qed (blast intro: mouse_input_inv mouse_ps2_inv)+

lemma mouse_input_defined:
  assumes "mouse_inv m" "\<not> flag (m_status m) 0x10"
  shows "mouse_receive_input d v m \<noteq> Inl Undefined"
proof (cases "d = m_hostmouse m \<and> v AND 0xff = 3")
  case True
  define m1 where "m1 = m\<lparr>m_posx := sint (word_of_int (m_posx m) + ((drop_bit 16 v AND 0xff) - (drop_bit 4 v AND 0x100)) :: u32),
       m_posy := sint (word_of_int (m_posy m) + ((drop_bit 24 v AND 0xff) - (drop_bit 5 v AND 0x100)) :: u32),
       m_status := (m_status m AND 0xf8) OR ucast (drop_bit 8 v AND 7)\<rparr>"
  have "unat (m_resolution m1) \<le> 3" "\<not> flag (m_status m1) 0x10"
    using assms status_low(1) [of "m_status m" v] by (simp_all add: m1_def mouse_inv_def)
  then obtain g where "gen_packet True m1 = Inr g" using gen_packet_defined [of m1 True] by auto
  then have "\<exists>u. update_packet m1 = Inr u" by (cases g) (auto simp: update_packet_def)
  then obtain u where u: "update_packet m1 = Inr u" ..
  have "mouse_receive_input d v m = bindR (update_packet m1) (\<lambda>(m, n). Inr (True, m, n))"
    using True by (simp add: mouse_receive_input_def Let_def m1_def)
  then show ?thesis using u by (cases u) simp
qed (auto simp: mouse_receive_input_def)

lemma plain_command_defined: "mouse_inv m \<Longrightarrow> \<exists>r. mouse_plain_command v m = Inr r"
  using gen_packet_defined [of m False] by (auto simp: mouse_plain_command_def mouse_inv_def)

lemma send_command_defined: "mouse_inv m \<Longrightarrow> \<exists>r. mouse_send_command v m = Inr r"
  using plain_command_defined [of m v] by (auto simp: mouse_send_command_def split: mouse_param.split)

text \<open>With the 2:1 scaling off, no reachable state of the mouse has an undefined
  operation: the shift of the resolution is in range and nothing overflows, neither for a
  host movement nor for a message on the PS/2 bus.\<close>

lemma mouse_never_undefined:
  assumes "mouse_reach m" "\<not> flag (m_status m) 0x10"
  shows "mouse_receive_input d v m \<noteq> Inl Undefined \<and> mouse_receive_ps2 p t c m \<noteq> Inl Undefined"
proof
  have i: "mouse_inv m" using assms(1) by (rule mouse_reach_inv)
  show "mouse_receive_input d v m \<noteq> Inl Undefined" using i assms(2) by (rule mouse_input_defined)
  show "mouse_receive_ps2 p t c m \<noteq> Inl Undefined"
    using send_command_defined [OF i, of c] by (auto simp: mouse_receive_ps2_def split: ps2_type.split option.split)
qed

text \<open>The answer to a status request has the count 4.\<close>

lemma status_packet_count:
  fixes a :: u64 and r st :: u8
  shows "(push_bit 32 a OR scast (push_bit 24 (ucast r) OR push_bit 16 (ucast st) OR 0xfa00 OR 4 :: u32)) AND 0xff = (4 :: u64)"
proof (rule bit_word_eqI)
  fix n assume "n < LENGTH(64)"
  have c: "(0xfa00 OR 4 :: u32) = 0xfa04" by code_simp
  have m: "bit (4 :: u64) n = bit (0xfa04 :: u32) n" if "n < 8"
  proof -
    have "n = 0 \<or> n = 1 \<or> n = 2 \<or> n = 3 \<or> n = 4 \<or> n = 5 \<or> n = 6 \<or> n = 7" using that by auto
    then show ?thesis by (elim disjE) simp_all
  qed
  have f: "n \<noteq> 2 \<Longrightarrow> \<not> bit (4 :: u64) n" using bit_exp_iff [where 'a = u64, of 2 n] by simp
  show "bit ((push_bit 32 a OR scast (push_bit 24 (ucast r) OR push_bit 16 (ucast st) OR 0xfa00 OR 4 :: u32)) AND 0xff) n
      = bit (4 :: u64) n"
    unfolding c mask8 using m f by (cases "n < 8") (auto simp: bit_simps bit_signed_iff)
qed

text \<open>The answer to a status request can never be read: its packet is marked as having
  four bytes, which the read function does not serve. As long as no other command arrives, the mouse then
  also reports no movement any more.\<close>

lemma mouse_status_unreadable:
  assumes "m_param m = PARAM_NONE"
  shows "\<exists>m'. mouse_send_command 0xe9 m = Inr (m', True) \<and> mouse_read_key m' = None
    \<and> (\<forall>data. data AND 0xff = 3 \<longrightarrow>
         (\<exists>m''. mouse_receive_input (m_hostmouse m) data m' = Inr (True, m'', False)
           \<and> m_packet m'' = m_packet m' \<and> mouse_read_key m'' = None))"
proof -
  define p :: u64 where "p = push_bit 32 (ucast (m_samplerate m)) OR
     scast (push_bit 24 (ucast (m_resolution m)) OR push_bit 16 (ucast (m_status m)) OR 0xfa00 OR 4 :: u32)"
  have c: "p AND 0xff = 4" unfolding p_def by (rule status_packet_count)
  let ?m' = "m\<lparr>m_packet := p\<rparr>"
  have cmd: "mouse_plain_command 0xe9 m = Inr (p, m)" by (simp add: mouse_plain_command_def p_def)
  have s: "mouse_send_command 0xe9 m = Inr (?m', True)"
    using assms c by (simp add: mouse_send_command_def cmd set_packet_def)
  have n: "mouse_read_key x = None" if "m_packet x = p" for x
    by (rule mouse_read_none) (use c that in simp)
  have i: "\<exists>m''. mouse_receive_input (m_hostmouse m) data ?m' = Inr (True, m'', False) \<and> m_packet m'' = p"
    if "data AND 0xff = 3" for data
    using that c by (simp add: mouse_receive_input_def Let_def update_packet_def)
  show ?thesis using s n i by fastforce
qed

end
