(* ===== verification/KeyboardUtil.thy ===== *)
theory KeyboardUtil
  imports Bus
begin

text \<open>
  The scancode tables of \<^verbatim>\<open>apps/vancouver/model/keyboardutil.h\<close> and the key flags of
  \<^verbatim>\<open>include/services/Keyboard.h\<close>.
\<close>

section \<open>Definitions\<close>

definition RELEASE :: u32 where "RELEASE = 0x100"
definition EXTEND0 :: u32 where "EXTEND0 = 0x200"
definition EXTEND1 :: u32 where "EXTEND1 = 0x400"
definition NUM :: u32 where "NUM = 0x800"
definition LSHIFT :: u32 where "LSHIFT = 0x1000"
definition RSHIFT :: u32 where "RSHIFT = 0x2000"
definition LCTRL :: u32 where "LCTRL = 0x10000"
definition RCTRL :: u32 where "RCTRL = 0x20000"

definition S :: "u32 \<Rightarrow> u32" where "S x = x OR LSHIFT"

text \<open>ASCII characters to keycodes of set 2; the initialiser has 128 entries.\<close>

definition ascii_map :: "u32 list" where
  "ascii_map = [
     0, 0, 0, 0, 0, 0, 0, 0, 0, 0x0d, 0, 0, 0, 0x5a, 0, 0, 0, 0, 0, 0, 0, 0, 0, 0, 0, 0, 0,
     0, 0, 0, 0, 0, 0x29, S 0x16, S 0x52, S 0x26, S 0x25, S 0x2e, S 0x3d, 0x52, S 0x46, S
     0x45, S 0x3e, S 0x55, 0x41, 0x4e, 0x49, 0x4a, 0x45, 0x16, 0x1e, 0x26, 0x25, 0x2e, 0x36,
     0x3d, 0x3e, 0x46, S 0x4c, 0x4c, S 0x41, 0x55, S 0x49, S 0x4a, S 0x1e, S 0x1c, S 0x32, S
     0x21, S 0x23, S 0x24, S 0x2b, S 0x34, S 0x33, S 0x43, S 0x3b, S 0x42, S 0x4b, S 0x3a, S
     0x31, S 0x44, S 0x4d, S 0x15, S 0x2d, S 0x1b, S 0x2c, S 0x3c, S 0x2a, S 0x1d, S 0x22, S
     0x35, S 0x1a, 0x54, 0x5d, 0x5b, S 0x36, S 0x4e, 0x0e, 0x1c, 0x32, 0x21, 0x23, 0x24,
     0x2b, 0x34, 0x33, 0x43, 0x3b, 0x42, 0x4b, 0x3a, 0x31, 0x44, 0x4d, 0x15, 0x2d, 0x1b,
     0x2c, 0x3c, 0x2a, 0x1d, 0x22, 0x35, 0x1a, S 0x54, S 0x5d, S 0x5b, S 0x0e, 0x66]"

definition sc1_map :: "u8 list" where
  "sc1_map = [
     0x00, 0x76, 0x16, 0x1e, 0x26, 0x25, 0x2e, 0x36, 0x3d, 0x3e, 0x46, 0x45, 0x4e, 0x55,
     0x66, 0x0d, 0x15, 0x1d, 0x24, 0x2d, 0x2c, 0x35, 0x3c, 0x43, 0x44, 0x4d, 0x54, 0x5b,
     0x5a, 0x14, 0x1c, 0x1b, 0x23, 0x2b, 0x34, 0x33, 0x3b, 0x42, 0x4b, 0x4c, 0x52, 0x0e,
     0x12, 0x5d, 0x1a, 0x22, 0x21, 0x2a, 0x32, 0x31, 0x3a, 0x41, 0x49, 0x4a, 0x59, 0x7c,
     0x11, 0x29, 0x58, 0x05, 0x06, 0x04, 0x0c, 0x03, 0x0b, 0x83, 0x0a, 0x01, 0x09, 0x77,
     0x7e, 0x6c, 0x75, 0x7d, 0x7b, 0x6b, 0x73, 0x74, 0x79, 0x69, 0x72, 0x7a, 0x70, 0x71,
     0x84, 0x60, 0x61, 0x78, 0x07, 0x0f, 0x17, 0x1f, 0x27, 0x2f, 0x37, 0x3f, 0x47, 0x4f,
     0x56, 0x5e, 0x08, 0x10, 0x18, 0x20, 0x28, 0x30, 0x38, 0x40, 0x48, 0x50, 0x57, 0x6f,
     0x13, 0x19, 0x39, 0x51, 0x53, 0x5c, 0x5f, 0x62, 0x63, 0x64, 0x65, 0x67, 0x68, 0x6a,
     0x6d, 0x6e]"

definition translate_sc1_to_sc2 :: "u8 \<Rightarrow> u8" where
  "translate_sc1_to_sc2 scancode =
     (if scancode = 0xff then 0
      else if scancode = 0xe1 \<or> scancode = 0xe0 then scancode
      else sc1_map ! unat (scancode AND 0x7f))"

definition sc2_map :: "u8 list" where
  "sc2_map = [
     0xff, 0x43, 0x41, 0x3f, 0x3d, 0x3b, 0x3c, 0x58, 0x64, 0x44, 0x42, 0x40, 0x3e, 0x0f,
     0x29, 0x59, 0x65, 0x38, 0x2a, 0x70, 0x1d, 0x10, 0x02, 0x5a, 0x66, 0x71, 0x2c, 0x1f,
     0x1e, 0x11, 0x03, 0x5b, 0x67, 0x2e, 0x2d, 0x20, 0x12, 0x05, 0x04, 0x5c, 0x68, 0x39,
     0x2f, 0x21, 0x14, 0x13, 0x06, 0x5d, 0x69, 0x31, 0x30, 0x23, 0x22, 0x15, 0x07, 0x5e,
     0x6a, 0x72, 0x32, 0x24, 0x16, 0x08, 0x09, 0x5f, 0x6b, 0x33, 0x25, 0x17, 0x18, 0x0b,
     0x0a, 0x60, 0x6c, 0x34, 0x35, 0x26, 0x27, 0x19, 0x0c, 0x61, 0x6d, 0x73, 0x28, 0x74,
     0x1a, 0x0d, 0x62, 0x6e, 0x3a, 0x36, 0x1c, 0x1b, 0x75, 0x2b, 0x63, 0x76, 0x55, 0x56,
     0x77, 0x78, 0x79, 0x7a, 0x0e, 0x7b, 0x7c, 0x4f, 0x7d, 0x4b, 0x47, 0x7e, 0x7f, 0x6f,
     0x52, 0x53, 0x50, 0x4c, 0x4d, 0x48, 0x01, 0x45, 0x57, 0x4e, 0x51, 0x4a, 0x37, 0x49,
     0x46, 0x54]"

definition translate_sc2_to_sc1 :: "u8 \<Rightarrow> u8" where
  "translate_sc2_to_sc1 scancode =
     (if scancode \<le> 0x7f then sc2_map ! unat scancode
      else if scancode = 0x83 then 0x41
      else if scancode = 0x84 then 0x54
      else scancode)"

definition sc3_map :: "u8 list" where
  "sc3_map = [
     0x00, 0x47, 0x00, 0x27, 0x17, 0x07, 0x0f, 0x5e, 0x00, 0x4f, 0x3f, 0x2f, 0x1f, 0x0d,
     0x0e, 0x00, 0x00, 0x19, 0x12, 0x00, 0x11, 0x15, 0x16, 0x00, 0x00, 0x00, 0x1a, 0x1b,
     0x1c, 0x1d, 0x1e, 0x00, 0x00, 0x21, 0x22, 0x23, 0x24, 0x25, 0x26, 0x00, 0x00, 0x29,
     0x2a, 0x2b, 0x2c, 0x2d, 0x2e, 0x00, 0x00, 0x31, 0x32, 0x33, 0x34, 0x35, 0x36, 0x00,
     0x00, 0x00, 0x3a, 0x3b, 0x3c, 0x3d, 0x3e, 0x00, 0x00, 0x41, 0x42, 0x43, 0x44, 0x45,
     0x46, 0x00, 0x00, 0x49, 0x4a, 0x4b, 0x4c, 0x4d, 0x4e, 0x00, 0x00, 0x00, 0x52, 0x00,
     0x54, 0x55, 0x00, 0x00, 0x14, 0x59, 0x5a, 0x5b, 0x00, 0x5c, 0x00, 0x00, 0x00, 0x00,
     0x00, 0x00, 0x00, 0x00, 0x66, 0x00, 0x00, 0x69, 0x00, 0x6b, 0x6c, 0x00, 0x00, 0x00,
     0x70, 0x71, 0x72, 0x73, 0x74, 0x75, 0x08, 0x76, 0x56, 0x7c, 0x7a, 0x84, 0x7e, 0x7d,
     0x5f, 0x00, 0x00, 0x00, 0x00, 0x37, 0x57]"

definition emap :: "u8 list" where
  "emap = [
     0x11, 0x39, 0x14, 0x58, 0x1f, 0x8b, 0x27, 0x8c, 0x2f, 0x8d, 0x37, 0x00, 0x3f, 0x7f,
     0x4a, 0x77, 0x5a, 0x79, 0x5e, 0x00, 0x69, 0x65, 0x6b, 0x61, 0x6c, 0x6e, 0x70, 0x67,
     0x71, 0x64, 0x72, 0x60, 0x74, 0x6a, 0x75, 0x63, 0x7a, 0x6d, 0x7c, 0x57, 0x7d, 0x6f,
     0x7e, 0x62]"

text \<open>The search for an extended key. The loop steps by two and also doubles the index, so that it
  leaves the table; a read behind its end is undefined.\<close>

function emap_search :: "nat \<Rightarrow> u8 \<Rightarrow> u8 option res" where
  "emap_search i key =
     (if i < length emap then
        if i * 2 < length emap then
          if emap ! (i * 2) = key then Inr (Some (emap ! (i * 2 + 1))) else emap_search (i + 2) key
        else Inl Undefined
      else Inr None)"
  by auto
termination by (relation "measure (\<lambda>(i, _). length emap - i)") auto

definition translate_sc2_to_sc3 :: "u32 \<Rightarrow> u8 res" where
  "translate_sc2_to_sc3 scancode =
     (let key = ucast scancode :: u8
      in if flag scancode EXTEND1 \<and> key = 0x77 then Inr 0x62
         else bindR (if flag scancode EXTEND0 then emap_search 0 key else Inr None)
           (\<lambda>r. Inr (case r of Some k \<Rightarrow> k
                 | None \<Rightarrow> if unat key < length sc3_map then sc3_map ! unat key else 0)))"

section \<open>Lemmas\<close>

declare emap_search.simps [simp del]

text \<open>A fact about a range of bytes is checked on the list of its values.\<close>

lemma all_bytes:
  assumes "list_all P (map of_nat [a..<b])" "of_nat a \<le> c" "c < of_nat b" "a < 256" "b < 256"
  shows "P (c :: u8)"
proof -
  have "unat c \<in> {a..<b}" using assms(2-5) by (simp add: word_le_nat_alt word_less_nat_alt unat_of_nat)
  then have "P (of_nat (unat c))" using assms(1) unfolding list_all_iff set_map set_upt by blast
  then show ?thesis by simp
qed

lemma ascii_map_printable:
  "length ascii_map = 128" "distinct (drop 32 ascii_map)" "0 \<notin> set (drop 32 ascii_map)"
  by code_simp+

text \<open>Claim C39. The translations between the scancode sets 1 and 2 are inverse to each other: every key
  code of set 1 survives the way to set 2 and back, and every key code of set 2 up to
  0x84 that the tables know survives the way to set 1 and back; 0x02 and 0x83 are both F7.\<close>

theorem scancode_roundtrip:
  "(1 \<le> c \<longrightarrow> c \<le> 0x7f \<longrightarrow> translate_sc2_to_sc1 (translate_sc1_to_sc2 c) = c)
   \<and> (d \<le> 0x84 \<longrightarrow> d \<notin> {2, 0x7f, 0x80, 0x81, 0x82} \<longrightarrow> translate_sc1_to_sc2 (translate_sc2_to_sc1 d) = d)
   \<and> translate_sc1_to_sc2 (translate_sc2_to_sc1 2) = 0x83"
proof (intro conjI impI)
  have "list_all (\<lambda>c. translate_sc2_to_sc1 (translate_sc1_to_sc2 c) = c) (map of_nat [1..<0x80])"
    by code_simp
  moreover assume "1 \<le> c" "c \<le> 0x7f"
  ultimately show "translate_sc2_to_sc1 (translate_sc1_to_sc2 c) = c"
    using all_bytes [of "\<lambda>c. translate_sc2_to_sc1 (translate_sc1_to_sc2 c) = c" 1 "0x80" c]
    by (simp add: word_le_nat_alt word_less_nat_alt)
next
  have "list_all (\<lambda>d. d \<in> {2, 0x7f, 0x80, 0x81, 0x82} \<or> translate_sc1_to_sc2 (translate_sc2_to_sc1 d) = d)
      (map of_nat [0..<0x85])"
    by code_simp
  moreover assume "d \<le> 0x84" "d \<notin> {2, 0x7f, 0x80, 0x81, 0x82}"
  ultimately show "translate_sc1_to_sc2 (translate_sc2_to_sc1 d) = d"
    using all_bytes [of "\<lambda>d. d \<in> {2, 0x7f, 0x80, 0x81, 0x82} \<or> translate_sc1_to_sc2 (translate_sc2_to_sc1 d) = d" 0 "0x85" d]
    by (simp add: word_le_nat_alt word_less_nat_alt)
next
  show "translate_sc1_to_sc2 (translate_sc2_to_sc1 2) = 0x83" by code_simp
qed

theorem scancode_roundtrip_witness:
  "translate_sc2_to_sc1 (translate_sc1_to_sc2 0x1e) = 0x1e \<and> translate_sc1_to_sc2 (translate_sc2_to_sc1 0x1c) = 0x1c"
  using scancode_roundtrip [of "0x1e" "0x1c"] by simp

lemma emap_search_0:
  "emap_search 0 key =
     (if key = 0x11 then Inr (Some 0x39) else if key = 0x1f then Inr (Some 0x8b) else if key = 0x2f then Inr (Some 0x8d)
      else if key = 0x3f then Inr (Some 0x7f) else if key = 0x5a then Inr (Some 0x79) else if key = 0x69 then Inr (Some 0x65)
      else if key = 0x6c then Inr (Some 0x6e) else if key = 0x71 then Inr (Some 0x64) else if key = 0x74 then Inr (Some 0x6a)
      else if key = 0x7a then Inr (Some 0x6d) else if key = 0x7d then Inr (Some 0x6f) else Inl Undefined)"
proof -
  have len: "length emap = 44" by (simp add: emap_def)
  have tab: "emap ! 0 = 0x11" "emap ! 1 = 0x39" "emap ! 4 = 0x1f" "emap ! 5 = 0x8b" "emap ! 8 = 0x2f" "emap ! 9 = 0x8d"
    "emap ! 12 = 0x3f" "emap ! 13 = 0x7f" "emap ! 16 = 0x5a" "emap ! 17 = 0x79" "emap ! 20 = 0x69" "emap ! 21 = 0x65"
    "emap ! 24 = 0x6c" "emap ! 25 = 0x6e" "emap ! 28 = 0x71" "emap ! 29 = 0x64" "emap ! 32 = 0x74" "emap ! 33 = 0x6a"
    "emap ! 36 = 0x7a" "emap ! 37 = 0x6d" "emap ! 40 = 0x7d" "emap ! 41 = 0x6f"
    by (simp_all add: emap_def)
  have s22: "emap_search 22 key = Inl Undefined" by (simp add: emap_search.simps len)
  have s:
    "emap_search 0 key = (if key = 0x11 then Inr (Some 0x39) else emap_search 2 key)"
    "emap_search 2 key = (if key = 0x1f then Inr (Some 0x8b) else emap_search 4 key)"
    "emap_search 4 key = (if key = 0x2f then Inr (Some 0x8d) else emap_search 6 key)"
    "emap_search 6 key = (if key = 0x3f then Inr (Some 0x7f) else emap_search 8 key)"
    "emap_search 8 key = (if key = 0x5a then Inr (Some 0x79) else emap_search 10 key)"
    "emap_search 10 key = (if key = 0x69 then Inr (Some 0x65) else emap_search 12 key)"
    "emap_search 12 key = (if key = 0x6c then Inr (Some 0x6e) else emap_search 14 key)"
    "emap_search 14 key = (if key = 0x71 then Inr (Some 0x64) else emap_search 16 key)"
    "emap_search 16 key = (if key = 0x74 then Inr (Some 0x6a) else emap_search 18 key)"
    "emap_search 18 key = (if key = 0x7a then Inr (Some 0x6d) else emap_search 20 key)"
    "emap_search 20 key = (if key = 0x7d then Inr (Some 0x6f) else emap_search 22 key)"
    by (subst emap_search.simps; auto simp: len tab [simplified] numeral_2_eq_2 [symmetric])+
  show ?thesis unfolding s s22 by (rule refl)
qed

text \<open>The translation to set 3 leaves its table for extended keys: it is undefined exactly for
  the keys with the first extension flag that are not the pause key and not one of the eleven that
  the search visits before it runs behind the table. Of the 22 keys in the table it misses every other one.\<close>

lemma sc3_out_of_bounds_exactly:
  "translate_sc2_to_sc3 code = Inl Undefined \<longleftrightarrow>
     flag code EXTEND0 \<and> \<not> (flag code EXTEND1 \<and> (ucast code :: u8) = 0x77)
     \<and> (ucast code :: u8) \<notin> {0x11, 0x1f, 0x2f, 0x3f, 0x5a, 0x69, 0x6c, 0x71, 0x74, 0x7a, 0x7d}"
  by (auto simp: translate_sc2_to_sc3_def Let_def emap_search_0 bindR_eq_Inl split: option.splits)

end
