(* ===== verification/Ps2Keyboard.thy ===== *)
theory Ps2Keyboard
  imports KeyboardUtil QueueContract
begin

text \<open>
  The PS/2 keyboard of \<^verbatim>\<open>apps/vancouver/model/ps2keyboard.cc\<close>. Its only message is the
  notification of its PS/2 port, always sent last: a receive function says with a
  flag whether it sends one. A failed assertion throws.
\<close>

section \<open>Definitions\<close>

definition BUFFERSIZE :: nat where "BUFFERSIZE = 18"

record kbd =
  k_ps2port :: u32
  hostkeyboard :: u32
  scset :: u8
  buffer :: "u8 list"
  pread :: u32
  pwrite :: u32
  response :: u32
  no_breakcode :: "u8 list"
  indicators :: u8
  last_command :: u8
  last_reply :: u8
  k_mode :: u8

definition MODE_DISABLED :: u8 where "MODE_DISABLED = 1"
definition MODE_RESET :: u8 where "MODE_RESET = 2"
definition MODE_RESEND :: u8 where "MODE_RESEND = 4"
definition MODE_GOT_BREAK :: u8 where "MODE_GOT_BREAK = 8"
definition MODE_STOPPED :: u8 where "MODE_STOPPED = 16"

text \<open>The position behind \<^term>\<open>p\<close>, and the number of bytes that \<^verbatim>\<open>enqueue\<close> takes to be in the
  buffer: a 32-bit difference, then the remainder.\<close>

definition ring_next :: "u32 \<Rightarrow> u32" where
  "ring_next p = of_nat (unat (p + 1) mod BUFFERSIZE)"

definition fill_level :: "kbd \<Rightarrow> nat" where
  "fill_level k = unat (pwrite k - pread k) mod BUFFERSIZE"

definition store :: "u8 \<Rightarrow> kbd \<Rightarrow> kbd res" where
  "store v k =
     (if fill_level k < BUFFERSIZE - 1 then
        if unat (pwrite k) < length (buffer k)
        then Inr (k\<lparr>buffer := (buffer k)[unat (pwrite k) := (if fill_level k \<le> BUFFERSIZE - 3 then v else 0)],
                    pwrite := ring_next (pwrite k)\<rparr>)
        else Inl Undefined
      else Inr k)"

definition enqueue :: "u8 \<Rightarrow> kbd \<Rightarrow> kbd res" where
  "enqueue v k =
     (if scset k = 1 then
        if v = 0xf0 then Inr (k\<lparr>k_mode := k_mode k OR MODE_GOT_BREAK\<rparr>)
        else let v = (if flag (k_mode k) MODE_GOT_BREAK then v OR 0x80 else v)
             in store (translate_sc2_to_sc1 v) (k\<lparr>k_mode := k_mode k AND NOT MODE_GOT_BREAK\<rparr>)
      else store v k)"

fun enqueue_string :: "u8 list \<Rightarrow> kbd \<Rightarrow> kbd res" where
  "enqueue_string [] k = Inr k"
| "enqueue_string (v # vs) k = bindR (enqueue v k) (enqueue_string vs)"

definition kbd_reset :: "kbd \<Rightarrow> kbd" where
  "kbd_reset k = k\<lparr>scset := 2, pread := 0, pwrite := 0, response := 0,
     no_breakcode := [0x80, 0x81, 0x80, 0x80, 0x80, 0x80, 0x80, 0x82, 0x80, 0x80, 0xc0, 0xc1, 0xa4, 0xfa, 0xff, 0x66, 0x10]
                     @ replicate 15 0,
     indicators := 0, last_command := 0, last_reply := 0, k_mode := 0\<rparr>"

definition has_shift_modifiers :: "u8 \<Rightarrow> bool" where
  "has_shift_modifiers key \<longleftrightarrow> key = 0x69 \<or> (0x6b \<le> key \<and> key \<le> 0x6c) \<or> (0x70 \<le> key \<and> key \<le> 0x72)
     \<or> (0x74 \<le> key \<and> key \<le> 0x75) \<or> key = 0x7a \<or> key = 0x7d \<or> key = 0x7c \<or> key = 0x4a"

text \<open>The loop that sends the collected modifier codes, one per byte.\<close>

function send_modifiers :: "u32 \<Rightarrow> u32 \<Rightarrow> kbd \<Rightarrow> kbd res" where
  "send_modifiers value modifiers k =
     (if modifiers \<noteq> 0 then
        bindR (enqueue 0xe0 k) (\<lambda>k.
        bindR (if flag (NOT value) RELEASE then enqueue 0xf0 k else Inr k) (\<lambda>k.
        bindR (enqueue (ucast modifiers) k) (\<lambda>k. send_modifiers value (drop_bit 8 modifiers) k)))
      else Inr k)"
  by auto
termination
proof (relation "measure (\<lambda>(_, m, _). unat m)")
  fix modifiers :: u32 assume "modifiers \<noteq> 0"
  then have "unat (drop_bit 8 modifiers) < unat modifiers" by (rule unat_drop_bit_less) simp
  then show "((w, drop_bit 8 modifiers, k), w, modifiers, k') \<in> measure (\<lambda>(_, m, _). unat m)"
    for w :: u32 and k k' :: kbd by simp
qed simp

definition handle_shift_modifiers :: "u32 \<Rightarrow> kbd \<Rightarrow> kbd res" where
  "handle_shift_modifiers value k =
     (if flag value EXTEND0 \<and> has_shift_modifiers (ucast value) then
        let key = ucast value :: u8;
            num = key = 0x4a \<or> flag (NOT value) NUM;
            modifiers = (if flag value LSHIFT \<and> num then 0x12 else 0);
            modifiers = (if flag value RSHIFT \<and> num
                         then (if flag value RELEASE then 0x59 OR push_bit 8 modifiers else 0x5900 OR modifiers)
                         else modifiers);
            flip = (key = 0x7c \<and> \<not> flag value (RSHIFT OR LSHIFT OR RCTRL OR LCTRL))
                   \<or> (\<not> flag value (RSHIFT OR LSHIFT) \<and> flag value NUM \<and> key \<noteq> 0x4a)
        in if flip then send_modifiers (value XOR RELEASE) 0x12 k else send_modifiers value modifiers k
      else Inr k)"

text \<open>A key of the host in the scancode sets 1 and 2. The string for the sysctrl key ends at its
  second byte, which is zero.\<close>

definition input_set12 :: "u32 \<Rightarrow> kbd \<Rightarrow> kbd res" where
  "input_set12 data k =
     (let key = ucast data :: u8; k = k\<lparr>k_mode := k_mode k AND NOT MODE_GOT_BREAK\<rparr> in
      bindR (if flag data EXTEND1
             then bindR (enqueue 0xe1 k)
                    (\<lambda>k. if key = 0x77 then enqueue_string [0x14, 0x77, 0xe1, 0xf0, 0x14] k else Inr k)
             else Inr k) (\<lambda>k.
      bindR (if key = 0x7e \<and> flag data EXTEND0 \<and> flag data RELEASE then enqueue_string [0xe0] k else Inr k) (\<lambda>k.
      bindR (if flag (NOT data) RELEASE then handle_shift_modifiers data k else Inr k) (\<lambda>k.
      bindR (if flag data EXTEND0 then enqueue 0xe0 k else Inr k) (\<lambda>k.
      bindR (if flag data RELEASE then enqueue 0xf0 k else Inr k) (\<lambda>k.
      bindR (enqueue (ucast data) k) (\<lambda>k.
        if flag data RELEASE then handle_shift_modifiers data k else Inr k)))))))"

text \<open>A key of the host in scancode set 3; the flag says that the function returns early.\<close>

definition input_set3 :: "u32 \<Rightarrow> kbd \<Rightarrow> (bool \<times> kbd) res" where
  "input_set3 data k =
     bindR (translate_sc2_to_sc3 data) (\<lambda>key.
     bindR (if key = 0x62 then enqueue key k else Inr k) (\<lambda>k.
     if flag data RELEASE then
       if unat (drop_bit 3 key) < length (no_breakcode k) then
         if flag (no_breakcode k ! unat (drop_bit 3 key)) (push_bit (unat (key AND 7)) 1) then Inr (True, k)
         else bindR (enqueue 0xf0 k) (\<lambda>k. bindR (enqueue key k) (\<lambda>k. Inr (False, k)))
       else Inl Undefined
     else bindR (enqueue key k) (\<lambda>k. Inr (False, k))))"

definition kbd_receive_input :: "u32 \<Rightarrow> u32 \<Rightarrow> kbd \<Rightarrow> (bool \<times> kbd \<times> bool) res" where
  "kbd_receive_input device data k =
     (if device \<noteq> hostkeyboard k then Inr (False, k, False)
      else if flag (k_mode k) (MODE_DISABLED OR MODE_STOPPED) then Inr (False, k, False)
      else bindR (if scset k = 2 \<or> scset k = 1 then bindR (input_set12 data k) (\<lambda>k'. Inr (False, k'))
                  else input_set3 data k)
             (\<lambda>(early, k'). Inr (True, k', \<not> early \<and> pwrite k = pread k')))"

text \<open>\<^verbatim>\<open>READ_KEY\<close>: whether a byte was there, and the byte.\<close>

definition kbd_read_key :: "kbd \<Rightarrow> (bool \<times> u8 \<times> kbd) res" where
  "kbd_read_key k =
     (if flag (k_mode k) MODE_RESEND then
        Inr (True, last_reply k, k\<lparr>k_mode := k_mode k AND NOT MODE_RESEND\<rparr>)
      else if response k \<noteq> 0 then
        let v = ucast (response k AND 0xff); k = k\<lparr>response := drop_bit 8 (response k)\<rparr>
        in if flag (k_mode k) MODE_RESET then
             if response k = 0 \<and> v = 0xfa
             then let k = (kbd_reset k)\<lparr>response := 0xaa\<rparr>
                  in Inr (True, v, k\<lparr>k_mode := k_mode k AND NOT MODE_RESET, last_reply := v\<rparr>)
             else Inl (Throw E_ASSERT)
           else Inr (True, v, k\<lparr>last_reply := v\<rparr>)
      else if unat (pread k) < length (buffer k) then
        let v = buffer k ! unat (pread k)
        in if pwrite k \<noteq> pread k then Inr (True, v, k\<lparr>pread := ring_next (pread k), last_reply := v\<rparr>)
           else Inr (False, v, k)
      else Inl Undefined)"

text \<open>The parameter byte of a command: the state, the response and the command to be
  remembered.\<close>

definition kbd_parameter :: "u8 \<Rightarrow> kbd \<Rightarrow> (kbd \<times> u32 \<times> u8) res" where
  "kbd_parameter v k =
     (let lc = last_command k in
      if lc = 0xed then Inr (k\<lparr>indicators := v\<rparr>, 0xfa, 0)
      else if lc = 0xf3 then Inr (k, 0xfa, 0)
      else if lc = 0xf0 then
        if v = 0 then Inr (k, push_bit 16 (ucast (scset k)) OR 0xfa, 0)
        else if 1 \<le> v \<and> v \<le> 3 then Inr (k\<lparr>scset := v\<rparr>, 0xfa, 0)
        else Inr (k, 0xff, 0)
      else if lc = 0xfc \<or> lc = 0xfd \<or> lc = 0xfb then
        bindR (if lc = 0xfb then Inr k
               else let i = unat (drop_bit 3 v); b = push_bit (unat (v AND 7)) 1 in
                 if i < length (no_breakcode k)
                 then Inr (k\<lparr>no_breakcode := (no_breakcode k)
                     [i := (if lc = 0xfc then no_breakcode k ! i AND NOT b else no_breakcode k ! i OR b)]\<rparr>)
                 else Inl Undefined)
          (\<lambda>k. Inr (if v \<noteq> 0 then (k, 0xfa, lc) else (k, 0xfe, 0)))
      else Inr (k, 0xfe, 0))"

text \<open>All commands: the state, the response, the command to be remembered and the new mode.\<close>

definition kbd_command :: "u8 \<Rightarrow> kbd \<Rightarrow> (kbd \<times> u32 \<times> u8 \<times> u8) res" where
  "kbd_command v k =
     (let md = k_mode k AND NOT (MODE_STOPPED OR MODE_RESET) in
      if v = 0xf0 then Inr (k\<lparr>pwrite := 0, pread := 0\<rparr>, 0xfa, v, md OR MODE_STOPPED)
      else if v = 0xed \<or> v = 0xf3 \<or> v = 0xfb \<or> v = 0xfc \<or> v = 0xfd then Inr (k, 0xfa, v, md OR MODE_STOPPED)
      else if v = 0xee then Inr (k, 0xee, v, md)
      else if v = 0xf2 then Inr (k, 0x83abfa, v, md)
      else if v = 0xf4 then Inr (k\<lparr>pwrite := 0, pread := 0\<rparr>, 0xfa, v, md AND NOT MODE_DISABLED)
      else if v = 0xf5 then Inr (kbd_reset k, 0xfa, v, md OR MODE_DISABLED)
      else if v = 0xf6 then Inr (kbd_reset k, 0xfa, v, md AND NOT MODE_DISABLED)
      else if v = 0xf8 \<or> v = 0xfa then Inr (k\<lparr>no_breakcode := replicate 32 0\<rparr>, 0xfa, v, md)
      else if v = 0xf9 then Inr (k\<lparr>no_breakcode := replicate 32 0xff\<rparr>, 0xfa, v, md)
      else if v = 0xf7 then Inr (k, 0xfa, v, md)
      else if v = 0xfe then Inr (k, 0, v, md OR MODE_RESEND)
      else if v = 0xff then Inr (k, 0xfa, v, md OR (MODE_RESET OR MODE_STOPPED))
      else bindR (kbd_parameter v k)
        (\<lambda>(k, resp, command). Inr (k, resp, command, if command \<noteq> 0 then md OR MODE_STOPPED else md)))"

definition kbd_send_command :: "u8 \<Rightarrow> kbd \<Rightarrow> (kbd \<times> bool) res" where
  "kbd_send_command v k =
     bindR (kbd_command v k) (\<lambda>(k, resp, command, md).
       let k = k\<lparr>last_command := command, k_mode := md\<rparr>;
           k = (if resp \<noteq> 0 then k\<lparr>response := resp\<rparr> else k)
       in Inr (k, response k \<noteq> 0 \<or> flag (k_mode k) MODE_RESEND))"

definition kbd_receive_ps2 :: "u32 \<Rightarrow> ps2_type \<Rightarrow> u8 \<Rightarrow> kbd \<Rightarrow> (bool \<times> u8 \<times> kbd \<times> bool) res" where
  "kbd_receive_ps2 port t v k =
     (if port \<noteq> k_ps2port k then Inr (False, v, k, False)
      else case t of
        READ_KEY \<Rightarrow> bindR (kbd_read_key k) (\<lambda>(b, v, k). Inr (b, v, k, False))
      | SEND_COMMAND \<Rightarrow> bindR (kbd_send_command v k) (\<lambda>(k, n). Inr (True, v, k, n))
      | NOTIFY \<Rightarrow> Inr (False, v, k, False))"

definition kbd_receive_legacy :: "legacy_type \<Rightarrow> kbd \<Rightarrow> bool \<times> kbd" where
  "kbd_receive_legacy t k = (if t \<noteq> RESET then (False, k) else (True, kbd_reset k))"

definition kbd_init :: "u32 \<Rightarrow> u32 \<Rightarrow> kbd" where
  "kbd_init ps2port host = \<lparr>k_ps2port = ps2port, hostkeyboard = host, scset = 0, buffer = replicate BUFFERSIZE 0,
     pread = 0, pwrite = 0, response = 0, no_breakcode = replicate 32 0, indicators = 0, last_command = 0,
     last_reply = 0, k_mode = 0\<rparr>"

text \<open>The bytes in the buffer, oldest first.\<close>

definition kbd_count :: "kbd \<Rightarrow> nat" where
  "kbd_count k = (unat (pwrite k) + BUFFERSIZE - unat (pread k)) mod BUFFERSIZE"

definition kbd_queue :: "kbd \<Rightarrow> u8 list" where
  "kbd_queue k = ring_abs BUFFERSIZE (buffer k) (unat (pwrite k)) (kbd_count k)"

definition kbd_inv :: "kbd \<Rightarrow> bool" where
  "kbd_inv k \<longleftrightarrow> length (buffer k) = BUFFERSIZE \<and> unat (pread k) < BUFFERSIZE \<and> unat (pwrite k) < BUFFERSIZE
     \<and> length (no_breakcode k) = 32 \<and> (flag (k_mode k) MODE_RESET \<longrightarrow> response k = 0xfa)"

inductive kbd_reach :: "kbd \<Rightarrow> bool" where
  reach_init: "kbd_reach (kbd_init p h)"
| reach_input: "kbd_reach k \<Longrightarrow> kbd_receive_input d v k = Inr (b, k', n) \<Longrightarrow> kbd_reach k'"
| reach_ps2: "kbd_reach k \<Longrightarrow> kbd_receive_ps2 p t v k = Inr (b, v', k', n) \<Longrightarrow> kbd_reach k'"
| reach_legacy: "kbd_reach k \<Longrightarrow> kbd_receive_legacy l k = (b, k') \<Longrightarrow> kbd_reach k'"

section \<open>Lemmas\<close>

declare send_modifiers.simps [simp del]

definition same_cfg :: "kbd \<Rightarrow> kbd \<Rightarrow> bool" where
  "same_cfg k k' \<longleftrightarrow> k' = k\<lparr>buffer := buffer k', pwrite := pwrite k', k_mode := k_mode k'\<rparr>
     \<and> (flag (k_mode k') MODE_RESET \<longleftrightarrow> flag (k_mode k) MODE_RESET)"

definition good_op :: "(kbd \<Rightarrow> kbd res) \<Rightarrow> bool" where
  "good_op f \<longleftrightarrow> (\<forall>k. kbd_inv k \<longrightarrow> (\<exists>k'. f k = Inr k' \<and> kbd_inv k' \<and> same_cfg k k'))"

definition kbd_pending :: "kbd \<Rightarrow> nat" where
  "kbd_pending k = (if flag (k_mode k) MODE_RESET then 1000 else 0) + (if flag (k_mode k) MODE_RESEND then 1 else 0)
     + unat (response k) + kbd_count k"

subsection \<open>The invariant\<close>

lemma ring_next_less: "unat (ring_next p) < BUFFERSIZE"
  by (simp add: ring_next_def BUFFERSIZE_def unat_of_nat)

lemma ring_next_unat: "unat p < BUFFERSIZE \<Longrightarrow> unat (ring_next p) = Suc (unat p) mod BUFFERSIZE"
proof -
  assume p: "unat p < BUFFERSIZE"
  have "unat (p + 1) = Suc (unat p)" using p unat_add_small [of p 1] by (simp add: BUFFERSIZE_def)
  then show ?thesis by (simp add: ring_next_def BUFFERSIZE_def unat_of_nat)
qed

text \<open>The fields that storing a byte does not touch.\<close>

lemma same_cfg_trans: "same_cfg k k' \<Longrightarrow> same_cfg k' k'' \<Longrightarrow> same_cfg k k''"
  by (cases k; cases k'; cases k'') (auto simp: same_cfg_def)

lemma same_cfg_refl [simp]: "same_cfg k k"
  by (simp add: same_cfg_def)

lemma mode_flags:
  "flag (m OR MODE_GOT_BREAK) MODE_RESET = flag m MODE_RESET"
  "flag (m AND NOT MODE_GOT_BREAK) MODE_RESET = flag m MODE_RESET"
  "flag (m AND NOT MODE_RESEND) MODE_RESET = flag m MODE_RESET"
  by (simp_all add: flag_def MODE_GOT_BREAK_def MODE_RESET_def MODE_RESEND_def bit.conj_disj_distrib2 and.assoc)

text \<open>An operation is good when it keeps the invariant and does not fail.\<close>

lemma good_opE:
  assumes "good_op f" "kbd_inv k"
  obtains k' where "f k = Inr k'" "kbd_inv k'" "same_cfg k k'"
  using assms by (auto simp: good_op_def)

lemma good_op_Inr [intro]: "good_op Inr"
  by (simp add: good_op_def)

lemma good_op_bind [intro]: "good_op f \<Longrightarrow> good_op g \<Longrightarrow> good_op (\<lambda>k. bindR (f k) g)"
  unfolding good_op_def by (metis bindR_simps(2) same_cfg_trans)

lemma good_op_if [intro]: "good_op f \<Longrightarrow> good_op g \<Longrightarrow> good_op (\<lambda>k. if b then f k else g k)"
  by (simp add: good_op_def)

lemma store_good: "good_op (store v)"
  unfolding good_op_def store_def
  by (auto simp: kbd_inv_def same_cfg_def ring_next_less)

lemma enqueue_good [intro]: "good_op (enqueue v)"
  unfolding good_op_def
proof (intro allI impI)
  fix k assume k: "kbd_inv k"
  show "\<exists>k'. enqueue v k = Inr k' \<and> kbd_inv k' \<and> same_cfg k k'"
  proof (cases "scset k = 1 \<and> v \<noteq> 0xf0")
    case True
    let ?k = "k\<lparr>k_mode := k_mode k AND NOT MODE_GOT_BREAK\<rparr>"
    have i: "kbd_inv ?k" "same_cfg k ?k" using k by (auto simp: kbd_inv_def same_cfg_def mode_flags)
    then show ?thesis using True store_good same_cfg_trans unfolding good_op_def enqueue_def Let_def
      by simp blast
  next
    case False
    then show ?thesis using k store_good unfolding good_op_def enqueue_def
      by (auto simp: kbd_inv_def same_cfg_def mode_flags)
  qed
qed

lemma enqueue_string_good [intro]: "good_op (enqueue_string vs)"
proof (induction vs)
  case Nil
  show ?case by (simp add: good_op_def)
next
  case (Cons v vs)
  show ?case using good_op_bind [OF enqueue_good Cons] by simp
qed

lemma send_modifiers_good [intro]: "good_op (send_modifiers value modifiers)"
proof (induction "unat modifiers" arbitrary: modifiers rule: less_induct)
  case less
  show ?case
  proof (cases "modifiers = 0")
    case True
    then show ?thesis by (simp add: good_op_def send_modifiers.simps)
  next
    case False
    then have "unat (drop_bit 8 modifiers) < unat modifiers" by (rule unat_drop_bit_less) simp
    then have "good_op (send_modifiers value (drop_bit 8 modifiers))" by (rule less)
    then have "good_op (\<lambda>k. bindR (enqueue 0xe0 k) (\<lambda>k.
        bindR (if flag (NOT value) RELEASE then enqueue 0xf0 k else Inr k) (\<lambda>k.
        bindR (enqueue (ucast modifiers) k) (\<lambda>k. send_modifiers value (drop_bit 8 modifiers) k))))"
      by (intro good_op_bind good_op_if enqueue_good good_op_Inr)
    then show ?thesis using False by (subst send_modifiers.simps [abs_def]) simp
  qed
qed

lemma handle_shift_good [intro]: "good_op (handle_shift_modifiers value)"
  unfolding handle_shift_modifiers_def [abs_def] Let_def
  by (intro good_op_if send_modifiers_good good_op_Inr)

lemma input_set12_good: "good_op (input_set12 data)"
proof -
  have "good_op (\<lambda>k. Inr (k\<lparr>k_mode := k_mode k AND NOT MODE_GOT_BREAK\<rparr>))"
    by (simp add: good_op_def kbd_inv_def same_cfg_def mode_flags)
  then have "good_op (\<lambda>k. bindR (Inr (k\<lparr>k_mode := k_mode k AND NOT MODE_GOT_BREAK\<rparr>)) (\<lambda>k.
      bindR (if flag data EXTEND1
             then bindR (enqueue 0xe1 k)
                    (\<lambda>k. if (ucast data :: u8) = 0x77 then enqueue_string [0x14, 0x77, 0xe1, 0xf0, 0x14] k else Inr k)
             else Inr k) (\<lambda>k.
      bindR (if (ucast data :: u8) = 0x7e \<and> flag data EXTEND0 \<and> flag data RELEASE then enqueue_string [0xe0] k else Inr k) (\<lambda>k.
      bindR (if flag (NOT data) RELEASE then handle_shift_modifiers data k else Inr k) (\<lambda>k.
      bindR (if flag data EXTEND0 then enqueue 0xe0 k else Inr k) (\<lambda>k.
      bindR (if flag data RELEASE then enqueue 0xf0 k else Inr k) (\<lambda>k.
      bindR (enqueue (ucast data) k) (\<lambda>k.
        if flag data RELEASE then handle_shift_modifiers data k else Inr k))))))))"
    by (intro good_op_bind good_op_if handle_shift_good enqueue_good enqueue_string_good good_op_Inr)
  then show ?thesis by (simp add: input_set12_def [abs_def] Let_def)
qed

lemma input_set3_inv:
  assumes "kbd_inv k" "input_set3 data k = Inr (e, k')"
  shows "kbd_inv k' \<and> same_cfg k k'"
proof -
  obtain key k1 where k1: "kbd_inv k1" "same_cfg k k1"
    and r: "(if flag data RELEASE then
       if unat (drop_bit 3 key) < length (no_breakcode k1) then
         if flag (no_breakcode k1 ! unat (drop_bit 3 key)) (push_bit (unat (key AND 7)) 1) then Inr (True, k1)
         else bindR (enqueue 0xf0 k1) (\<lambda>k. bindR (enqueue key k) (\<lambda>k. Inr (False, k)))
       else Inl Undefined
     else bindR (enqueue key k1) (\<lambda>k. Inr (False, k))) = Inr (e, k')"
  proof -
    obtain key k1 where a: "(if key = 0x62 then enqueue key k else Inr k) = Inr k1"
      and r: "(if flag data RELEASE then
       if unat (drop_bit 3 key) < length (no_breakcode k1) then
         if flag (no_breakcode k1 ! unat (drop_bit 3 key)) (push_bit (unat (key AND 7)) 1) then Inr (True, k1)
         else bindR (enqueue 0xf0 k1) (\<lambda>k. bindR (enqueue key k) (\<lambda>k. Inr (False, k)))
       else Inl Undefined
     else bindR (enqueue key k1) (\<lambda>k. Inr (False, k))) = Inr (e, k')"
      using assms(2) unfolding input_set3_def bindR_eq_Inr by blast
    have "good_op (\<lambda>k. if key = 0x62 then enqueue key k else Inr k)" by (intro good_op_if enqueue_good good_op_Inr)
    then have "kbd_inv k1 \<and> same_cfg k k1" using assms(1) a by (auto elim: good_opE)
    then show thesis using that r by blast
  qed
  obtain k2 where k2: "enqueue 0xf0 k1 = Inr k2" "kbd_inv k2" "same_cfg k1 k2"
    using good_opE [OF enqueue_good k1(1)] by blast
  obtain k3 where k3: "enqueue key k2 = Inr k3" "kbd_inv k3" "same_cfg k2 k3"
    using good_opE [OF enqueue_good k2(2)] by blast
  obtain k4 where k4: "enqueue key k1 = Inr k4" "kbd_inv k4" "same_cfg k1 k4"
    using good_opE [OF enqueue_good k1(1)] by blast
  have "k' = k1 \<or> k' = k3 \<or> k' = k4"
    using r k2(1) k3(1) k4(1) by (auto split: if_splits)
  then show ?thesis using k1 k2(2,3) k3(2,3) k4(2,3) same_cfg_trans by blast
qed

lemma kbd_input_inv:
  assumes "kbd_inv k" "kbd_receive_input d v k = Inr (b, k', n)"
  shows "kbd_inv k'"
proof (cases "d = hostkeyboard k \<and> \<not> flag (k_mode k) (MODE_DISABLED OR MODE_STOPPED)")
  case True
  show ?thesis
  proof (cases "scset k = 2 \<or> scset k = 1")
    case t: True
    obtain k1 where "input_set12 v k = Inr k1" "kbd_inv k1"
      using good_opE [OF input_set12_good assms(1)] by blast
    then show ?thesis using assms(2) True t by (auto simp: kbd_receive_input_def)
  next
    case False
    then obtain e where "input_set3 v k = Inr (e, k')"
      using assms(2) True by (auto simp: kbd_receive_input_def bindR_eq_Inr)
    then show ?thesis using input_set3_inv [OF assms(1)] by blast
  qed
qed (use assms in \<open>auto simp: kbd_receive_input_def split: if_splits\<close>)

lemma kbd_reset_inv [simp]: "length (buffer k) = BUFFERSIZE \<Longrightarrow> kbd_inv (kbd_reset k)"
  by (simp add: kbd_reset_def kbd_inv_def flag_def BUFFERSIZE_def)

lemma kbd_read_ok:
  assumes "kbd_inv k"
  shows "\<exists>b v k'. kbd_read_key k = Inr (b, v, k') \<and> kbd_inv k'"
proof -
  have f: "flag (k_mode k) MODE_RESET \<Longrightarrow> response k = 0xfa" using assms by (simp add: kbd_inv_def)
  have rs: "kbd_inv ((kbd_reset k)\<lparr>response := r, k_mode := k_mode (kbd_reset k) AND NOT MODE_RESET, last_reply := v\<rparr>)" for r v
    using assms kbd_reset_inv [of k] by (simp add: kbd_inv_def kbd_reset_def flag_def)
  consider "flag (k_mode k) MODE_RESEND" | "\<not> flag (k_mode k) MODE_RESEND" "response k \<noteq> 0" "flag (k_mode k) MODE_RESET"
    | "\<not> flag (k_mode k) MODE_RESEND" "response k \<noteq> 0" "\<not> flag (k_mode k) MODE_RESET"
    | "\<not> flag (k_mode k) MODE_RESEND" "response k = 0" by blast
  then show ?thesis
  proof cases
    case 2
    then have "kbd_read_key k = Inr (True, 0xfa, (kbd_reset k)\<lparr>response := 0xaa,
        k_mode := k_mode (kbd_reset k) AND NOT MODE_RESET, last_reply := 0xfa\<rparr>)"
      using f by (simp add: kbd_read_key_def Let_def kbd_reset_def)
    then show ?thesis using rs by blast
  qed (use assms f in \<open>auto simp: kbd_read_key_def Let_def kbd_inv_def mode_flags ring_next_less\<close>)
qed

lemma byte_index: "unat (drop_bit 3 (v :: u8)) < 32"
  using unat_bound [of v] by (simp add: unat_drop_bit)

lemma kbd_parameter_ok:
  assumes "kbd_inv k"
  shows "\<exists>k' resp c. kbd_parameter v k = Inr (k', resp, c) \<and> length (buffer k') = BUFFERSIZE
    \<and> unat (pread k') < BUFFERSIZE \<and> unat (pwrite k') < BUFFERSIZE \<and> length (no_breakcode k') = 32"
  using assms byte_index [of v] by (simp add: kbd_parameter_def Let_def kbd_inv_def)

lemma mode_reset_cleared:
  "\<not> flag (m AND NOT (MODE_STOPPED OR MODE_RESET)) MODE_RESET"
  "\<not> flag (m AND NOT MODE_STOPPED AND NOT MODE_RESET) MODE_RESET"
  "flag (m OR MODE_STOPPED) MODE_RESET = flag m MODE_RESET"
  "flag (m OR MODE_RESEND) MODE_RESET = flag m MODE_RESET"
  "flag (m OR MODE_DISABLED) MODE_RESET = flag m MODE_RESET"
  "\<not> flag m MODE_RESET \<Longrightarrow> \<not> flag (m AND NOT MODE_DISABLED) MODE_RESET"
  by (simp_all add: flag_def MODE_STOPPED_def MODE_RESET_def MODE_RESEND_def MODE_DISABLED_def
      bit.conj_disj_distrib2 and.assoc)

lemma kbd_command_ok:
  assumes "kbd_inv k"
  shows "\<exists>k' resp c md. kbd_command v k = Inr (k', resp, c, md) \<and> length (buffer k') = BUFFERSIZE
    \<and> unat (pread k') < BUFFERSIZE \<and> unat (pwrite k') < BUFFERSIZE \<and> length (no_breakcode k') = 32
    \<and> (flag md MODE_RESET \<longrightarrow> resp = 0xfa)"
proof -
  obtain k1 r c where p: "kbd_parameter v k = Inr (k1, r, c)" "length (buffer k1) = BUFFERSIZE"
    "unat (pread k1) < BUFFERSIZE" "unat (pwrite k1) < BUFFERSIZE" "length (no_breakcode k1) = 32"
    using kbd_parameter_ok [OF assms, of v] by blast
  have l: "length (buffer k) = BUFFERSIZE" using assms by (simp add: kbd_inv_def)
  have r: "kbd_inv (kbd_reset k)" using l by simp
  have z: "0 < BUFFERSIZE" by (simp add: BUFFERSIZE_def)
  show ?thesis using assms p r z
    by (simp add: kbd_command_def Let_def kbd_inv_def mode_reset_cleared)
qed

lemma kbd_send_command_ok:
  assumes "kbd_inv k"
  shows "\<exists>k' n. kbd_send_command v k = Inr (k', n) \<and> kbd_inv k'"
proof -
  obtain k1 resp c md where "kbd_command v k = Inr (k1, resp, c, md)" "length (buffer k1) = BUFFERSIZE"
    "unat (pread k1) < BUFFERSIZE" "unat (pwrite k1) < BUFFERSIZE" "length (no_breakcode k1) = 32"
    "flag md MODE_RESET \<longrightarrow> resp = 0xfa"
    using kbd_command_ok [OF assms, of v] by blast
  then show ?thesis by (auto simp: kbd_send_command_def Let_def kbd_inv_def)
qed

lemma kbd_ps2_ok:
  assumes "kbd_inv k"
  shows "\<exists>b v' k' n. kbd_receive_ps2 p t v k = Inr (b, v', k', n) \<and> kbd_inv k'"
  using assms kbd_read_ok [OF assms] kbd_send_command_ok [OF assms, of v]
  by (cases t) (auto simp: kbd_receive_ps2_def)

lemma kbd_reach_inv: "kbd_reach k \<Longrightarrow> kbd_inv k"
proof (induction rule: kbd_reach.induct)
  case (reach_init p h)
  show ?case by (simp add: kbd_init_def kbd_inv_def BUFFERSIZE_def flag_def)
next
  case (reach_input k d v b k' n)
  then show ?case using kbd_input_inv by blast
next
  case (reach_ps2 k p t v b v' k' n)
  then show ?case using kbd_ps2_ok [of k p t v] by auto
next
  case (reach_legacy k l b k')
  have "length (buffer k) = BUFFERSIZE" using reach_legacy.IH by (simp add: kbd_inv_def)
  then show ?case using reach_legacy by (auto simp: kbd_receive_legacy_def split: if_splits)
qed

subsection \<open>The buffer\<close>

text \<open>What \<^verbatim>\<open>enqueue\<close> takes for the number of bytes is right as long as the writer has not wrapped around; then it
  is off by four, because \<^verbatim>\<open>2^32\<close> is not a multiple of the buffer size.\<close>

lemma fill_level_eq:
  assumes "kbd_inv k"
  shows "fill_level k = (if unat (pread k) \<le> unat (pwrite k) then kbd_count k else (kbd_count k + 4) mod BUFFERSIZE)"
proof -
  have b: "unat (pread k) < 18" "unat (pwrite k) < 18" using assms by (simp_all add: kbd_inv_def BUFFERSIZE_def)
  show ?thesis
  proof (cases "pread k \<le> pwrite k")
    case True
    then have le: "unat (pread k) \<le> unat (pwrite k)" by (simp add: word_le_nat_alt)
    have "unat (pwrite k - pread k) = unat (pwrite k) - unat (pread k)" using True by (rule unat_sub)
    moreover have "(unat (pwrite k) + 18 - unat (pread k)) mod 18 = unat (pwrite k) - unat (pread k)"
      using le b by (simp add: mod_if)
    ultimately show ?thesis using le b by (simp add: fill_level_def kbd_count_def BUFFERSIZE_def)
  next
    case False
    then have lt: "unat (pwrite k) < unat (pread k)" by (simp add: word_le_nat_alt)
    have "unat (pwrite k - pread k) = 2 ^ 32 - (unat (pread k) - unat (pwrite k))"
      using False unat_sub_if' [of "pwrite k" "pread k"] lt by simp
    then have f: "fill_level k = (2 ^ 32 - (unat (pread k) - unat (pwrite k))) mod 18" by (simp add: fill_level_def BUFFERSIZE_def)
    define d where "d = unat (pread k) - unat (pwrite k)"
    have d: "0 < d" "d < 18" using lt b by (auto simp: d_def)
    have c: "kbd_count k = 18 - d"
    proof -
      have "unat (pwrite k) + 18 - unat (pread k) = 18 - d" using lt b by (simp add: d_def)
      then show ?thesis using d by (simp add: kbd_count_def BUFFERSIZE_def)
    qed
    have w: "(2 :: nat) ^ 32 = 22 + 18 * 238609293" by simp
    have "(2 :: nat) ^ 32 - d = (22 - d) + 18 * 238609293" unfolding w using d by (intro diff_add_assoc2) simp
    then have "fill_level k = (22 - d) mod 18" unfolding f d_def [symmetric] by (simp only: mod_mult_self2)
    moreover have "22 - d = kbd_count k + 4" using d by (simp add: c)
    ultimately show ?thesis using lt by (simp add: BUFFERSIZE_def)
  qed
qed

lemma kbd_count_less: "kbd_count k < BUFFERSIZE"
  by (simp add: kbd_count_def BUFFERSIZE_def)

lemma kbd_queue_length [simp]: "length (kbd_queue k) = kbd_count k"
  by (simp add: kbd_queue_def)

lemma count_next:
  assumes "kbd_inv k"
  shows "(Suc (unat (pwrite k)) mod BUFFERSIZE + BUFFERSIZE - unat (pread k)) mod BUFFERSIZE = Suc (kbd_count k) mod BUFFERSIZE"
proof -
  have b: "unat (pread k) < 18" "unat (pwrite k) < 18" using assms by (simp_all add: kbd_inv_def BUFFERSIZE_def)
  show ?thesis
  proof (cases "Suc (unat (pwrite k)) = 18")
    case True
    then have "unat (pwrite k) = 17" by simp
    then show ?thesis using b(1) by (auto simp: kbd_count_def BUFFERSIZE_def mod_if)
  next
    case False
    then have "Suc (unat (pwrite k)) mod 18 + 18 - unat (pread k) = Suc (unat (pwrite k) + 18 - unat (pread k))" using b by simp
    then show ?thesis unfolding kbd_count_def BUFFERSIZE_def by (simp only: mod_Suc_eq)
  qed
qed

text \<open>Storing a byte, as an operation on the queue.\<close>

lemma store_queue:
  assumes "kbd_inv k" "store v k = Inr k'"
  shows "kbd_queue k' =
    (if fill_level k = BUFFERSIZE - 1 then kbd_queue k
     else if kbd_count k = BUFFERSIZE - 1 then []
     else kbd_queue k @ [if fill_level k = BUFFERSIZE - 2 then 0 else v])"
proof -
  have l: "length (buffer k) = BUFFERSIZE" "unat (pread k) < BUFFERSIZE" "unat (pwrite k) < BUFFERSIZE"
    using assms(1) by (simp_all add: kbd_inv_def)
  have fl: "fill_level k < BUFFERSIZE" by (simp add: fill_level_def BUFFERSIZE_def)
  show ?thesis
  proof (cases "fill_level k = BUFFERSIZE - 1")
    case False
    let ?v = "if fill_level k = BUFFERSIZE - 2 then 0 else v"
    have lt: "fill_level k < BUFFERSIZE - 1" using False fl by simp
    have le: "(fill_level k \<le> BUFFERSIZE - 3) = (fill_level k \<noteq> BUFFERSIZE - 2)"
      using lt by (auto simp: BUFFERSIZE_def)
    have k': "k' = k\<lparr>buffer := (buffer k)[unat (pwrite k) := ?v], pwrite := ring_next (pwrite k)\<rparr>"
      using assms(2) l lt by (simp add: store_def le split: if_splits)
    have c: "kbd_count k' = Suc (kbd_count k) mod BUFFERSIZE"
      using count_next [OF assms(1)] ring_next_unat [OF l(3)] by (simp add: k' kbd_count_def)
    show ?thesis
    proof (cases "kbd_count k = BUFFERSIZE - 1")
      case True
      then have "kbd_count k' = 0" using c by (simp add: BUFFERSIZE_def)
      then show ?thesis using False True by (simp add: kbd_queue_def)
    next
      case nf: False
      then have "Suc (kbd_count k) < BUFFERSIZE" using kbd_count_less [of k] by simp
      then have c': "kbd_count k' = Suc (kbd_count k)" using c by simp
      have "kbd_queue k' = kbd_queue k @ [?v]"
        unfolding kbd_queue_def c' using ring_abs_push [OF l(3) kbd_count_less l(1), where x = ?v] ring_next_unat [OF l(3)]
        by (simp add: k')
      then show ?thesis using False nf by simp
    qed
  qed (use assms(2) in \<open>auto simp: store_def split: if_splits\<close>)
qed

text \<open>An upper bound for the number of bytes that can be read without a new command or key.\<close>

lemma count_pop:
  assumes "kbd_inv k" "pwrite k \<noteq> pread k"
  shows "kbd_count k = Suc (kbd_count (k\<lparr>pread := ring_next (pread k), last_reply := v\<rparr>))"
    "kbd_queue k = buffer k ! unat (pread k) # kbd_queue (k\<lparr>pread := ring_next (pread k), last_reply := v\<rparr>)"
proof -
  let ?k = "k\<lparr>pread := ring_next (pread k), last_reply := v\<rparr>"
  have b: "unat (pread k) < 18" "unat (pwrite k) < 18" using assms(1) by (simp_all add: kbd_inv_def BUFFERSIZE_def)
  have ne: "unat (pwrite k) \<noteq> unat (pread k)" using assms(2) by (simp add: word_unat_eq_iff)
  have rn: "unat (ring_next (pread k)) = Suc (unat (pread k)) mod 18" using ring_next_unat [of "pread k"] b by (simp add: BUFFERSIZE_def)
  have c: "kbd_count k = Suc (kbd_count ?k) \<and> (unat (pwrite k) + 18 - kbd_count k) mod 18 = unat (pread k)"
  proof (cases "unat (pwrite k) < unat (pread k)")
    case True
    then have k: "kbd_count k = unat (pwrite k) + 18 - unat (pread k)" using b by (simp add: kbd_count_def BUFFERSIZE_def)
    show ?thesis
    proof (cases "unat (pread k) = 17")
      case t: True
      then show ?thesis using k True b by (simp add: kbd_count_def BUFFERSIZE_def rn)
    next
      case False
      then have "unat (ring_next (pread k)) = Suc (unat (pread k))" using rn b by simp
      then show ?thesis using k True b False by (simp add: kbd_count_def BUFFERSIZE_def)
    qed
  next
    case False
    have m: "(w + 18 - r) mod 18 = w - r" if "r \<le> w" "w < 18" for w r :: nat
    proof -
      have "w + 18 - r = (w - r) + 18" using that by simp
      then show ?thesis using that by (simp only: mod_add_self2) simp
    qed
    have "unat (ring_next (pread k)) = Suc (unat (pread k))" using rn b False ne by simp
    then have "kbd_count k = unat (pwrite k) - unat (pread k)" "kbd_count ?k = unat (pwrite k) - Suc (unat (pread k))"
      using m [of "unat (pread k)" "unat (pwrite k)"] m [of "Suc (unat (pread k))" "unat (pwrite k)"] False ne b
      by (simp_all add: kbd_count_def BUFFERSIZE_def)
    then show ?thesis using False ne b by simp
  qed
  then show s: "kbd_count k = Suc (kbd_count ?k)" by blast
  have "kbd_count ?k < BUFFERSIZE" by (rule kbd_count_less)
  note p = ring_abs_pop [OF this, of "unat (pwrite k)" "buffer k"]
  show "kbd_queue k = buffer k ! unat (pread k) # kbd_queue ?k"
    using p c s b unfolding kbd_queue_def by (simp add: BUFFERSIZE_def)
qed

lemma kbd_read_pending:
  assumes "kbd_inv k" "kbd_read_key k = Inr (True, v, k')"
  shows "kbd_pending k' < kbd_pending k"
proof -
  have f: "flag (k_mode k) MODE_RESET \<Longrightarrow> response k = 0xfa" using assms(1) by (simp add: kbd_inv_def)
  have fl: "\<not> flag (k_mode k AND NOT MODE_RESEND) MODE_RESEND" by (simp add: flag_def and.assoc)
  consider "flag (k_mode k) MODE_RESEND" | "\<not> flag (k_mode k) MODE_RESEND" "response k \<noteq> 0" "flag (k_mode k) MODE_RESET"
    | "\<not> flag (k_mode k) MODE_RESEND" "response k \<noteq> 0" "\<not> flag (k_mode k) MODE_RESET"
    | "\<not> flag (k_mode k) MODE_RESEND" "response k = 0" by blast
  then show ?thesis
  proof cases
    case 1
    then show ?thesis using assms(2) fl by (auto simp: kbd_read_key_def kbd_pending_def mode_flags kbd_count_def)
  next
    case 2
    then have "k' = (kbd_reset k)\<lparr>response := 0xaa, k_mode := k_mode (kbd_reset k) AND NOT MODE_RESET, last_reply := 0xfa\<rparr>"
      using assms(2) f by (simp add: kbd_read_key_def Let_def kbd_reset_def)
    then have "kbd_pending k' = 0xaa" by (simp add: kbd_pending_def kbd_reset_def flag_def kbd_count_def BUFFERSIZE_def)
    then show ?thesis using 2 by (simp add: kbd_pending_def)
  next
    case 3
    then have "k' = k\<lparr>response := drop_bit 8 (response k), last_reply := v\<rparr>"
      using assms(2) by (auto simp: kbd_read_key_def Let_def)
    then show ?thesis using unat_drop_bit_less [OF 3(2), of 8] by (simp add: kbd_pending_def kbd_count_def)
  next
    case 4
    then have "k' = k\<lparr>pread := ring_next (pread k), last_reply := v\<rparr>" "pwrite k \<noteq> pread k"
      using assms(2) by (auto simp: kbd_read_key_def Let_def split: if_splits)
    then show ?thesis using count_pop(1) [OF assms(1), of v] by (simp add: kbd_pending_def)
  qed
qed

lemma input_set3_fails:
  assumes "kbd_inv k" "input_set3 data k = Inl e"
  shows "translate_sc2_to_sc3 data = Inl e"
proof (rule ccontr)
  assume n: "translate_sc2_to_sc3 data \<noteq> Inl e"
  then obtain key where key: "translate_sc2_to_sc3 data = Inr key"
    using assms(2) by (cases "translate_sc2_to_sc3 data") (auto simp: input_set3_def)
  have "good_op (\<lambda>k. if key = 0x62 then enqueue key k else Inr k)" by (intro good_op_if enqueue_good good_op_Inr)
  then obtain k1 where k1: "(if key = 0x62 then enqueue key k else Inr k) = Inr k1" "kbd_inv k1"
    using assms(1) by (auto elim: good_opE)
  obtain k2 where k2: "enqueue 0xf0 k1 = Inr k2" "kbd_inv k2"
    using good_opE [OF enqueue_good k1(2)] by blast
  obtain k3 where k3: "enqueue key k2 = Inr k3" using good_opE [OF enqueue_good k2(2)] by blast
  obtain k4 where k4: "enqueue key k1 = Inr k4" using good_opE [OF enqueue_good k1(2)] by blast
  have "unat (drop_bit 3 key) < length (no_breakcode k1)" using byte_index k1(2) by (simp add: kbd_inv_def)
  then show False using assms(2) key k1(1) k2(1) k3 k4 unfolding input_set3_def by (simp split: if_splits)
qed

text \<open>Claim C33. The keyboard never fails on its PS/2 port: in a reachable state every message there is
  handled, no buffer access is out of bounds and the assertion of the reset sequence holds.
  A key of the host is handled too, unless scancode set 3 is selected (or no set yet) and the
  translation to that set leaves its table.\<close>

theorem kbd_never_fails:
  assumes "kbd_reach k"
  shows "(\<exists>r. kbd_receive_ps2 p t v k = Inr r)
    \<and> (kbd_receive_input d c k = Inl e \<longrightarrow> scset k \<notin> {1, 2} \<and> translate_sc2_to_sc3 c = Inl e)"
proof
  have i: "kbd_inv k" using assms by (rule kbd_reach_inv)
  show "\<exists>r. kbd_receive_ps2 p t v k = Inr r" using kbd_ps2_ok [OF i] by blast
  show "kbd_receive_input d c k = Inl e \<longrightarrow> scset k \<notin> {1, 2} \<and> translate_sc2_to_sc3 c = Inl e"
  proof
    assume f: "kbd_receive_input d c k = Inl e"
    obtain k1 where k1: "input_set12 c k = Inr k1" using good_opE [OF input_set12_good i] by blast
    have "\<not> (scset k = 2 \<or> scset k = 1)" using f k1 by (auto simp: kbd_receive_input_def split: if_splits)
    moreover from this have "input_set3 c k = Inl e"
      using f by (auto simp: kbd_receive_input_def bindR_eq_Inl split: if_splits)
    ultimately show "scset k \<notin> {1, 2} \<and> translate_sc2_to_sc3 c = Inl e" using input_set3_fails [OF i] by simp
  qed
qed

theorem kbd_never_fails_witness:
  "kbd_reach (kbd_init 0 0x17) \<and> (\<exists>r. kbd_receive_ps2 0 READ_KEY 0 (kbd_init 0 0x17) = Inr r)
    \<and> kbd_receive_input 0x17 0x214 (kbd_init 0 0x17) = Inl Undefined \<and> translate_sc2_to_sc3 0x214 = Inl Undefined"
proof -
  have "kbd_receive_input 0x17 0x214 (kbd_init 0 0x17) = Inl Undefined" by code_simp
  then show ?thesis using kbd_never_fails [OF reach_init [of 0 "0x17"]] reach_init by blast
qed

text \<open>What the key buffer does with a byte, outside scancode set 1. While the writer has not wrapped
  around, bytes are appended until 16 are stored; the next one is replaced by the overrun code 0,
  and all further ones are dropped. After the wrap-around the level is computed wrongly: the
  overrun code is already stored behind 12 bytes, and a byte for a buffer that holds 17
  bytes is accepted, which makes the buffer empty.\<close>

lemma kbd_enqueue_exact:
  assumes "kbd_reach k" "scset k \<noteq> 1"
  shows "\<exists>k'. enqueue v k = Inr k' \<and> kbd_queue k' =
    (let q = kbd_queue k; n = length q in
     if pread k \<le> pwrite k
     then if n < 16 then q @ [v] else if n = 16 then q @ [0] else q
     else if n = 12 then q @ [0] else if n = 13 then q else if n = 17 then [] else q @ [v])"
proof -
  have i: "kbd_inv k" using assms(1) by (rule kbd_reach_inv)
  obtain k' where k': "enqueue v k = Inr k'" using good_opE [OF enqueue_good i] by blast
  then have st: "store v k = Inr k'" using assms(2) by (simp add: enqueue_def)
  have c: "kbd_count k < 18" using kbd_count_less [of k] by (simp add: BUFFERSIZE_def)
  note q = store_queue [OF i st]
  show ?thesis
  proof (cases "pread k \<le> pwrite k")
    case True
    then have f: "fill_level k = kbd_count k" using fill_level_eq [OF i] by (simp add: word_le_nat_alt)
    have "kbd_queue k' = (if kbd_count k < 16 then kbd_queue k @ [v]
        else if kbd_count k = 16 then kbd_queue k @ [0] else kbd_queue k)"
      using q c unfolding f by (simp add: BUFFERSIZE_def split: if_splits)
    then show ?thesis using k' True by (simp add: Let_def)
  next
    case False
    then have f: "fill_level k = (kbd_count k + 4) mod 18"
      using fill_level_eq [OF i] by (simp add: word_le_nat_alt BUFFERSIZE_def)
    have "(kbd_count k + 4) mod 18 = (if kbd_count k < 14 then kbd_count k + 4 else kbd_count k - 14)"
      using c by (simp add: mod_if)
    then have "kbd_queue k' = (if kbd_count k = 12 then kbd_queue k @ [0] else if kbd_count k = 13 then kbd_queue k
        else if kbd_count k = 17 then [] else kbd_queue k @ [v])"
      using q c unfolding f by (auto simp: BUFFERSIZE_def split: if_splits)
    then show ?thesis using k' False by (simp add: Let_def)
  qed
qed

text \<open>Reading takes the oldest byte of the buffer.\<close>

lemma kbd_read_queue:
  assumes "kbd_inv k" "\<not> flag (k_mode k) MODE_RESEND" "response k = 0"
  shows "kbd_queue k = [] \<Longrightarrow> \<exists>v. kbd_read_key k = Inr (False, v, k)"
    "kbd_queue k = v # q \<Longrightarrow> \<exists>k'. kbd_read_key k = Inr (True, v, k') \<and> kbd_queue k' = q \<and> kbd_inv k'
       \<and> k_mode k' = k_mode k \<and> response k' = 0 \<and> k_ps2port k' = k_ps2port k"
proof -
  have l: "unat (pread k) < length (buffer k)" using assms(1) by (simp add: kbd_inv_def)
  have ne: "kbd_queue k \<noteq> []" if "pwrite k \<noteq> pread k"
    using count_pop(2) [OF assms(1) that, of 0] by simp
  have e: "kbd_queue k = []" if "pwrite k = pread k"
    using that by (simp add: kbd_queue_def kbd_count_def)
  show "\<exists>v. kbd_read_key k = Inr (False, v, k)" if "kbd_queue k = []"
  proof -
    have "pwrite k = pread k" using ne that by blast
    then show ?thesis using assms l by (simp add: kbd_read_key_def Let_def)
  qed
  assume q: "kbd_queue k = v # q"
  then have d: "pwrite k \<noteq> pread k" using e by auto
  let ?v = "buffer k ! unat (pread k)"
  let ?k = "k\<lparr>pread := ring_next (pread k), last_reply := ?v\<rparr>"
  have "v = ?v" "q = kbd_queue ?k" using count_pop(2) [OF assms(1) d, of ?v] q by simp_all
  moreover have "kbd_read_key k = Inr (True, ?v, ?k)" using assms d l by (simp add: kbd_read_key_def Let_def)
  moreover have "kbd_inv ?k" using assms(1) ring_next_less by (simp add: kbd_inv_def)
  ultimately show "\<exists>k'. kbd_read_key k = Inr (True, v, k') \<and> kbd_queue k' = q \<and> kbd_inv k'
       \<and> k_mode k' = k_mode k \<and> response k' = 0 \<and> k_ps2port k' = k_ps2port k"
    using assms(3) by auto
qed

text \<open>A plain key in scancode set 2: one byte, behind the break prefix when the key is released.\<close>

lemma store_append:
  assumes "kbd_inv k" "kbd_count k < 12"
  obtains k' where "store v k = Inr k'" "kbd_inv k'" "same_cfg k k'" "kbd_queue k' = kbd_queue k @ [v]" "k_mode k' = k_mode k"
proof -
  obtain k' where k': "store v k = Inr k'" "kbd_inv k'" "same_cfg k k'" by (rule good_opE [OF store_good assms(1)])
  have "fill_level k \<noteq> BUFFERSIZE - 1" "fill_level k \<noteq> BUFFERSIZE - 2"
    using fill_level_eq [OF assms(1)] assms(2) by (auto simp: BUFFERSIZE_def)
  then have "kbd_queue k' = kbd_queue k @ [v]"
    using store_queue [OF assms(1) k'(1)] assms(2) by (simp add: BUFFERSIZE_def)
  moreover have "k_mode k' = k_mode k" using k'(1) by (auto simp: store_def split: if_splits)
  ultimately show thesis using that k' by blast
qed

lemma plain_key_queued:
  assumes k: "kbd_inv k" "k_mode k = 0" "scset k = 2" "kbd_queue k = []"
    and d: "\<not> flag data EXTEND0" "\<not> flag data EXTEND1"
  obtains k' where "kbd_receive_input (hostkeyboard k) data k = Inr (True, k', True)" "kbd_inv k'" "k_mode k' = 0"
    "same_cfg k k'" "kbd_queue k' = (if flag data RELEASE then [0xf0, ucast data] else [ucast data])"
proof -
  have c: "kbd_count k = 0" using k(4) kbd_queue_length [of k] by simp
  have pp: "pwrite k = pread k"
  proof (rule ccontr)
    assume "pwrite k \<noteq> pread k"
    from count_pop(1) [OF k(1) this] show False using c by simp
  qed
  have h: "handle_shift_modifiers data k = Inr k" for k using d by (simp add: handle_shift_modifiers_def)
  have m0: "k\<lparr>k_mode := k_mode k AND NOT MODE_GOT_BREAK\<rparr> = k" using k(2) by simp
  have "\<exists>k'. input_set12 data k = Inr k' \<and> kbd_inv k' \<and> k_mode k' = 0 \<and> same_cfg k k'
      \<and> kbd_queue k' = (if flag data RELEASE then [0xf0, ucast data] else [ucast data])"
  proof (cases "flag data RELEASE")
    case False
    obtain k1 where k1: "store (ucast data) k = Inr k1" "kbd_inv k1" "same_cfg k k1" "kbd_queue k1 = [ucast data]" "k_mode k1 = 0"
      using store_append [OF k(1), of "ucast data"] c k(2,4) by auto
    have "enqueue (ucast data) k = Inr k1" using k1(1) k(3) by (simp add: enqueue_def)
    then have "input_set12 data k = Inr k1" unfolding input_set12_def Let_def m0 using d False by (simp add: h)
    then show ?thesis using k1 False by simp
  next
    case True
    obtain k1 where k1: "store 0xf0 k = Inr k1" "kbd_inv k1" "same_cfg k k1" "kbd_queue k1 = [0xf0]" "k_mode k1 = 0"
      using store_append [OF k(1), of "0xf0"] c k(2,4) by auto
    have c1: "kbd_count k1 < 12" using k1(4) kbd_queue_length [of k1] by simp
    obtain k2 where k2: "store (ucast data) k1 = Inr k2" "kbd_inv k2" "same_cfg k1 k2" "kbd_queue k2 = [0xf0, ucast data]" "k_mode k2 = 0"
      using store_append [OF k1(2) c1, of "ucast data"] k1(4,5) by auto
    have s1: "scset k1 = 2" using k1(3) k(3) by (cases k; cases k1) (simp add: same_cfg_def)
    have "enqueue 0xf0 k = Inr k1" "enqueue (ucast data) k1 = Inr k2" using k1(1) k2(1) k(3) s1 by (simp_all add: enqueue_def)
    moreover have "handle_shift_modifiers data k2 = Inr k2" by (rule h)
    ultimately have "input_set12 data k = Inr k2" unfolding input_set12_def Let_def m0 using d True by (simp add: h)
    then show ?thesis using k1 k2 True same_cfg_trans by auto
  qed
  then obtain k' where k': "input_set12 data k = Inr k'" "kbd_inv k'" "k_mode k' = 0" "same_cfg k k'"
    "kbd_queue k' = (if flag data RELEASE then [0xf0, ucast data] else [ucast data])" by blast
  have "pread k' = pread k" using k'(4) by (cases k; cases k') (simp add: same_cfg_def)
  then have "kbd_receive_input (hostkeyboard k) data k = Inr (True, k', True)"
    using k'(1) k pp by (simp add: kbd_receive_input_def flag_def)
  then show thesis using that k' by blast
qed

end
