(* ===== verification/KeyboardController.thy ===== *)
theory KeyboardController
  imports Ps2Keyboard Ps2Mouse
begin

text \<open>
  The PS/2 keyboard controller of \<^verbatim>\<open>apps/vancouver/model/keyboardcontroller.cc\<close>, and its composition
  with the keyboard and the mouse. The devices behind the PS/2 bus are an argument of the
  controller's operations; a device answers a command with a flag for the notification that
  it sends to the controller while the command is still being sent. A handler that does not return
  has the value \<^term>\<open>None\<close>. A reset message on the legacy bus is an output; the controller does nothing
  after it that the reset would not undo.
\<close>

section \<open>Definitions\<close>

record kbc =
  kb_base :: u16
  irqkbd :: u32
  irqaux :: u32
  ps2ports :: u32
  ram :: "u8 list"

datatype kbc_msg = KbcIrq irq_type u32 | KbcLegacy legacy_type u32

definition RAM_CMDBYTE :: nat where "RAM_CMDBYTE = 0x00"
definition RAM_STATUS :: nat where "RAM_STATUS = 0x01"
definition RAM_OBF :: nat where "RAM_OBF = 0x02"
definition RAM_LASTCMD :: nat where "RAM_LASTCMD = 0x03"
definition RAM_GOT_RELEASE :: nat where "RAM_GOT_RELEASE = 0x04"
definition RAM_OUTPORT :: nat where "RAM_OUTPORT = 0x05"
definition RAM_PWD_COUNT :: nat where "RAM_PWD_COUNT = 0x06"
definition RAM_PWD_CMP :: nat where "RAM_PWD_CMP = 0x07"
definition RAM_PWD_FIRST :: nat where "RAM_PWD_FIRST = 0x08"
definition RAM_PWD_LAST :: nat where "RAM_PWD_LAST = 0x0e"
definition RAM_SECON :: nat where "RAM_SECON = 0x13"
definition RAM_SECOFF :: nat where "RAM_SECOFF = 0x14"
definition RAM_MAKE1 :: nat where "RAM_MAKE1 = 0x16"
definition RAM_MAKE2 :: nat where "RAM_MAKE2 = 0x17"
definition RAM_LOCK :: nat where "RAM_LOCK = 0x18"

definition STATUS_OBF :: u8 where "STATUS_OBF = 0x01"
definition STATUS_SYS :: u8 where "STATUS_SYS = 0x04"
definition STATUS_CMD :: u8 where "STATUS_CMD = 0x08"
definition STATUS_NO_INHB :: u8 where "STATUS_NO_INHB = 0x10"
definition STATUS_AUX :: u8 where "STATUS_AUX = 0x20"
definition STATUS_AUXOBF :: u8 where "STATUS_AUXOBF = STATUS_AUX OR STATUS_OBF"
definition CMD_IRQKBD :: u8 where "CMD_IRQKBD = 0x01"
definition CMD_IRQAUX :: u8 where "CMD_IRQAUX = 0x02"
definition CMD_SYS :: u8 where "CMD_SYS = STATUS_SYS"
definition CMD_DISKBD :: u8 where "CMD_DISKBD = 0x10"
definition CMD_DISAUX :: u8 where "CMD_DISAUX = 0x20"
definition CMD_TRANSLATE :: u8 where "CMD_TRANSLATE = 0x40"
definition OUTPORT_RESET :: u8 where "OUTPORT_RESET = 0x01"
definition OUTPORT_A20 :: u8 where "OUTPORT_A20 = 0x02"
definition OUTPORT_IRQKBD :: u8 where "OUTPORT_IRQKBD = 0x10"
definition OUTPORT_IRQAUX :: u8 where "OUTPORT_IRQAUX = 0x20"

definition rget :: "kbc \<Rightarrow> nat \<Rightarrow> u8" where
  "rget k i = ram k ! i"

definition rput :: "nat \<Rightarrow> u8 \<Rightarrow> kbc \<Rightarrow> kbc" where
  "rput i v k = k\<lparr>ram := (ram k)[i := v]\<rparr>"

definition translate_keycodes :: "u8 \<Rightarrow> kbc \<Rightarrow> u8 \<times> kbc" where
  "translate_keycodes v k =
     (if flag (rget k RAM_CMDBYTE) CMD_TRANSLATE then
        if v = 0xf0 then (v, rput RAM_GOT_RELEASE 1 k)
        else let v = translate_sc2_to_sc1 v
             in (if rget k RAM_GOT_RELEASE \<noteq> 0 then v OR 0x80 else v, rput RAM_GOT_RELEASE 0 k)
      else (v, rput RAM_GOT_RELEASE 0 k))"

text \<open>The password check: whether the byte is swallowed, and the byte to deliver. The index into
  the password is not checked.\<close>

definition check_pwd :: "u8 \<Rightarrow> bool \<Rightarrow> kbc \<Rightarrow> (bool \<times> u8 \<times> kbc) res" where
  "check_pwd v from_aux k =
     (if flag (NOT (rget k RAM_STATUS)) STATUS_NO_INHB then
        if v \<ge> 0x80 \<or> v = rget k RAM_MAKE1 \<or> v = rget k RAM_MAKE2 \<or> from_aux then Inr (True, v, k)
        else if RAM_PWD_FIRST + unat (rget k RAM_PWD_CMP) < length (ram k) then
          let k = rput RAM_PWD_CMP (if v = rget k (RAM_PWD_FIRST + unat (rget k RAM_PWD_CMP))
                                    then rget k RAM_PWD_CMP + 1 else 0) k;
              c = unat (rget k RAM_PWD_CMP)
          in if c > RAM_PWD_LAST - RAM_PWD_FIRST \<or> rget k (RAM_PWD_FIRST + c) = 0
             then let k = rput RAM_STATUS (rget k RAM_STATUS OR STATUS_NO_INHB) k
                  in if rget k RAM_SECOFF = 0 then Inr (False, rget k RAM_SECOFF, k) else Inr (True, v, k)
             else Inr (True, v, k)
        else Inl Undefined
      else Inr (False, v, k))"

definition got_data :: "u8 \<Rightarrow> bool \<Rightarrow> kbc \<Rightarrow> (kbc \<times> kbc_msg list) res" where
  "got_data v from_aux k =
     bindR (check_pwd v from_aux k) (\<lambda>(swallow, v, k).
     if swallow then Inr (k, [])
     else let k = rput RAM_OBF v k;
              k = rput RAM_STATUS ((rget k RAM_STATUS AND NOT STATUS_AUXOBF)
                     OR (if from_aux then STATUS_AUXOBF else STATUS_OBF)) k
       in if rget k RAM_STATUS AND STATUS_AUXOBF = STATUS_AUXOBF \<and> flag (rget k RAM_CMDBYTE) CMD_IRQAUX
          then Inr (rput RAM_OUTPORT (rget k RAM_OUTPORT OR OUTPORT_IRQAUX) k, [KbcIrq ASSERT_IRQ (irqaux k)])
          else if rget k RAM_STATUS AND STATUS_AUXOBF = STATUS_OBF \<and> flag (rget k RAM_CMDBYTE) CMD_IRQKBD
          then Inr (rput RAM_OUTPORT (rget k RAM_OUTPORT OR OUTPORT_IRQKBD) k, [KbcIrq ASSERT_IRQ (irqkbd k)])
          else Inr (k, []))"

text \<open>The PS/2 bus as the controller sees it: a read of a key (whether a device answered, the
  value, the devices) and a command (the devices, and whether the one at that port notifies). Ports
  in messages are cut to eight bits.\<close>

record 'd ps2_bus =
  ps2_read :: "u32 \<Rightarrow> 'd \<Rightarrow> (bool \<times> u8 \<times> 'd) res"
  ps2_command :: "u32 \<Rightarrow> u8 \<Rightarrow> 'd \<Rightarrow> ('d \<times> bool) res"

record 'd kbsys =
  sys_kbc :: kbc
  sys_dev :: 'd
  sys_out :: "kbc_msg list"

definition ps2_port :: "u32 \<Rightarrow> u32" where
  "ps2_port p = ucast (ucast p :: u8)"

definition sys_got_data :: "u8 \<Rightarrow> bool \<Rightarrow> 'd kbsys \<Rightarrow> 'd kbsys res" where
  "sys_got_data v from_aux s =
     bindR (got_data v from_aux (sys_kbc s)) (\<lambda>(k, ms). Inr (s\<lparr>sys_kbc := k, sys_out := sys_out s @ ms\<rparr>))"

text \<open>One turn of the loop of \<^verbatim>\<open>read_from_device\<close>: whether it goes on.\<close>

definition read_turn :: "'d ps2_bus \<Rightarrow> u8 \<Rightarrow> 'd kbsys \<Rightarrow> (bool \<times> 'd kbsys) res" where
  "read_turn bus port s =
     bindR (ps2_read bus (ucast port) (sys_dev s)) (\<lambda>(found, v, d).
     let s = s\<lparr>sys_dev := d\<rparr>; kbdport = (ucast port = ps2ports (sys_kbc s)) in
     if \<not> found then Inr (False, s)
     else if kbdport then
       case translate_keycodes v (sys_kbc s) of (v, k) \<Rightarrow>
         let s = s\<lparr>sys_kbc := k\<rparr>
         in if rget k RAM_GOT_RELEASE \<noteq> 0 then Inr (True, s)
            else bindR (sys_got_data v False s) (\<lambda>s. Inr (True, s))
     else bindR (sys_got_data v True s) (\<lambda>s. Inr (True, s)))"

partial_function (option) read_from_device :: "'d ps2_bus \<Rightarrow> u8 \<Rightarrow> 'd kbsys \<Rightarrow> 'd kbsys res option" where
  "read_from_device bus port s =
     (if flag (NOT (rget (sys_kbc s) RAM_STATUS)) STATUS_OBF then
        (case read_turn bus port s of
           Inl e \<Rightarrow> Some (Inl e)
         | Inr (go, s') \<Rightarrow> if go then read_from_device bus port s' else Some (Inr s'))
      else Some (Inr s))"

text \<open>Sequencing of computations that may fail and may not return.\<close>

definition bindO :: "'a res option \<Rightarrow> ('a \<Rightarrow> 'b res option) \<Rightarrow> 'b res option" where
  "bindO m f = (case m of None \<Rightarrow> None | Some (Inl e) \<Rightarrow> Some (Inl e) | Some (Inr a) \<Rightarrow> f a)"

definition on_kbc :: "(kbc \<Rightarrow> kbc) \<Rightarrow> 'd kbsys \<Rightarrow> 'd kbsys" where
  "on_kbc f s = s\<lparr>sys_kbc := f (sys_kbc s)\<rparr>"

definition read_all_devices :: "'d ps2_bus \<Rightarrow> 'd kbsys \<Rightarrow> 'd kbsys res option" where
  "read_all_devices bus s =
     (if rget (sys_kbc s) RAM_LOCK \<noteq> 0 then Some (Inr s)
      else bindO (let s = on_kbc (rput RAM_LOCK 1) s in
                  if flag (NOT (rget (sys_kbc s) RAM_CMDBYTE)) CMD_DISAUX
                  then read_from_device bus (ucast (ps2ports (sys_kbc s) + 1)) s else Some (Inr s)) (\<lambda>s.
           bindO (if flag (NOT (rget (sys_kbc s) RAM_CMDBYTE)) CMD_DISKBD
                  then read_from_device bus (ucast (ps2ports (sys_kbc s))) s else Some (Inr s)) (\<lambda>s.
           Some (Inr (on_kbc (rput RAM_LOCK 0) s)))))"

text \<open>A notification from the PS/2 bus.\<close>

definition kbc_receive_ps2 :: "'d ps2_bus \<Rightarrow> u32 \<Rightarrow> ps2_type \<Rightarrow> 'd kbsys \<Rightarrow> (bool \<times> 'd kbsys) res option" where
  "kbc_receive_ps2 bus port t s =
     (if \<not> bus_in_range (ucast port) (ucast (ps2ports (sys_kbc s))) 2 \<or> t \<noteq> NOTIFY then Some (Inr (False, s))
      else bindO (read_all_devices bus s) (\<lambda>s. Some (Inr (True, s))))"

text \<open>A command to a device: if the device notifies, the controller handles that first.\<close>

definition kbc_send_command :: "'d ps2_bus \<Rightarrow> u32 \<Rightarrow> u8 \<Rightarrow> 'd kbsys \<Rightarrow> 'd kbsys res option" where
  "kbc_send_command bus port v s =
     (case ps2_command bus (ps2_port port) v (sys_dev s) of
        Inl e \<Rightarrow> Some (Inl e)
      | Inr (d, notify) \<Rightarrow>
          let s = s\<lparr>sys_dev := d\<rparr>
          in if notify then bindO (kbc_receive_ps2 bus (ps2_port port) NOTIFY s) (\<lambda>(_, s). Some (Inr s)) else Some (Inr s))"

definition legacy_write :: "legacy_type \<Rightarrow> u32 \<Rightarrow> 'd kbsys \<Rightarrow> 'd kbsys" where
  "legacy_write t v s = s\<lparr>sys_out := sys_out s @ [KbcLegacy t v]\<rparr>"

definition write_a20 :: "'d kbsys \<Rightarrow> 'd kbsys" where
  "write_a20 s = legacy_write GATE_A20 (if flag (rget (sys_kbc s) RAM_OUTPORT) OUTPORT_A20 then 1 else 0) s"

definition kbc_receive_in :: "'d ps2_bus \<Rightarrow> io_in \<Rightarrow> 'd kbsys \<Rightarrow> (io_in option \<times> 'd kbsys) res option" where
  "kbc_receive_in bus m s =
     (let k = sys_kbc s in
      if in_type m \<noteq> TYPE_B then Some (Inr (None, s))
      else if in_port m = kb_base k then
        let v = rget k RAM_OBF;
            k = rput RAM_STATUS (rget k RAM_STATUS AND NOT STATUS_AUXOBF) k;
            k = rput RAM_OUTPORT (rget k RAM_OUTPORT AND NOT (OUTPORT_IRQAUX OR OUTPORT_IRQKBD)) k
        in bindO (read_all_devices bus (s\<lparr>sys_kbc := k\<rparr>)) (\<lambda>s. Some (Inr (Some (m\<lparr>in_value := ucast v\<rparr>), s)))
      else if unat (in_port m) = unat (kb_base k) + 4 then
        Some (Inr (Some (m\<lparr>in_value := ucast ((rget k RAM_STATUS AND NOT STATUS_SYS) OR (rget k RAM_CMDBYTE AND CMD_SYS))\<rparr>), s))
      else Some (Inr (None, s)))"

text \<open>The data byte of a controller command: whether it was handled.\<close>

definition kbc_data_command :: "'d ps2_bus \<Rightarrow> u32 \<Rightarrow> 'd kbsys \<Rightarrow> (bool \<times> 'd kbsys) res option" where
  "kbc_data_command bus w s =
     (let k = sys_kbc s; c = rget k RAM_LASTCMD; v = ucast w :: u8;
          fin = (\<lambda>r. bindO r (\<lambda>s. Some (Inr (True, s)))) in
      if 0x60 \<le> c \<and> c \<le> 0x7f then fin (Some (Inr (on_kbc (rput (unat c - 0x60) v) s)))
      else if c = 0xa5 then
        fin (Some (Inr (if unat (rget k RAM_PWD_COUNT) + RAM_PWD_FIRST \<le> RAM_PWD_LAST
             then let k = rput (unat (rget k RAM_PWD_COUNT) + RAM_PWD_FIRST) v k;
                      k = rput RAM_PWD_COUNT (rget k RAM_PWD_COUNT + 1) k
                  in s\<lparr>sys_kbc := (if w = 0 then rput RAM_PWD_COUNT (of_nat (RAM_PWD_LAST + 1)) k else k)\<rparr>
             else s)))
      else if c = 0xd1 then
        let s = write_a20 (on_kbc (rput RAM_OUTPORT v) s)
        in fin (Some (Inr (if flag (NOT (rget (sys_kbc s) RAM_OUTPORT)) OUTPORT_RESET then legacy_write RESET 0 s else s)))
      else if c = 0xd2 then
        (case translate_keycodes v k of (v, k) \<Rightarrow> fin (Some (sys_got_data v False (s\<lparr>sys_kbc := k\<rparr>))))
      else if c = 0xd3 then fin (Some (sys_got_data v True s))
      else if c = 0xd4 then fin (kbc_send_command bus (ps2ports k + 1) v s)
      else if c = 0xdd then fin (Some (Inr (write_a20 (on_kbc (rput RAM_OUTPORT (rget k RAM_OUTPORT AND NOT OUTPORT_A20)) s))))
      else if c = 0xdf then fin (Some (Inr (write_a20 (on_kbc (rput RAM_OUTPORT (rget k RAM_OUTPORT OR OUTPORT_A20)) s))))
      else Some (Inr (False, s)))"

definition kbc_write_data :: "'d ps2_bus \<Rightarrow> u32 \<Rightarrow> 'd kbsys \<Rightarrow> 'd kbsys res option" where
  "kbc_write_data bus w s =
     (if flag (NOT (rget (sys_kbc s) RAM_STATUS)) STATUS_NO_INHB then Some (Inr s)
      else bindO (if flag (rget (sys_kbc s) RAM_STATUS) STATUS_CMD then kbc_data_command bus w s
                  else Some (Inr (False, s))) (\<lambda>(handled, s).
        let s = on_kbc (\<lambda>k. rput RAM_STATUS (rget k RAM_STATUS AND NOT STATUS_CMD) k) s
        in if handled then Some (Inr s) else kbc_send_command bus (ps2ports (sys_kbc s)) (ucast w) s))"

definition enable_pwd :: "'d kbsys \<Rightarrow> 'd kbsys" where
  "enable_pwd s =
     (let s = on_kbc (\<lambda>k. rput RAM_PWD_CMP 0 (rput RAM_STATUS (rget k RAM_STATUS AND NOT STATUS_NO_INHB) k)) s;
          k = sys_kbc s
      in if rget k RAM_SECON \<noteq> 0 then
           let k = rput RAM_OBF (rget k RAM_SECON) k;
               k = rput RAM_STATUS ((rget k RAM_STATUS AND NOT STATUS_AUXOBF) OR STATUS_OBF) k
           in s\<lparr>sys_kbc := k, sys_out := sys_out s
                @ (if flag (rget k RAM_CMDBYTE) CMD_IRQKBD then [KbcIrq ASSERT_IRQ (irqkbd k)] else [])\<rparr>
         else s)"

definition kbc_write_command :: "u32 \<Rightarrow> 'd kbsys \<Rightarrow> 'd kbsys res" where
  "kbc_write_command w s =
     (if flag (NOT (rget (sys_kbc s) RAM_STATUS)) STATUS_NO_INHB then Inr s
      else
        let s = on_kbc (\<lambda>k. let k = rput RAM_LASTCMD (ucast w) k
                             in rput RAM_STATUS (rget k RAM_STATUS OR STATUS_CMD) k) s;
            k = sys_kbc s; c = rget k RAM_LASTCMD;
            cmdbyte = (\<lambda>v. Inr (on_kbc (rput RAM_CMDBYTE v) s))
        in if 0x20 \<le> c \<and> c \<le> 0x3f then sys_got_data (rget k (unat c - 0x20)) False s
           else if c = 0xa4 then sys_got_data (if rget k RAM_PWD_COUNT \<noteq> 0 then 0xfa else 0xf1) False s
           else if c = 0xa5 then Inr s
           else if c = 0xa6 then Inr (enable_pwd s)
           else if c = 0xa7 then cmdbyte (rget k RAM_CMDBYTE OR CMD_DISAUX)
           else if c = 0xa8 then cmdbyte (rget k RAM_CMDBYTE AND NOT CMD_DISAUX)
           else if c = 0xa9 then sys_got_data 0 False s
           else if c = 0xaa then sys_got_data 0x55 False s
           else if c = 0xab then sys_got_data 0 False s
           else if c = 0xad then cmdbyte (rget k RAM_CMDBYTE OR CMD_DISKBD)
           else if c = 0xae then cmdbyte (rget k RAM_CMDBYTE AND NOT CMD_DISKBD)
           else if c = 0xc0 then sys_got_data 0 False s
           else if c = 0xd0 then sys_got_data (rget k RAM_OUTPORT) False s
           else if c = 0xe0 then sys_got_data 0 False s
           else if 0xf0 \<le> c then Inr (if flag (NOT w) 1 then legacy_write RESET 0 s else s)
           else Inr s)"

definition kbc_receive_out :: "'d ps2_bus \<Rightarrow> io_out \<Rightarrow> 'd kbsys \<Rightarrow> (bool \<times> 'd kbsys) res option" where
  "kbc_receive_out bus m s =
     (let k = sys_kbc s; fin = (\<lambda>r. bindO r (\<lambda>s. Some (Inr (True, s)))) in
      if out_type m \<noteq> TYPE_B then Some (Inr (False, s))
      else if out_port m = kb_base k then fin (kbc_write_data bus (out_value m) s)
      else if unat (out_port m) = unat (kb_base k) + 4 then fin (Some (kbc_write_command (out_value m) s))
      else Some (Inr (False, s)))"

definition kbc_receive_legacy :: "legacy_type \<Rightarrow> kbc \<Rightarrow> kbc" where
  "kbc_receive_legacy t k =
     (if t = RESET
      then rput RAM_OUTPORT (OUTPORT_RESET OR OUTPORT_A20)
             (rput RAM_STATUS STATUS_NO_INHB (rput RAM_CMDBYTE (CMD_IRQKBD OR CMD_TRANSLATE) (k\<lparr>ram := replicate 32 0\<rparr>)))
      else k)"

definition kbc_init :: "u16 \<Rightarrow> u32 \<Rightarrow> u32 \<Rightarrow> u32 \<Rightarrow> kbc" where
  "kbc_init base ikbd iaux ports =
     \<lparr>kb_base = base, irqkbd = ikbd, irqaux = iaux, ps2ports = ports, ram = replicate 32 0\<rparr>"

text \<open>The bus with a keyboard and a mouse: a message goes to both, which look at its port.\<close>

definition kbd_mouse_bus :: "(kbd \<times> mouse) ps2_bus" where
  "kbd_mouse_bus = \<lparr>
     ps2_read = (\<lambda>port (k, m).
       bindR (kbd_receive_ps2 port READ_KEY 0 k) (\<lambda>(b, v, k, _).
       bindR (mouse_receive_ps2 port READ_KEY v m) (\<lambda>(b', v, m, _). Inr (b \<or> b', v, (k, m))))),
     ps2_command = (\<lambda>port v (k, m).
       bindR (kbd_receive_ps2 port SEND_COMMAND v k) (\<lambda>(_, v, k, n).
       bindR (mouse_receive_ps2 port SEND_COMMAND v m) (\<lambda>(_, v, m, n'). Inr ((k, m), n \<or> n'))))\<rparr>"

section \<open>Lemmas\<close>

definition returns :: "('a \<Rightarrow> bool) \<Rightarrow> 'a res option \<Rightarrow> bool" where
  "returns P r \<longleftrightarrow> (\<exists>x. r = Some x \<and> (\<forall>a. x = Inr a \<longrightarrow> P a))"

definition pair_inv :: "kbd \<times> mouse \<Rightarrow> bool" where
  "pair_inv d \<longleftrightarrow> kbd_inv (fst d) \<and> mouse_inv (snd d)"

definition pair_pending :: "kbd \<times> mouse \<Rightarrow> nat" where
  "pair_pending d = kbd_pending (fst d) + mouse_left (snd d)"

definition kbc_ready :: "kbc \<Rightarrow> bool" where
  "kbc_ready c \<longleftrightarrow> length (ram c) = 32 \<and> ps2ports c = 0 \<and> rget c RAM_LOCK = 0 \<and> rget c RAM_GOT_RELEASE = 0
     \<and> flag (rget c RAM_STATUS) STATUS_NO_INHB \<and> \<not> flag (rget c RAM_STATUS) STATUS_OBF
     \<and> flag (rget c RAM_CMDBYTE) CMD_IRQKBD \<and> flag (rget c RAM_CMDBYTE) CMD_TRANSLATE
     \<and> \<not> flag (rget c RAM_CMDBYTE) CMD_DISKBD"

lemmas kbc_ram = RAM_CMDBYTE_def RAM_STATUS_def RAM_OBF_def RAM_LASTCMD_def RAM_GOT_RELEASE_def RAM_OUTPORT_def
  RAM_PWD_COUNT_def RAM_PWD_CMP_def RAM_PWD_FIRST_def RAM_PWD_LAST_def RAM_SECON_def RAM_SECOFF_def
  RAM_MAKE1_def RAM_MAKE2_def RAM_LOCK_def

lemma rput_simps [simp]:
  "ps2ports (rput i v k) = ps2ports k" "kb_base (rput i v k) = kb_base k"
  "irqkbd (rput i v k) = irqkbd k" "irqaux (rput i v k) = irqaux k" "length (ram (rput i v k)) = length (ram k)"
  by (simp_all add: rput_def)

lemma rget_rput: "i < length (ram k) \<Longrightarrow> rget (rput i v k) j = (if i = j then v else rget k j)"
  by (simp add: rget_def rput_def)

lemma bindO_simps [simp]:
  "bindO None f = None" "bindO (Some (Inl e)) f = Some (Inl e)" "bindO (Some (Inr a)) f = f a"
  by (simp_all add: bindO_def)

text \<open>A computation that returns, with a property of the state on success.\<close>

lemma returns_bind: "returns P m \<Longrightarrow> (\<And>a. P a \<Longrightarrow> returns Q (f a)) \<Longrightarrow> returns Q (bindO m f)"
  by (auto simp: returns_def bindO_def split: sum.split)

lemma returns_Inr [simp]: "returns P (Some (Inr a)) = P a"
  by (simp add: returns_def)

lemma returns_Inl [simp]: "returns P (Some (Inl e))"
  by (simp add: returns_def)

lemma sys_got_data_dev: "sys_got_data v aux s = Inr s' \<Longrightarrow> sys_dev s' = sys_dev s"
  by (auto simp: sys_got_data_def bindR_eq_Inr)

lemma returns_got_data: "P (sys_dev s) \<Longrightarrow> returns (\<lambda>s. P (sys_dev s)) (Some (sys_got_data v aux s))"
  by (auto simp: returns_def dest: sys_got_data_dev)

lemma on_kbc_dev [simp]: "sys_dev (on_kbc f s) = sys_dev s"
  by (simp add: on_kbc_def)

lemma legacy_dev [simp]: "sys_dev (legacy_write t v s) = sys_dev s" "sys_dev (write_a20 s) = sys_dev s"
  by (simp_all add: legacy_write_def write_a20_def)

lemma write_command_dev: "kbc_write_command w s = Inr s' \<Longrightarrow> sys_dev s' = sys_dev s"
  by (auto simp: kbc_write_command_def enable_pwd_def Let_def split: if_splits dest!: sys_got_data_dev)

section \<open>Controllers with well-behaved devices\<close>

text \<open>What the controller relies on: reads and commands do not fail, and a device that is only read runs dry.\<close>

locale ps2_devices =
  fixes bus :: "'d ps2_bus" and dinv :: "'d \<Rightarrow> bool" and pend :: "'d \<Rightarrow> nat"
  assumes read_law: "dinv d \<Longrightarrow> \<exists>b v d'. ps2_read bus port d = Inr (b, v, d') \<and> dinv d' \<and> (b \<longrightarrow> pend d' < pend d)"
    and command_law: "dinv d \<Longrightarrow> \<exists>d' n. ps2_command bus port v d = Inr (d', n) \<and> dinv d'"
begin

lemma read_turn_dev:
  assumes "dinv (sys_dev s)" "read_turn bus port s = Inr (go, s')"
  shows "dinv (sys_dev s') \<and> (go \<longrightarrow> pend (sys_dev s') < pend (sys_dev s))"
proof -
  obtain b v d where r: "ps2_read bus (ucast port) (sys_dev s) = Inr (b, v, d)" "dinv d" "b \<longrightarrow> pend d < pend (sys_dev s)"
    using read_law [OF assms(1)] by blast
  have "(b \<and> sys_dev s' = d) \<or> (\<not> go \<and> sys_dev s' = d)"
    using assms(2) r(1) by (cases b) (auto simp: read_turn_def Let_def bindR_eq_Inr split: if_splits prod.splits
        dest: sys_got_data_dev)
  then show ?thesis using r(2,3) by auto
qed

lemma read_from_device_returns:
  "dinv (sys_dev s) \<Longrightarrow> returns (\<lambda>s'. dinv (sys_dev s')) (read_from_device bus port s)"
proof (induction "pend (sys_dev s)" arbitrary: s rule: less_induct)
  case less
  show ?case
  proof (cases "flag (NOT (rget (sys_kbc s) RAM_STATUS)) STATUS_OBF")
    case True
    show ?thesis
    proof (cases "read_turn bus port s")
      case (Inl e)
      then show ?thesis using True by (subst read_from_device.simps) simp
    next
      case (Inr r)
      obtain go s' where r: "r = (go, s')" by (cases r) auto
      note d = read_turn_dev [OF less.prems Inr [unfolded r]]
      have "go \<Longrightarrow> returns (\<lambda>s'. dinv (sys_dev s')) (read_from_device bus port s')" using less.hyps [of s'] d by blast
      then show ?thesis using True Inr d by (subst read_from_device.simps) (simp add: r)
    qed
  next
    case False
    then show ?thesis using less.prems by (subst read_from_device.simps) simp
  qed
qed

lemma read_all_returns:
  assumes "dinv (sys_dev s)"
  shows "returns (\<lambda>s'. dinv (sys_dev s')) (read_all_devices bus s)"
  unfolding read_all_devices_def Let_def using assms
  by (auto intro!: returns_bind [where P = "\<lambda>s'. dinv (sys_dev s')"] read_from_device_returns)

lemma kbc_ps2_returns:
  assumes "dinv (sys_dev s)"
  shows "returns (\<lambda>(_, s'). dinv (sys_dev s')) (kbc_receive_ps2 bus port t s)"
  unfolding kbc_receive_ps2_def using assms
  by (auto intro!: returns_bind [OF read_all_returns])

lemma kbc_command_returns:
  assumes "dinv (sys_dev s)"
  shows "returns (\<lambda>s'. dinv (sys_dev s')) (kbc_send_command bus port v s)"
proof -
  obtain d n where c: "ps2_command bus (ps2_port port) v (sys_dev s) = Inr (d, n)" "dinv d"
    using command_law [OF assms] by blast
  then show ?thesis unfolding kbc_send_command_def
    by (auto simp: Let_def intro!: returns_bind [OF kbc_ps2_returns])
qed

lemma kbc_data_returns:
  assumes "dinv (sys_dev s)"
  shows "returns (\<lambda>(_, s'). dinv (sys_dev s')) (kbc_data_command bus w s)"
proof -
  have fin: "returns (\<lambda>(_, s'). dinv (sys_dev s')) (bindO r (\<lambda>s. Some (Inr (True, s))))"
    if "returns (\<lambda>s'. dinv (sys_dev s')) r" for r
    using that by (rule returns_bind) simp
  show ?thesis unfolding kbc_data_command_def Let_def using assms
    by (auto intro!: fin returns_got_data kbc_command_returns split: prod.split)
qed

lemma kbc_write_data_returns:
  assumes "dinv (sys_dev s)"
  shows "returns (\<lambda>s'. dinv (sys_dev s')) (kbc_write_data bus w s)"
proof -
  have k: "returns (\<lambda>s'. dinv (sys_dev s')) (if handled then Some (Inr s) else kbc_send_command bus p v s)"
    if "dinv (sys_dev s)" for handled s p v using that kbc_command_returns by simp
  have d: "returns (\<lambda>(_, s'). dinv (sys_dev s')) (if flag (rget (sys_kbc s) RAM_STATUS) STATUS_CMD then kbc_data_command bus w s
                  else Some (Inr (False, s)))" using assms kbc_data_returns by simp
  show ?thesis
  proof (cases "flag (NOT (rget (sys_kbc s) RAM_STATUS)) STATUS_NO_INHB")
    case False
    then have e: "kbc_write_data bus w s = bindO (if flag (rget (sys_kbc s) RAM_STATUS) STATUS_CMD then kbc_data_command bus w s
                  else Some (Inr (False, s))) (\<lambda>(handled, s).
        let s = on_kbc (\<lambda>k. rput RAM_STATUS (rget k RAM_STATUS AND NOT STATUS_CMD) k) s
        in if handled then Some (Inr s) else kbc_send_command bus (ps2ports (sys_kbc s)) (ucast w) s)"
      by (simp add: kbc_write_data_def)
    show ?thesis unfolding e by (rule returns_bind [OF d]) (auto simp: Let_def intro!: k kbc_command_returns)
  qed (use assms in \<open>simp add: kbc_write_data_def\<close>)
qed

lemma kbc_handlers_return:
  assumes "dinv (sys_dev s)"
  shows "returns (\<lambda>(_, s'). dinv (sys_dev s')) (kbc_receive_in bus i s)"
    "returns (\<lambda>(_, s'). dinv (sys_dev s')) (kbc_receive_out bus q s)"
proof -
  show "returns (\<lambda>(_, s'). dinv (sys_dev s')) (kbc_receive_in bus i s)"
    unfolding kbc_receive_in_def Let_def using assms by (auto intro!: returns_bind [OF read_all_returns])
  have fin: "returns (\<lambda>(_, s'). dinv (sys_dev s')) (bindO r (\<lambda>s. Some (Inr (True, s))))"
    if "returns (\<lambda>s'. dinv (sys_dev s')) r" for r
    using that by (rule returns_bind) simp
  have wc: "returns (\<lambda>s'. dinv (sys_dev s')) (Some (kbc_write_command v s))" for v
    using assms by (auto simp: returns_def dest: write_command_dev)
  show "returns (\<lambda>(_, s'). dinv (sys_dev s')) (kbc_receive_out bus q s)"
    unfolding kbc_receive_out_def Let_def using assms by (auto intro!: fin wc kbc_write_data_returns)
qed

end

section \<open>The keyboard and the mouse on the bus\<close>

lemma kbd_read_law:
  assumes "kbd_inv k"
  shows "\<exists>b v' k' n. kbd_receive_ps2 port READ_KEY v k = Inr (b, v', k', n) \<and> kbd_inv k'
    \<and> (b \<longrightarrow> kbd_pending k' < kbd_pending k) \<and> (\<not> b \<longrightarrow> k' = k)"
proof (cases "port = k_ps2port k")
  case True
  obtain b v' k' where r: "kbd_read_key k = Inr (b, v', k')" "kbd_inv k'" using kbd_read_ok [OF assms] by blast
  have "\<not> b \<longrightarrow> k' = k" using r(1) by (auto simp: kbd_read_key_def Let_def split: if_splits)
  moreover have "b \<longrightarrow> kbd_pending k' < kbd_pending k" using kbd_read_pending [OF assms, of v' k'] r(1) by (cases b) auto
  ultimately show ?thesis using True r by (auto simp: kbd_receive_ps2_def)
qed (use assms in \<open>auto simp: kbd_receive_ps2_def\<close>)

lemma mouse_read_law:
  assumes "mouse_inv m"
  shows "\<exists>b v' m' n. mouse_receive_ps2 port READ_KEY v m = Inr (b, v', m', n) \<and> mouse_inv m'
    \<and> (b \<longrightarrow> mouse_left m' < mouse_left m) \<and> (\<not> b \<longrightarrow> m' = m)"
proof (cases "port = m_ps2port m")
  case True
  show ?thesis
  proof (cases "mouse_read_key m")
    case None
    then show ?thesis using True assms by (auto simp: mouse_receive_ps2_def)
  next
    case (Some r)
    obtain v' m' where r: "r = (v', m')" by (cases r)
    then show ?thesis using True Some assms read_key_inv mouse_read_left by (auto simp: mouse_receive_ps2_def)
  qed
qed (use assms in \<open>auto simp: mouse_receive_ps2_def\<close>)

interpretation kbdmouse: ps2_devices kbd_mouse_bus pair_inv pair_pending
proof
  fix d :: "kbd \<times> mouse" and port assume i: "pair_inv d"
  obtain k m where d: "d = (k, m)" by (cases d)
  obtain b v k' n where k: "kbd_receive_ps2 port READ_KEY 0 k = Inr (b, v, k', n)" "kbd_inv k'"
    "b \<longrightarrow> kbd_pending k' < kbd_pending k" "\<not> b \<longrightarrow> k' = k" using kbd_read_law [of k port 0] i d by (auto simp: pair_inv_def)
  obtain b' v' m' n' where m: "mouse_receive_ps2 port READ_KEY v m = Inr (b', v', m', n')" "mouse_inv m'"
    "b' \<longrightarrow> mouse_left m' < mouse_left m" "\<not> b' \<longrightarrow> m' = m" using mouse_read_law [of m port v] i d by (auto simp: pair_inv_def)
  have "ps2_read kbd_mouse_bus port d = Inr (b \<or> b', v', (k', m'))" using k(1) m(1) by (simp add: kbd_mouse_bus_def d)
  moreover have "b \<or> b' \<longrightarrow> kbd_pending k' + mouse_left m' < kbd_pending k + mouse_left m"
    using k(3,4) m(3,4) by (cases b; cases b') auto
  ultimately show "\<exists>b v d'. ps2_read kbd_mouse_bus port d = Inr (b, v, d') \<and> pair_inv d' \<and> (b \<longrightarrow> pair_pending d' < pair_pending d)"
    using k(2) m(2) by (auto simp: pair_inv_def pair_pending_def d)
next
  fix d :: "kbd \<times> mouse" and port v assume i: "pair_inv d"
  obtain k m where d: "d = (k, m)" by (cases d)
  have km: "kbd_inv k" "mouse_inv m" using i d by (auto simp: pair_inv_def)
  obtain b v' k' n where k: "kbd_receive_ps2 port SEND_COMMAND v k = Inr (b, v', k', n)" "kbd_inv k'" using kbd_ps2_ok [OF km(1)] by blast
  obtain r where r: "mouse_send_command v' m = Inr r" using send_command_defined [OF km(2)] by blast
  then have "\<exists>x. mouse_receive_ps2 port SEND_COMMAND v' m = Inr x" by (cases r) (auto simp: mouse_receive_ps2_def)
  then obtain b' v'' m' n' where m: "mouse_receive_ps2 port SEND_COMMAND v' m = Inr (b', v'', m', n')"
    by auto
  have "mouse_inv m'" by (rule mouse_ps2_inv [OF km(2) m])
  then show "\<exists>d' n. ps2_command kbd_mouse_bus port v d = Inr (d', n) \<and> pair_inv d'"
    using k m by (auto simp: kbd_mouse_bus_def d pair_inv_def)
qed

text \<open>Claim C32. With a keyboard and a mouse on its bus, every handler of the controller returns: the loop that
  reads a device ends, also when the password check swallows all bytes, because each successful
  read leaves less to be read in the device.\<close>

theorem kbc_returns:
  assumes "kbd_reach k" "mouse_reach m" "sys_dev s = (k, m)"
  shows "(\<exists>r. kbc_receive_ps2 kbd_mouse_bus port t s = Some r)
    \<and> (\<exists>r. kbc_receive_in kbd_mouse_bus i s = Some r) \<and> (\<exists>r. kbc_receive_out kbd_mouse_bus q s = Some r)"
proof -
  have "pair_inv (sys_dev s)" using assms kbd_reach_inv mouse_reach_inv by (simp add: pair_inv_def)
  from kbdmouse.kbc_ps2_returns [OF this] kbdmouse.kbc_handlers_return [OF this] show ?thesis
    unfolding returns_def by blast
qed

theorem kbc_returns_witness:
  "kbd_reach (kbd_init 0 0x17) \<and> mouse_reach (mouse_init 1 0x17)
    \<and> (\<exists>r. kbc_receive_in kbd_mouse_bus \<lparr>in_type = TYPE_B, in_port = 0x60, in_value = 0\<rparr>
          \<lparr>sys_kbc = kbc_init 0x60 1 12 0, sys_dev = (kbd_init 0 0x17, mouse_init 1 0x17), sys_out = []\<rparr> = Some r)"
proof -
  let ?s = "\<lparr>sys_kbc = kbc_init 0x60 1 12 0, sys_dev = (kbd_init 0 0x17, mouse_init 1 0x17), sys_out = []\<rparr>"
  have "sys_dev ?s = (kbd_init 0 0x17, mouse_init 1 0x17)" by simp
  from kbc_returns [OF kbd_reach.reach_init mouse_reach.reach_init this] show ?thesis
    using kbd_reach.reach_init mouse_reach.reach_init by blast
qed

section \<open>From the key to the guest\<close>

lemmas status_masks = STATUS_OBF_def STATUS_AUX_def STATUS_AUXOBF_def STATUS_NO_INHB_def STATUS_CMD_def STATUS_SYS_def

lemma flag_not_u8: "flag (NOT x) STATUS_OBF \<longleftrightarrow> \<not> flag x STATUS_OBF" "flag (NOT x) STATUS_NO_INHB \<longleftrightarrow> \<not> flag x STATUS_NO_INHB"
  "flag (NOT x) CMD_DISAUX \<longleftrightarrow> \<not> flag x CMD_DISAUX" "flag (NOT x) CMD_DISKBD \<longleftrightarrow> \<not> flag x CMD_DISKBD"
  using flag_not [of 0 x] flag_not [of 4 x] flag_not [of 5 x]
  by (simp_all add: STATUS_OBF_def STATUS_NO_INHB_def CMD_DISAUX_def CMD_DISKBD_def)

text \<open>The status after data from the keyboard.\<close>

lemma status_kbd:
  fixes st :: u8
  defines "st' \<equiv> (st AND NOT STATUS_AUXOBF) OR STATUS_OBF"
  shows "st' AND STATUS_AUXOBF = STATUS_OBF" "flag st' STATUS_OBF" "flag st' STATUS_NO_INHB = flag st STATUS_NO_INHB"
proof -
  have e: "STATUS_OBF = 2 ^ 0" "STATUS_NO_INHB = 2 ^ 4" "STATUS_AUXOBF = 2 ^ 0 OR 2 ^ 5"
    by (simp_all add: status_masks)
  show "st' AND STATUS_AUXOBF = STATUS_OBF"
    unfolding st'_def by (rule bit_word_eqI) (auto simp: e bit_simps)
  show "flag st' STATUS_OBF" "flag st' STATUS_NO_INHB = flag st STATUS_NO_INHB"
    unfolding st'_def e(1,2) flag_exp by (simp_all add: e(3) bit_simps)
qed

text \<open>Data from the keyboard, when the keyboard is not inhibited and its interrupt is enabled.\<close>

lemma got_data_kbd:
  assumes "length (ram c) = 32" "flag (rget c RAM_STATUS) STATUS_NO_INHB" "flag (rget c RAM_CMDBYTE) CMD_IRQKBD"
  obtains c' where "got_data v False c = Inr (c', [KbcIrq ASSERT_IRQ (irqkbd c)])"
    "rget c' RAM_OBF = v" "flag (rget c' RAM_STATUS) STATUS_OBF" "length (ram c') = 32"
    "rget c' RAM_CMDBYTE = rget c RAM_CMDBYTE" "kb_base c' = kb_base c" "ps2ports c' = ps2ports c"
proof -
  define st where "st = (rget c RAM_STATUS AND NOT STATUS_AUXOBF) OR STATUS_OBF"
  define c1 where "c1 = rput RAM_STATUS st (rput RAM_OBF v c)"
  have n: "check_pwd v False c = Inr (False, v, c)" using assms(2) by (simp add: check_pwd_def flag_not_u8)
  have g: "rget c1 RAM_STATUS = st" "rget c1 RAM_CMDBYTE = rget c RAM_CMDBYTE" "rget c1 RAM_OBF = v" "length (ram c1) = 32"
    "rget (rput RAM_OBF v c) RAM_STATUS = rget c RAM_STATUS"
    using assms(1) by (simp_all add: c1_def rget_rput kbc_ram)
  have ne: "st AND STATUS_AUXOBF \<noteq> STATUS_AUXOBF" "st AND STATUS_AUXOBF = STATUS_OBF"
    unfolding st_def status_kbd(1) by (simp_all add: status_masks)
  have "got_data v False c = Inr (rput RAM_OUTPORT (rget c1 RAM_OUTPORT OR OUTPORT_IRQKBD) c1, [KbcIrq ASSERT_IRQ (irqkbd c1)])"
    unfolding got_data_def n using g ne assms(3) by (simp add: Let_def st_def [symmetric] c1_def [symmetric])
  moreover have "irqkbd c1 = irqkbd c" "kb_base c1 = kb_base c" "ps2ports c1 = ps2ports c" by (simp_all add: c1_def)
  ultimately show thesis
    using that [of "rput RAM_OUTPORT (rget c1 RAM_OUTPORT OR OUTPORT_IRQKBD) c1"] g status_kbd(2) [of "rget c RAM_STATUS"]
    by (simp add: rget_rput kbc_ram st_def)
qed

text \<open>A read of the keyboard and a read of the idle mouse.\<close>

lemma bus_read_kbd:
  assumes "kbd_inv k" "k_mode k = 0" "response k = 0" "k_ps2port k = 0" "m_ps2port m = 1" "kbd_queue k = v # q"
  obtains k' where "ps2_read kbd_mouse_bus 0 (k, m) = Inr (True, v, (k', m))" "kbd_queue k' = q" "kbd_inv k'"
    "k_mode k' = 0" "response k' = 0" "k_ps2port k' = 0"
proof -
  have "\<not> flag (k_mode k) MODE_RESEND" using assms(2) by (simp add: flag_def)
  then obtain k' where "kbd_read_key k = Inr (True, v, k')" "kbd_queue k' = q" "kbd_inv k'" "k_mode k' = k_mode k"
    "response k' = 0" "k_ps2port k' = k_ps2port k" using kbd_read_queue(2) [OF assms(1) _ assms(3,6)] by blast
  then show thesis using that [of k'] assms by (simp add: kbd_mouse_bus_def kbd_receive_ps2_def mouse_receive_ps2_def)
qed

lemma bus_read_mouse:
  assumes "k_ps2port k = 0" "m_ps2port m = 1" "m_packet m AND 0xff = 0"
  shows "\<exists>v. ps2_read kbd_mouse_bus 1 (k, m) = Inr (False, v, (k, m))"
  using assms mouse_read_none [of m] by (simp add: kbd_mouse_bus_def kbd_receive_ps2_def mouse_receive_ps2_def)

text \<open>The controller is ready for a key: its output buffer is empty, the keyboard is neither inhibited nor
  disabled, translation and the interrupt are on.\<close>

lemma read_device_stop:
  assumes "flag (rget (sys_kbc s) RAM_STATUS) STATUS_OBF"
  shows "read_from_device bus port s = Some (Inr s)"
  using assms by (subst read_from_device.simps) (simp add: flag_not_u8)

lemma read_device_go:
  assumes "\<not> flag (rget (sys_kbc s) RAM_STATUS) STATUS_OBF" "read_turn bus port s = Inr (True, s')"
  shows "read_from_device bus port s = read_from_device bus port s'"
  using assms by (subst read_from_device.simps) (simp add: flag_not_u8)

lemma read_device_none:
  assumes "\<not> flag (rget (sys_kbc s) RAM_STATUS) STATUS_OBF" "ps2_read bus (ucast port) (sys_dev s) = Inr (False, v, sys_dev s)"
  shows "read_from_device bus port s = Some (Inr s)"
  using assms by (subst read_from_device.simps) (simp add: flag_not_u8 read_turn_def)

text \<open>One key code in the buffer of the keyboard: the loop delivers it, translated.\<close>

lemma read_one_code:
  fixes c :: kbc
  assumes c: "length (ram c) = 32" "ps2ports c = 0" "flag (rget c RAM_STATUS) STATUS_NO_INHB"
      "\<not> flag (rget c RAM_STATUS) STATUS_OBF" "flag (rget c RAM_CMDBYTE) CMD_IRQKBD" "flag (rget c RAM_CMDBYTE) CMD_TRANSLATE"
    and k: "kbd_inv k" "k_mode k = 0" "response k = 0" "k_ps2port k = 0" "m_ps2port m = 1" "kbd_queue k = [v]"
    and v: "v \<noteq> 0xf0"
  obtains c' k' where "read_from_device kbd_mouse_bus 0 \<lparr>sys_kbc = c, sys_dev = (k, m), sys_out = out\<rparr>
      = Some (Inr \<lparr>sys_kbc = c', sys_dev = (k', m), sys_out = out @ [KbcIrq ASSERT_IRQ (irqkbd c)]\<rparr>)"
    "rget c' RAM_OBF = (if rget c RAM_GOT_RELEASE \<noteq> 0 then translate_sc2_to_sc1 v OR 0x80 else translate_sc2_to_sc1 v)"
    "flag (rget c' RAM_STATUS) STATUS_OBF" "kb_base c' = kb_base c" "length (ram c') = 32" "ps2ports c' = 0"
    "kbd_queue k' = []" "kbd_inv k'" "k_mode k' = 0" "response k' = 0" "k_ps2port k' = 0"
proof -
  let ?s = "\<lparr>sys_kbc = c, sys_dev = (k, m), sys_out = out\<rparr>"
  define w where "w = (if rget c RAM_GOT_RELEASE \<noteq> 0 then translate_sc2_to_sc1 v OR 0x80 else translate_sc2_to_sc1 v)"
  define c1 where "c1 = rput RAM_GOT_RELEASE 0 c"
  obtain k' where k': "ps2_read kbd_mouse_bus 0 (k, m) = Inr (True, v, (k', m))" "kbd_queue k' = []" "kbd_inv k'"
    "k_mode k' = 0" "response k' = 0" "k_ps2port k' = 0" using bus_read_kbd [OF k] by blast
  have t: "translate_keycodes v c = (w, c1)" using c(6) v by (simp add: translate_keycodes_def w_def c1_def Let_def)
  have g: "length (ram c1) = 32" "flag (rget c1 RAM_STATUS) STATUS_NO_INHB" "flag (rget c1 RAM_CMDBYTE) CMD_IRQKBD"
    "rget c1 RAM_GOT_RELEASE = 0" using c by (simp_all add: c1_def rget_rput kbc_ram)
  obtain c' where c': "got_data w False c1 = Inr (c', [KbcIrq ASSERT_IRQ (irqkbd c1)])"
    "rget c' RAM_OBF = w" "flag (rget c' RAM_STATUS) STATUS_OBF" "length (ram c') = 32" "kb_base c' = kb_base c1"
    "ps2ports c' = ps2ports c1"
    using got_data_kbd [OF g(1-3), of w] by blast
  let ?s' = "\<lparr>sys_kbc = c', sys_dev = (k', m), sys_out = out @ [KbcIrq ASSERT_IRQ (irqkbd c)]\<rparr>"
  have i: "irqkbd c1 = irqkbd c" "kb_base c1 = kb_base c" "ps2ports c1 = 0" using c(2) by (simp_all add: c1_def)
  have "read_turn kbd_mouse_bus 0 ?s = Inr (True, ?s')"
    using k'(1) t g(4) c'(1) c(2) i by (simp add: read_turn_def sys_got_data_def Let_def)
  then have "read_from_device kbd_mouse_bus 0 ?s = Some (Inr ?s')"
    using read_device_go [of ?s] read_device_stop [of ?s'] c(4) c'(3) by simp
  then show thesis using that [of c' k'] c' i k' by (simp add: w_def)
qed

text \<open>The break prefix is only remembered.\<close>

lemma read_break_prefix:
  fixes c :: kbc
  assumes c: "length (ram c) = 32" "ps2ports c = 0" "\<not> flag (rget c RAM_STATUS) STATUS_OBF" "flag (rget c RAM_CMDBYTE) CMD_TRANSLATE"
    and k: "kbd_inv k" "k_mode k = 0" "response k = 0" "k_ps2port k = 0" "m_ps2port m = 1" "kbd_queue k = 0xf0 # q"
  obtains k' where "read_from_device kbd_mouse_bus 0 \<lparr>sys_kbc = c, sys_dev = (k, m), sys_out = out\<rparr>
      = read_from_device kbd_mouse_bus 0 \<lparr>sys_kbc = rput RAM_GOT_RELEASE 1 c, sys_dev = (k', m), sys_out = out\<rparr>"
    "kbd_queue k' = q" "kbd_inv k'" "k_mode k' = 0" "response k' = 0" "k_ps2port k' = 0"
proof -
  let ?s = "\<lparr>sys_kbc = c, sys_dev = (k, m), sys_out = out\<rparr>"
  obtain k' where k': "ps2_read kbd_mouse_bus 0 (k, m) = Inr (True, 0xf0, (k', m))" "kbd_queue k' = q" "kbd_inv k'"
    "k_mode k' = 0" "response k' = 0" "k_ps2port k' = 0" using bus_read_kbd [OF k] by blast
  have "rget (rput RAM_GOT_RELEASE 1 c) RAM_GOT_RELEASE = 1" using c(1) by (simp add: rget_rput kbc_ram)
  then have "read_turn kbd_mouse_bus 0 ?s = Inr (True, \<lparr>sys_kbc = rput RAM_GOT_RELEASE 1 c, sys_dev = (k', m), sys_out = out\<rparr>)"
    using k'(1) c by (simp add: read_turn_def translate_keycodes_def Let_def)
  then show thesis using that [of k'] k' read_device_go [of ?s] c(3) by simp
qed

lemma ucast_ports: "ucast (ucast (0 :: u32) :: u8) = (0 :: u32)" "(ucast (0 :: u32) :: u8) = 0" "(ucast (1 :: u32) :: u8) = 1"
  "(ucast (1 :: u8) :: u32) = 1"
  by simp_all

text \<open>The mouse has nothing to say.\<close>

lemma read_aux_idle:
  assumes "\<not> flag (rget (sys_kbc s) RAM_STATUS) STATUS_OBF" "sys_dev s = (k, m)"
    "k_ps2port k = 0" "m_ps2port m = 1" "m_packet m AND 0xff = 0"
  shows "read_from_device kbd_mouse_bus 1 s = Some (Inr s)"
proof -
  obtain v where "ps2_read kbd_mouse_bus 1 (k, m) = Inr (False, v, (k, m))" using bus_read_mouse [OF assms(3-5)] by blast
  then show ?thesis using read_device_none [OF assms(1), of kbd_mouse_bus 1 v] assms(2) by simp
qed

lemma read_kbd_idle:
  assumes "\<not> flag (rget (sys_kbc s) RAM_STATUS) STATUS_OBF" "sys_dev s = (k, m)"
    "k_ps2port k = 0" "m_ps2port m = 1" "kbd_inv k" "k_mode k = 0" "response k = 0" "kbd_queue k = []"
  shows "read_from_device kbd_mouse_bus 0 s = Some (Inr s)"
proof -
  have "\<not> flag (k_mode k) MODE_RESEND" using assms(6) by (simp add: flag_def)
  then obtain v where "kbd_read_key k = Inr (False, v, k)" using kbd_read_queue(1) [OF assms(5) _ assms(7,8)] by blast
  then have "ps2_read kbd_mouse_bus 0 (k, m) = Inr (False, v, (k, m))"
    using assms(3,4) by (simp add: kbd_mouse_bus_def kbd_receive_ps2_def mouse_receive_ps2_def)
  then show ?thesis using read_device_none [OF assms(1), of kbd_mouse_bus 0 v] assms(2) by simp
qed

text \<open>Both devices have nothing to say: only the lock is taken and released.\<close>

lemma read_all_idle:
  assumes "length (ram (sys_kbc s)) = 32" "ps2ports (sys_kbc s) = 0" "\<not> flag (rget (sys_kbc s) RAM_STATUS) STATUS_OBF"
    "sys_dev s = (k, m)" "k_ps2port k = 0" "m_ps2port m = 1" "m_packet m AND 0xff = 0"
    "kbd_inv k" "k_mode k = 0" "response k = 0" "kbd_queue k = []"
  shows "\<exists>s'. read_all_devices kbd_mouse_bus s = Some (Inr s')"
proof -
  let ?s = "on_kbc (rput RAM_LOCK 1) s"
  have st: "\<not> flag (rget (sys_kbc ?s) RAM_STATUS) STATUS_OBF" "ps2ports (sys_kbc ?s) = 0" "sys_dev ?s = (k, m)"
    using assms(1-4) by (simp_all add: on_kbc_def rget_rput kbc_ram)
  note a = read_aux_idle [OF st(1,3) assms(5-7)]
  note b = read_kbd_idle [OF st(1,3) assms(5,6,8-11)]
  show ?thesis unfolding read_all_devices_def Let_def using a b st(2) by simp
qed

text \<open>The whole scan when the keyboard has one key event.\<close>

lemma read_all_key:
  assumes c: "kbc_ready c" and k: "kbd_inv k" "k_mode k = 0" "response k = 0" "k_ps2port k = 0"
      "kbd_queue k = (if up then [0xf0, v] else [v])"
    and m: "m_ps2port m = 1" "m_packet m AND 0xff = 0" and v: "v \<noteq> 0xf0"
  obtains c' k' where "read_all_devices kbd_mouse_bus \<lparr>sys_kbc = c, sys_dev = (k, m), sys_out = []\<rparr>
      = Some (Inr \<lparr>sys_kbc = c', sys_dev = (k', m), sys_out = [KbcIrq ASSERT_IRQ (irqkbd c)]\<rparr>)"
    "rget c' RAM_OBF = (if up then translate_sc2_to_sc1 v OR 0x80 else translate_sc2_to_sc1 v)"
    "flag (rget c' RAM_STATUS) STATUS_OBF" "kb_base c' = kb_base c" "length (ram c') = 32" "ps2ports c' = 0"
    "kbd_queue k' = []" "kbd_inv k'" "k_mode k' = 0" "response k' = 0" "k_ps2port k' = 0"
proof -
  define c1 where "c1 = rput RAM_LOCK 1 c"
  let ?s = "\<lparr>sys_kbc = c1, sys_dev = (k, m), sys_out = []\<rparr>"
  note r = c [unfolded kbc_ready_def]
  have c1: "length (ram c1) = 32" "ps2ports c1 = 0" "rget c1 RAM_GOT_RELEASE = 0" "rget c1 RAM_STATUS = rget c RAM_STATUS"
    "rget c1 RAM_CMDBYTE = rget c RAM_CMDBYTE" "irqkbd c1 = irqkbd c" "kb_base c1 = kb_base c"
    using r by (simp_all add: c1_def rget_rput kbc_ram)
  have f: "flag (rget c1 RAM_STATUS) STATUS_NO_INHB" "\<not> flag (rget c1 RAM_STATUS) STATUS_OBF"
    "flag (rget c1 RAM_CMDBYTE) CMD_IRQKBD" "flag (rget c1 RAM_CMDBYTE) CMD_TRANSLATE" "\<not> flag (rget c1 RAM_CMDBYTE) CMD_DISKBD"
    using r unfolding c1 by simp_all
  have aux: "read_from_device kbd_mouse_bus 1 ?s = Some (Inr ?s)"
    by (rule read_aux_idle [OF _ _ k(4) m]) (use f in simp_all)
  have "\<exists>c' k'. read_from_device kbd_mouse_bus 0 ?s
      = Some (Inr \<lparr>sys_kbc = c', sys_dev = (k', m), sys_out = [KbcIrq ASSERT_IRQ (irqkbd c)]\<rparr>)
    \<and> rget c' RAM_OBF = (if up then translate_sc2_to_sc1 v OR 0x80 else translate_sc2_to_sc1 v)
    \<and> flag (rget c' RAM_STATUS) STATUS_OBF \<and> kb_base c' = kb_base c \<and> length (ram c') = 32 \<and> ps2ports c' = 0
    \<and> kbd_queue k' = [] \<and> kbd_inv k' \<and> k_mode k' = 0 \<and> response k' = 0 \<and> k_ps2port k' = 0"
  proof (cases up)
    case False
    then have "kbd_queue k = [v]" using k(5) by simp
    from read_one_code [OF c1(1,2) f(1-4) k(1-4) m(1) this v, of "[]"] show ?thesis
      using False c1 by (metis append_Nil)
  next
    case True
    then have q: "kbd_queue k = 0xf0 # [v]" using k(5) by simp
    obtain k1 where k1: "read_from_device kbd_mouse_bus 0 ?s
        = read_from_device kbd_mouse_bus 0 \<lparr>sys_kbc = rput RAM_GOT_RELEASE 1 c1, sys_dev = (k1, m), sys_out = []\<rparr>"
      "kbd_queue k1 = [v]" "kbd_inv k1" "k_mode k1 = 0" "response k1 = 0" "k_ps2port k1 = 0"
      using read_break_prefix [OF c1(1,2) f(2,4) k(1-4) m(1) q, of "[]"] by blast
    define c2 where "c2 = rput RAM_GOT_RELEASE 1 c1"
    have c2: "length (ram c2) = 32" "ps2ports c2 = 0" "rget c2 RAM_GOT_RELEASE = 1" "rget c2 RAM_STATUS = rget c1 RAM_STATUS"
      "rget c2 RAM_CMDBYTE = rget c1 RAM_CMDBYTE" "irqkbd c2 = irqkbd c" "kb_base c2 = kb_base c"
      using c1 by (simp_all add: c2_def rget_rput kbc_ram)
    have f2: "flag (rget c2 RAM_STATUS) STATUS_NO_INHB" "\<not> flag (rget c2 RAM_STATUS) STATUS_OBF"
      "flag (rget c2 RAM_CMDBYTE) CMD_IRQKBD" "flag (rget c2 RAM_CMDBYTE) CMD_TRANSLATE" using f unfolding c2 by simp_all
    obtain c' k' where o: "read_from_device kbd_mouse_bus 0 \<lparr>sys_kbc = c2, sys_dev = (k1, m), sys_out = []\<rparr>
        = Some (Inr \<lparr>sys_kbc = c', sys_dev = (k', m), sys_out = [] @ [KbcIrq ASSERT_IRQ (irqkbd c2)]\<rparr>)"
      "rget c' RAM_OBF = (if rget c2 RAM_GOT_RELEASE \<noteq> 0 then translate_sc2_to_sc1 v OR 0x80 else translate_sc2_to_sc1 v)"
      "flag (rget c' RAM_STATUS) STATUS_OBF" "kb_base c' = kb_base c2" "length (ram c') = 32" "ps2ports c' = 0"
      "kbd_queue k' = []" "kbd_inv k'" "k_mode k' = 0" "response k' = 0" "k_ps2port k' = 0"
      using read_one_code [OF c2(1,2) f2 k1(3-6) m(1) k1(2) v, of "[]"] by blast
    show ?thesis using k1(1) o True c2 unfolding c2_def [symmetric] by auto
  qed
  then obtain c' k' where o: "read_from_device kbd_mouse_bus 0 ?s
      = Some (Inr \<lparr>sys_kbc = c', sys_dev = (k', m), sys_out = [KbcIrq ASSERT_IRQ (irqkbd c)]\<rparr>)"
    "rget c' RAM_OBF = (if up then translate_sc2_to_sc1 v OR 0x80 else translate_sc2_to_sc1 v)"
    "flag (rget c' RAM_STATUS) STATUS_OBF" "kb_base c' = kb_base c" "length (ram c') = 32" "ps2ports c' = 0"
    "kbd_queue k' = []" "kbd_inv k'" "k_mode k' = 0" "response k' = 0" "k_ps2port k' = 0" by blast
  have "read_all_devices kbd_mouse_bus \<lparr>sys_kbc = c, sys_dev = (k, m), sys_out = []\<rparr>
      = Some (Inr \<lparr>sys_kbc = rput RAM_LOCK 0 c', sys_dev = (k', m), sys_out = [KbcIrq ASSERT_IRQ (irqkbd c)]\<rparr>)"
    unfolding read_all_devices_def Let_def using r aux o(1) f(5) c1
    by (simp add: on_kbc_def c1_def [symmetric] flag_not_u8)
  then show thesis using that [of "rput RAM_LOCK 0 c'" k'] o by (simp add: rget_rput kbc_ram)
qed

text \<open>Claim C3. A key of the host reaches the guest. With the controller ready, the keyboard idle in scancode set 2 and the
  mouse silent, a key without extension flags makes the keyboard notify the controller; handling the
  notification raises exactly the keyboard interrupt, and a read of the data port then
  returns the code of set 1, with the top bit set when the key was released.\<close>

theorem key_reaches_guest:
  fixes data :: u32
  assumes c: "kbc_ready c"
    and k: "kbd_inv k" "k_mode k = 0" "scset k = 2" "response k = 0" "k_ps2port k = 0" "kbd_queue k = []"
    and m: "m_ps2port m = 1" "m_packet m AND 0xff = 0"
    and d: "\<not> flag data EXTEND0" "\<not> flag data EXTEND1" "(ucast data :: u8) \<noteq> 0xf0"
  shows "\<exists>k' s' s''. kbd_receive_input (hostkeyboard k) data k = Inr (True, k', True)
    \<and> kbc_receive_ps2 kbd_mouse_bus (k_ps2port k) NOTIFY \<lparr>sys_kbc = c, sys_dev = (k', m), sys_out = []\<rparr> = Some (Inr (True, s'))
    \<and> sys_out s' = [KbcIrq ASSERT_IRQ (irqkbd c)]
    \<and> kbc_receive_in kbd_mouse_bus \<lparr>in_type = TYPE_B, in_port = kb_base c, in_value = 0\<rparr> s'
        = Some (Inr (Some \<lparr>in_type = TYPE_B, in_port = kb_base c,
            in_value = ucast (if flag data RELEASE then translate_sc2_to_sc1 (ucast data) OR 0x80
                              else translate_sc2_to_sc1 (ucast data))\<rparr>, s''))"
proof -
  let ?w = "if flag data RELEASE then translate_sc2_to_sc1 (ucast data) OR 0x80 else translate_sc2_to_sc1 (ucast data)"
  obtain k' where k': "kbd_receive_input (hostkeyboard k) data k = Inr (True, k', True)" "kbd_inv k'" "k_mode k' = 0"
    "same_cfg k k'" "kbd_queue k' = (if flag data RELEASE then [0xf0, ucast data] else [ucast data])"
    by (rule plain_key_queued [OF k(1-3,6) d(1,2)])
  have cfg: "response k' = 0" "k_ps2port k' = 0" using k'(4) k by (cases k; cases k'; simp add: same_cfg_def)+
  obtain c1 k1 where o: "read_all_devices kbd_mouse_bus \<lparr>sys_kbc = c, sys_dev = (k', m), sys_out = []\<rparr>
      = Some (Inr \<lparr>sys_kbc = c1, sys_dev = (k1, m), sys_out = [KbcIrq ASSERT_IRQ (irqkbd c)]\<rparr>)"
    "rget c1 RAM_OBF = ?w" "flag (rget c1 RAM_STATUS) STATUS_OBF" "kb_base c1 = kb_base c" "length (ram c1) = 32" "ps2ports c1 = 0"
    "kbd_queue k1 = []" "kbd_inv k1" "k_mode k1 = 0" "response k1 = 0" "k_ps2port k1 = 0"
    by (rule read_all_key [OF c k'(2,3) cfg k'(5) m d(3)])
  let ?s = "\<lparr>sys_kbc = c1, sys_dev = (k1, m), sys_out = [KbcIrq ASSERT_IRQ (irqkbd c)]\<rparr>"
  have p: "ps2ports c = 0" using c by (simp add: kbc_ready_def)
  have n: "kbc_receive_ps2 kbd_mouse_bus (k_ps2port k) NOTIFY \<lparr>sys_kbc = c, sys_dev = (k', m), sys_out = []\<rparr> = Some (Inr (True, ?s))"
    unfolding kbc_receive_ps2_def using o(1) k(5) p by (simp add: bus_in_range_def)
  define c2 where "c2 = rput RAM_STATUS (rget c1 RAM_STATUS AND NOT STATUS_AUXOBF) c1"
  define c3 where "c3 = rput RAM_OUTPORT (rget c2 RAM_OUTPORT AND NOT (OUTPORT_IRQAUX OR OUTPORT_IRQKBD)) c2"
  have c3: "length (ram c3) = 32" "ps2ports c3 = 0" "rget c3 RAM_STATUS = rget c1 RAM_STATUS AND NOT STATUS_AUXOBF"
    using o(5,6) by (simp_all add: c3_def c2_def rget_rput kbc_ram)
  have nf: "\<not> flag (rget c3 RAM_STATUS) STATUS_OBF"
    unfolding c3 by (simp add: flag_def status_masks and.assoc)
  obtain s'' where s'': "read_all_devices kbd_mouse_bus (?s\<lparr>sys_kbc := c3\<rparr>) = Some (Inr s'')"
    using read_all_idle [of "?s\<lparr>sys_kbc := c3\<rparr>" k1 m] c3 nf o(7-11) m by auto
  have "kbc_receive_in kbd_mouse_bus \<lparr>in_type = TYPE_B, in_port = kb_base c, in_value = 0\<rparr> ?s
      = Some (Inr (Some \<lparr>in_type = TYPE_B, in_port = kb_base c, in_value = ucast ?w\<rparr>, s''))"
    unfolding kbc_receive_in_def using o(2,4) s'' by (simp add: Let_def c2_def [symmetric] c3_def [symmetric] del: bit.de_Morgan_disj)
  then show ?thesis using k'(1) n by (intro exI conjI) (assumption | simp)+
qed

theorem key_reaches_guest_witness:
  "\<exists>k' s' s''. kbd_receive_input 0x17 0x11c (kbd_reset (kbd_init 0 0x17)) = Inr (True, k', True)
    \<and> kbc_receive_ps2 kbd_mouse_bus 0 NOTIFY
        \<lparr>sys_kbc = kbc_receive_legacy RESET (kbc_init 0x60 1 12 0), sys_dev = (k', mouse_init 1 0x17), sys_out = []\<rparr> = Some (Inr (True, s'))
    \<and> sys_out s' = [KbcIrq ASSERT_IRQ 1]
    \<and> kbc_receive_in kbd_mouse_bus \<lparr>in_type = TYPE_B, in_port = 0x60, in_value = 0\<rparr> s'
        = Some (Inr (Some \<lparr>in_type = TYPE_B, in_port = 0x60, in_value = 0x9e\<rparr>, s''))"
proof -
  let ?c = "kbc_receive_legacy RESET (kbc_init 0x60 1 12 0)"
  let ?k = "kbd_reset (kbd_init 0 0x17)"
  let ?m = "mouse_init 1 0x17"
  have c: "kbc_ready ?c" by code_simp
  have k: "kbd_inv ?k" "k_mode ?k = 0" "scset ?k = 2" "response ?k = 0" "k_ps2port ?k = 0" "kbd_queue ?k = []" by code_simp+
  have m: "m_ps2port ?m = 1" "m_packet ?m AND 0xff = 0" by code_simp+
  have d: "\<not> flag 0x11c EXTEND0" "\<not> flag 0x11c EXTEND1" "(ucast (0x11c :: u32) :: u8) \<noteq> 0xf0" by code_simp+
  have v: "hostkeyboard ?k = 0x17" "irqkbd ?c = 1" "kb_base ?c = 0x60"
    "(ucast (if flag 0x11c RELEASE then translate_sc2_to_sc1 (ucast (0x11c :: u32)) OR 0x80
                              else translate_sc2_to_sc1 (ucast (0x11c :: u32))) :: u32) = 0x9e" by code_simp+
  show ?thesis using key_reaches_guest [OF c k m d] unfolding v k(5) .
qed

text \<open>The password check reads behind the memory of the controller exactly when the keyboard is
  inhibited, the byte is a key press that is none of the two ignored ones, and the comparison
  position is 24 or more. A guest can set that up with the commands that write the memory.\<close>

lemma kbc_password_out_of_bounds:
  assumes "length (ram c) = 32"
  shows "(check_pwd v aux c = Inl Undefined \<longleftrightarrow>
      \<not> flag (rget c RAM_STATUS) STATUS_NO_INHB \<and> v < 0x80 \<and> v \<noteq> rget c RAM_MAKE1 \<and> v \<noteq> rget c RAM_MAKE2 \<and> \<not> aux
      \<and> 24 \<le> unat (rget c RAM_PWD_CMP))"
proof -
  have "(8 + unat (rget c RAM_PWD_CMP) < 32) = (\<not> 24 \<le> unat (rget c RAM_PWD_CMP))" by auto
  then show ?thesis using assms by (auto simp: check_pwd_def flag_not_u8 Let_def RAM_PWD_FIRST_def not_le)
qed

end
