(* ===== verification/Caps.thy ===== *)
theory Caps
  imports MathUtil
begin

text \<open>
  Capability descriptors (\<^verbatim>\<open>include/Desc.h\<close>), ranges of capabilities (\<^verbatim>\<open>include/cap/CapRange.h\<close> and
  \<^verbatim>\<open>libs/libstdc++/cap/CapRange.cc\<close>) and the selector space (\<^verbatim>\<open>include/cap/CapSelSpace.h\<close>). A
  revocation is the list of the descriptors handed to the kernel. A loop that
  does not return has the value \<^term>\<open>None\<close>.
\<close>

section \<open>Definitions\<close>

definition crd_make :: "u64 \<Rightarrow> u32 \<Rightarrow> u32 \<Rightarrow> u64" where
  "crd_make offset order attr = push_bit 12 offset OR ucast (push_bit 7 order) OR ucast attr"

definition crd_is_null :: "u64 \<Rightarrow> bool" where
  "crd_is_null v \<longleftrightarrow> v = 0"

definition crd_offset :: "u64 \<Rightarrow> u64" where
  "crd_offset v = drop_bit 12 v"

definition crd_order :: "u64 \<Rightarrow> u32" where
  "crd_order v = ucast (drop_bit 7 v AND 0x1f)"

definition crd_attr :: "u64 \<Rightarrow> u32" where
  "crd_attr v = ucast (v AND 0x1f)"

definition OBJ_ALL :: u32 where "OBJ_ALL = 0x7f"

definition qpd_make :: "u32 \<Rightarrow> u32 \<Rightarrow> u64" where
  "qpd_make prio quantum = ucast (push_bit 12 quantum OR prio)"

definition qpd_prio :: "u64 \<Rightarrow> u32" where
  "qpd_prio v = ucast (v AND 0xfff)"

definition qpd_quantum :: "u64 \<Rightarrow> u32" where
  "qpd_quantum v = ucast (drop_bit 12 v)"

record caprange =
  cr_start :: u64
  cr_count :: u64
  cr_attr :: u32
  cr_hotspot :: u64

definition NO_HOTSPOT :: u64 where "NO_HOTSPOT = - 1"

text \<open>The order of the next piece of a range, and \<^verbatim>\<open>1 << minshift\<close>.\<close>

definition cap_piece :: "u64 \<Rightarrow> u64 \<Rightarrow> (u32 \<times> u64) res" where
  "cap_piece align count = bindR (minshift align count) (\<lambda>s. bindR (shl_int_1 (ucast s)) (\<lambda>d. Inr (s, d)))"

partial_function (option) revoke_loop :: "u32 \<Rightarrow> u64 \<Rightarrow> u64 \<Rightarrow> u64 list \<Rightarrow> u64 list res option" where
  "revoke_loop attr start count out =
     (if count > 0 then
        (case cap_piece start count of
           Inl e \<Rightarrow> Some (Inl e)
         | Inr (s, d) \<Rightarrow> revoke_loop attr (start + d) (count - d) (out @ [crd_make start s attr]))
      else Some (Inr out))"

definition cr_revoke :: "caprange \<Rightarrow> u64 list res option" where
  "cr_revoke r = revoke_loop (cr_attr r) (cr_start r) (cr_count r) []"

definition hotspot_or_start :: "caprange \<Rightarrow> u64" where
  "hotspot_or_start r = (if cr_hotspot r \<noteq> NO_HOTSPOT then cr_hotspot r else cr_start r)"

text \<open>\<^verbatim>\<open>limit_to\<close>: the number of capabilities that are left when the items are used up.\<close>

fun limit_loop :: "u64 \<Rightarrow> u64 \<Rightarrow> u64 \<Rightarrow> nat \<Rightarrow> u64 res" where
  "limit_loop st hs c 0 = Inr c"
| "limit_loop st hs c (Suc free_typed) =
     (if c > 0 then bindR (cap_piece (st OR hs) c) (\<lambda>(s, d). limit_loop (st + d) (hs + d) (c - d) free_typed)
      else Inr c)"

definition limit_to :: "nat \<Rightarrow> caprange \<Rightarrow> caprange res" where
  "limit_to free_typed r =
     bindR (limit_loop (cr_start r) (hotspot_or_start r) (cr_count r) free_typed)
       (\<lambda>c. Inr (r\<lparr>cr_count := cr_count r - c\<rparr>))"

text \<open>The selector space: the offset of the next free selector. Selectors are never given back.\<close>

definition capsel_allocate :: "u32 \<Rightarrow> u32 \<Rightarrow> u32 \<Rightarrow> u32 \<Rightarrow> (u32 \<times> u32) res" where
  "capsel_allocate cfg_cap count align off =
     (let r = (off + align - 1) AND NOT (align - 1)
      in if r + count < r \<or> r + count > cfg_cap then Inl (Throw E_NO_CAP_SELS) else Inr (r, r + count))"

definition capsel_free :: "u32 \<Rightarrow> u32 \<Rightarrow> u32 \<Rightarrow> u32" where
  "capsel_free base count off = off"

text \<open>The capabilities that a list of descriptors names, in order.\<close>

definition crd_block :: "u64 \<Rightarrow> nat list" where
  "crd_block v = [unat (crd_offset v)..<unat (crd_offset v) + 2 ^ unat (crd_order v)]"

text \<open>Ranges for which the order computation is defined: below \<^verbatim>\<open>2^31\<close> capabilities, and no piece starts at a
  multiple of \<^verbatim>\<open>2^32\<close>.\<close>

definition range_ok :: "u64 \<Rightarrow> u64 \<Rightarrow> bool" where
  "range_ok start count \<longleftrightarrow> unat count < 2 ^ 31 \<and> unat start mod 2 ^ 32 \<noteq> 0
     \<and> unat start mod 2 ^ 32 + unat count \<le> 2 ^ 32"

section \<open>Lemmas\<close>

lemma crd_fields:
  assumes "unat order < 32" "unat attr < 128" "unat offset < 2 ^ 52"
  shows "crd_offset (crd_make offset order attr) = offset" "crd_order (crd_make offset order attr) = order"
    "crd_attr (crd_make offset order attr) = attr AND 0x1f"
proof -
  have o: "bit order i \<Longrightarrow> i < 5" for i
    using assms(1) unat_less_pow2_iff [of order 5] by (simp add: not_less [symmetric]) (meson not_le)
  have a: "bit attr i \<Longrightarrow> i < 7" for i
    using assms(2) unat_less_pow2_iff [of attr 7] by (simp add: not_less [symmetric]) (meson not_le)
  have f: "bit offset i \<Longrightarrow> i < 52" for i
    using assms(3) unat_less_pow2_iff [of offset 52] by (simp add: not_less [symmetric]) (meson not_le)
  have b: "bit (crd_make offset order attr) i \<longleftrightarrow> (12 \<le> i \<and> i < 64 \<and> bit offset (i - 12)) \<or> (7 \<le> i \<and> bit order (i - 7)) \<or> bit attr i" for i
    using o [of "i - 7"] a [of i] by (auto simp: crd_make_def bit_simps)
  have m: "(0x1f :: u64) = mask 5" "(0x1f :: u32) = mask 5" by code_simp+
  show "crd_offset (crd_make offset order attr) = offset"
    unfolding crd_offset_def by (rule bit_word_eqI) (use b o a f in \<open>fastforce simp: bit_drop_bit_eq\<close>)
  show "crd_order (crd_make offset order attr) = order"
    unfolding crd_order_def m by (rule bit_word_eqI) (use b o a in \<open>fastforce simp: bit_simps\<close>)
  show "crd_attr (crd_make offset order attr) = attr AND 0x1f"
    unfolding crd_attr_def m by (rule bit_word_eqI) (use b in \<open>fastforce simp: bit_simps\<close>)
qed

lemma cap_piece_ok:
  assumes "unat align mod 2 ^ 32 \<noteq> 0" "0 < unat count" "unat count < 2 ^ 31"
  obtains s d where "cap_piece align count = Inr (s, d)" "unat d = 2 ^ unat s" "unat s < 31"
    "2 ^ unat s dvd unat align" "2 ^ unat s \<le> unat count"
    "\<forall>t. 2 ^ t dvd unat align \<and> 2 ^ t \<le> unat count \<longrightarrow> t \<le> unat s"
proof -
  obtain s where s: "minshift align count = Inr s" "2 ^ unat s dvd unat align" "2 ^ unat s \<le> unat count"
    "\<forall>t. 2 ^ t dvd unat align \<and> 2 ^ t \<le> unat count \<longrightarrow> t \<le> unat s"
    using minshift_largest [OF assms(1,2)] assms(3) by fastforce
  have "(2 :: nat) ^ unat s < 2 ^ 31" using s(3) assms(3) by (rule le_less_trans)
  then have s31: "unat s < 31" by (simp only: power_strict_increasing_iff one_less_numeral_iff semiring_norm)
  have u: "(of_nat (unat s) :: u64) = ucast s" using s31 by (simp add: word_unat_eq_iff unat_ucast unat_of_nat)
  have "shl_int_1 (ucast s :: u64) = Inr (2 ^ unat s)" using shl_int_1_pow2 [OF s31] unfolding u .
  moreover have "unat (2 ^ unat s :: u64) = 2 ^ unat s" using s31 by (intro unat_pow2) simp
  ultimately show thesis using that [of s "2 ^ unat s"] s s31 by (simp add: cap_piece_def)
qed

lemma range_ok_next:
  assumes "range_ok start count" "unat d \<le> unat count" "unat d \<noteq> unat count" "unat start + unat count \<le> 2 ^ 52"
  shows "range_ok (start + d) (count - d)" "unat (start + d) = unat start + unat d" "unat (count - d) = unat count - unat d"
proof -
  have c: "unat count < 2 ^ 31" "unat start mod 2 ^ 32 \<noteq> 0" "unat start mod 2 ^ 32 + unat count \<le> 2 ^ 32"
    using assms(1) by (auto simp: range_ok_def)
  show s: "unat (start + d) = unat start + unat d" using assms(2,4) by (intro unat_add_small) simp
  show k: "unat (count - d) = unat count - unat d" using assms(2) by (intro unat_diff_small) (simp add: word_le_nat_alt)
  have lt: "unat start mod 2 ^ 32 + unat d < 2 ^ 32" using c(3) assms(2,3) by simp
  have "(unat start + unat d) mod 2 ^ 32 = unat start mod 2 ^ 32 + unat d"
    using lt mod_add_left_eq [of "unat start" "2 ^ 32" "unat d"] by simp
  then show "range_ok (start + d) (count - d)" using c assms(2) lt by (simp add: range_ok_def s k)
qed

text \<open>The loop hands out naturally aligned blocks that tile the range.\<close>

lemma revoke_loop_tiles:
  assumes "range_ok start count \<or> unat count = 0" "unat start + unat count \<le> 2 ^ 52" "unat attr < 128"
  shows "\<exists>ps. revoke_loop attr start count out = Some (Inr (out @ ps))
    \<and> concat (map crd_block ps) = [unat start..<unat start + unat count]
    \<and> (\<forall>p \<in> set ps. 2 ^ unat (crd_order p) dvd unat (crd_offset p) \<and> crd_attr p = attr AND 0x1f)"
  using assms
proof (induction "unat count" arbitrary: start count out rule: less_induct)
  case less
  show ?case
  proof (cases "unat count = 0")
    case True
    then have "count = 0" by (simp only: unsigned_eq_0_iff)
    then show ?thesis by (subst revoke_loop.simps) (auto intro: exI [of _ "[]"])
  next
    case False
    then have r: "range_ok start count" using less.prems(1) by simp
    have pre: "unat start mod 2 ^ 32 \<noteq> 0" "0 < unat count" "unat count < 2 ^ 31"
      using r False unfolding range_ok_def by simp_all
    obtain s d where p: "cap_piece start count = Inr (s, d)" "unat d = 2 ^ unat s" "unat s < 31"
      "2 ^ unat s dvd unat start" "2 ^ unat s \<le> unat count"
      by (rule cap_piece_ok [OF pre])
    have le: "unat d \<le> unat count" using p by simp
    let ?c = "crd_make start s attr"
    have lt52: "unat start < 2 ^ 52" using less.prems(2) False by simp
    have fl: "crd_offset ?c = start" "crd_order ?c = s" "crd_attr ?c = attr AND 0x1f"
      using crd_fields [of s attr start] p(3) less.prems(3) lt52 by simp_all
    have sd: "unat (start + d) = unat start + unat d" using le less.prems(2) by (intro unat_add_small) simp
    have cd: "unat (count - d) = unat count - unat d" using le by (intro unat_diff_small) (simp add: word_le_nat_alt)
    have nx: "range_ok (start + d) (count - d) \<or> unat (count - d) = 0"
      using range_ok_next(1) [OF r le _ less.prems(2)] cd by auto
    have "unat (count - d) < unat count" using cd p(2) False le by simp
    from less.hyps [OF this nx, of "out @ [?c]"] obtain ps where ps:
      "revoke_loop attr (start + d) (count - d) (out @ [?c]) = Some (Inr ((out @ [?c]) @ ps))"
      "concat (map crd_block ps) = [unat (start + d)..<unat (start + d) + unat (count - d)]"
      "\<forall>p \<in> set ps. 2 ^ unat (crd_order p) dvd unat (crd_offset p) \<and> crd_attr p = attr AND 0x1f"
      using less.prems(2,3) sd cd le by auto
    have "count \<noteq> 0" using False by auto
    then have e: "revoke_loop attr start count out = Some (Inr (out @ (?c # ps)))"
      using p(1) ps(1) by (subst revoke_loop.simps) (simp add: word_gt_0)
    have "concat (map crd_block (?c # ps)) = [unat start..<unat start + unat d] @ [unat (start + d)..<unat (start + d) + unat (count - d)]"
      using ps(2) fl p(2) by (simp add: crd_block_def)
    also have "\<dots> = [unat start..<unat start + unat count]"
      using upt_add_eq_append [of "unat start" "unat start + unat d" "unat count - unat d"] le by (simp add: sd cd)
    finally show ?thesis using e ps(3) fl p(4) by (intro exI [of _ "?c # ps"]) simp
  qed
qed

text \<open>Claim C34. Revoking a range of capabilities covers exactly that range: the descriptors handed to the kernel are
  naturally aligned, carry the attributes of the range (the low five bits, which is what
  \<^verbatim>\<open>Crd::attr\<close> reads), and their blocks, in order, are the capabilities from the start to the end of the range. The range
  satisfies \<^const>\<open>range_ok\<close>: it has fewer than \<^verbatim>\<open>2^31\<close> capabilities, the low 32 bits of its start are not zero, and no
  capability of it behind the start has a number that is a multiple of \<^verbatim>\<open>2^32\<close>. For a piece
  that starts at such a number, 0 included, \<^verbatim>\<open>Math::minshift\<close> is undefined (\<^verbatim>\<open>minshift_undefined\<close>). The
  range ends at \<^verbatim>\<open>2^52\<close> at most and has attributes of seven bits, which is what a descriptor holds.\<close>

theorem revoke_covers_range:
  assumes "range_ok (cr_start r) (cr_count r)" "unat (cr_start r) + unat (cr_count r) \<le> 2 ^ 52" "unat (cr_attr r) < 128"
  shows "\<exists>ps. cr_revoke r = Some (Inr ps)
    \<and> concat (map crd_block ps) = [unat (cr_start r)..<unat (cr_start r) + unat (cr_count r)]
    \<and> list_all (\<lambda>p. 2 ^ unat (crd_order p) dvd unat (crd_offset p) \<and> crd_attr p = cr_attr r AND 0x1f) ps"
  using revoke_loop_tiles [of "cr_start r" "cr_count r" "cr_attr r" "[]"] assms by (auto simp: cr_revoke_def list_all_iff)

theorem revoke_covers_range_witness:
  "\<exists>ps. cr_revoke \<lparr>cr_start = 0x101, cr_count = 10, cr_attr = OBJ_ALL, cr_hotspot = NO_HOTSPOT\<rparr> = Some (Inr ps)
    \<and> concat (map crd_block ps) = [0x101..<0x10b]"
proof -
  let ?r = "\<lparr>cr_start = 0x101, cr_count = 10, cr_attr = OBJ_ALL, cr_hotspot = NO_HOTSPOT\<rparr>"
  have "range_ok (cr_start ?r) (cr_count ?r)" "unat (cr_start ?r) + unat (cr_count ?r) \<le> 2 ^ 52" "unat (cr_attr ?r) < 128"
    by (simp_all add: range_ok_def OBJ_ALL_def)
  from revoke_covers_range [OF this] show ?thesis by auto
qed

text \<open>Selectors of different allocations are different: an allocation lies at or behind the old offset, is
  aligned, fits into the space and ends at the new offset.\<close>

lemma capsel_allocate_fresh:
  assumes "capsel_allocate cfg count (2 ^ k) off = Inr (sel, off')" "k < 32" "unat off + 2 ^ k \<le> 2 ^ 32"
  shows "unat off \<le> unat sel \<and> 2 ^ k dvd unat sel \<and> unat off' = unat sel + unat count \<and> unat off' \<le> unat cfg"
proof -
  have r: "sel = round_up off (2 ^ k)" "off' = sel + count" "\<not> sel + count < sel" "sel + count \<le> cfg"
    using assms(1) by (auto simp: capsel_allocate_def round_up_def Let_def not_less split: if_splits)
  have u: "unat sel = (unat off + 2 ^ k - 1) div 2 ^ k * 2 ^ k"
    unfolding r(1) by (rule unat_round_up) (use assms(2,3) in simp_all)
  have "unat off \<le> (unat off + 2 ^ k - 1) div 2 ^ k * 2 ^ k"
  proof -
    define p :: nat where "p = 2 ^ k"
    define y where "y = unat off + p - 1"
    have p: "0 < p" by (simp add: p_def)
    then have "y mod p < p" by simp
    moreover have "y div p * p + y mod p = y" by simp
    ultimately have "y < y div p * p + p" by linarith
    then show ?thesis using p unfolding y_def p_def [symmetric] by linarith
  qed
  moreover have "unat (sel + count) = unat sel + unat count"
    using r(3) unat_plus_if' [of sel count] unat_bound [of count] by (simp add: word_less_nat_alt split: if_splits)
  ultimately show ?thesis using r u by (simp add: word_le_nat_alt)
qed

end
