(* ===== verification/Utcb.thy ===== *)
theory Utcb
  imports Caps
begin

text \<open>
  The user thread control block, the message buffer of every IPC (\<^verbatim>\<open>include/utcb/UtcbHead.h\<close>, \<^verbatim>\<open>UtcbBase.h\<close>,
  \<^verbatim>\<open>UtcbCopy.h\<close>, \<^verbatim>\<open>UtcbFrame.h\<close>), in the copying variant that is compiled in. It is a page of 512 words: five words
  of header, then the message words, where the untyped items grow upwards from the header, the
  typed items downwards from the end of the page, and the saved frames live in the middle around
  the word \<^term>\<open>POS_SLOT\<close>, which has the number of saved untyped words, the layer and the
  number of saved typed words. A copy with overlapping operands or outside of the page is undefined.
\<close>

section \<open>Definitions\<close>

type_synonym utcb = "u64 list"

definition WORDS :: nat where "WORDS = 512"
definition HEAD :: nat where "HEAD = 5"
definition POS_SLOT :: nat where "POS_SLOT = (WORDS - HEAD) div 2"
definition SLOTS :: nat where "SLOTS = WORDS - HEAD"

subsection \<open>The header\<close>

definition mtr :: "utcb \<Rightarrow> u64" where "mtr u = u ! 1"
definition crd_translate :: "utcb \<Rightarrow> u64" where "crd_translate u = u ! 2"
definition crd :: "utcb \<Rightarrow> u64" where "crd u = u ! 3"

definition untyped :: "utcb \<Rightarrow> nat" where
  "untyped u = unat (ucast (mtr u) :: u16)"

definition typed :: "utcb \<Rightarrow> nat" where
  "typed u = unat (ucast (drop_bit 16 (mtr u)) :: u16)"

definition set_untyped :: "u16 \<Rightarrow> utcb \<Rightarrow> utcb" where
  "set_untyped n u = u[1 := (mtr u AND NOT 0xffff) OR ucast n]"

definition set_typed :: "u16 \<Rightarrow> utcb \<Rightarrow> utcb" where
  "set_typed n u = u[1 := (mtr u AND NOT 0xffff0000) OR push_bit 16 (ucast n)]"

definition utcb_reset :: "utcb \<Rightarrow> utcb" where
  "utcb_reset u = u[1 := 0, 3 := 0, 2 := 0]"

subsection \<open>The bookkeeping word\<close>

definition pos_word :: "utcb \<Rightarrow> u64" where
  "pos_word u = u ! (HEAD + POS_SLOT)"

definition set_pos :: "u64 \<Rightarrow> utcb \<Rightarrow> utcb" where
  "set_pos w u = u[HEAD + POS_SLOT := w]"

definition layer :: "utcb \<Rightarrow> nat" where
  "layer u = unat (drop_bit 12 (pos_word u) AND 0xf)"

definition untyped_count :: "utcb \<Rightarrow> nat" where
  "untyped_count u = unat (pos_word u AND 0xfff)"

definition typed_count :: "utcb \<Rightarrow> nat" where
  "typed_count u = unat (ucast (drop_bit 16 (pos_word u)) :: u32)"

text \<open>The difference is an unsigned 32-bit number.\<close>

definition untyped_start :: "utcb \<Rightarrow> int" where
  "untyped_start u = (int POS_SLOT - int (untyped_count u)) mod 2 ^ 32"

definition typed_start :: "utcb \<Rightarrow> nat" where
  "typed_start u = POS_SLOT + 1 + typed_count u"

definition add_untyped :: "int \<Rightarrow> utcb \<Rightarrow> utcb" where
  "add_untyped n u = set_pos ((pos_word u AND 0xfffff000) OR word_of_int (int (untyped_count u) + n)) u"

definition add_typed_count :: "int \<Rightarrow> utcb \<Rightarrow> utcb" where
  "add_typed_count n u =
     (let t = sint (of_nat (typed_count u) :: u16)
      in set_pos ((pos_word u AND 0xffff) OR scast (push_bit 16 (word_of_int (t + n)) :: u32)) u)"

definition set_layer :: "int \<Rightarrow> utcb \<Rightarrow> utcb res" where
  "set_layer l u =
     (if 0 \<le> l \<and> l \<le> 0xf then Inr (set_pos ((pos_word u AND 0xffff0fff) OR push_bit 12 (word_of_int l)) u)
      else Inl (Throw E_ASSERT))"

definition push_layer :: "utcb \<Rightarrow> utcb res" where
  "push_layer u = set_layer (int (layer u) + 1) u"

definition pop_layer :: "utcb \<Rightarrow> utcb res" where
  "pop_layer u = set_layer (int (layer u) - 1) u"

text \<open>The free slots, computed with unsigned words.\<close>

definition free_typed :: "utcb \<Rightarrow> nat" where
  "free_typed u = unat (of_nat (SLOTS - POS_SLOT - 1) - of_nat (typed_count u) - of_nat (typed u * 2) :: u64) div 2"

definition free_untyped :: "utcb \<Rightarrow> nat" where
  "free_untyped u = unat (of_nat POS_SLOT - of_nat (untyped_count u) - of_nat (untyped u) :: u64)"

subsection \<open>Saving and restoring a frame\<close>

text \<open>\<^verbatim>\<open>memcpy\<close> of \<^term>\<open>n\<close> words within the page.\<close>

definition copy_words :: "int \<Rightarrow> int \<Rightarrow> nat \<Rightarrow> utcb \<Rightarrow> utcb res" where
  "copy_words dst src n u =
     (if 0 \<le> dst \<and> 0 \<le> src \<and> dst + int n \<le> int WORDS \<and> src + int n \<le> int WORDS
         \<and> (n = 0 \<or> dst + int n \<le> src \<or> src + int n \<le> dst)
      then Inr (take (nat dst) u @ take n (drop (nat src) u) @ drop (nat dst + n) u)
      else Inl Undefined)"

definition write_word :: "int \<Rightarrow> u64 \<Rightarrow> utcb \<Rightarrow> utcb res" where
  "write_word i w u = (if 0 \<le> i \<and> i < int WORDS then Inr (u[nat i := w]) else Inl Undefined)"

definition push_frame :: "utcb \<Rightarrow> utcb res" where
  "push_frame u =
     bindR (if layer u > 1 then
         let utcount = HEAD + untyped u; tcount = typed u * 2;
             utbackup = int HEAD + untyped_start u; tbackup = int (HEAD + typed_start u)
         in bindR (copy_words (utbackup - int utcount) 0 utcount u) (\<lambda>u.
            bindR (write_word (utbackup - int (utcount + 1)) (of_nat utcount) u) (\<lambda>u.
            bindR (copy_words tbackup (int WORDS - int tcount) tcount u) (\<lambda>u.
            bindR (write_word (tbackup + int tcount) (of_nat tcount) u) (\<lambda>u.
            Inr (add_typed_count (int tcount + 1) (add_untyped (int utcount + 1) u))))))
       else Inr u) (\<lambda>u. Inr (utcb_reset u))"

definition pop_frame :: "utcb \<Rightarrow> utcb res" where
  "pop_frame u =
     (if layer u > 1 then
        let utbackup = int HEAD + untyped_start u; tbackup = int (HEAD + typed_start u)
        in if 0 \<le> utbackup \<and> utbackup < int WORDS \<and> tbackup - 1 < int WORDS then
             let utcount = unat (ucast (u ! nat utbackup) :: u32); tcount = unat (ucast (u ! nat (tbackup - 1)) :: u32)
             in bindR (copy_words 0 (utbackup + 1) utcount u) (\<lambda>u.
                bindR (copy_words (int WORDS - int tcount) (tbackup - int tcount - 1) tcount u) (\<lambda>u.
                Inr (add_typed_count (- (int tcount + 1)) (add_untyped (- (int utcount + 1)) u))))
           else Inl Undefined
      else Inr u)"

text \<open>The constructors and destructors of \<^verbatim>\<open>UtcbFrameRef\<close> and \<^verbatim>\<open>UtcbFrame\<close>.\<close>

definition frame_new :: "utcb \<Rightarrow> utcb res" where
  "frame_new u = bindR (push_layer u) push_frame"

definition frame_delete :: "utcb \<Rightarrow> utcb res" where
  "frame_delete u = bindR (pop_frame u) pop_layer"

subsection \<open>Writing items\<close>

definition check_untyped_write :: "nat \<Rightarrow> utcb \<Rightarrow> unit res" where
  "check_untyped_write n u = (if free_untyped u < n then Inl (Throw E_CAPACITY) else Inr ())"

definition check_typed_write :: "nat \<Rightarrow> utcb \<Rightarrow> unit res" where
  "check_typed_write n u = (if free_typed u < n then Inl (Throw E_CAPACITY) else Inr ())"

text \<open>An object of \<^term>\<open>length ws\<close> whole words as untyped item. Objects whose size is not a multiple of the word
  size, which leave a part of their last word alone, are not modelled.\<close>

definition put_words :: "u64 list \<Rightarrow> utcb \<Rightarrow> utcb res" where
  "put_words ws u =
     bindR (check_untyped_write (length ws) u) (\<lambda>_.
     if HEAD + untyped u + length ws \<le> WORDS
     then Inr (set_untyped (of_nat (untyped u + length ws))
            (take (HEAD + untyped u) u @ ws @ drop (HEAD + untyped u + length ws) u))
     else Inl Undefined)"

definition TYPE_DEL :: u64 where "TYPE_DEL = 1"

text \<open>A typed item: its descriptor and the auxiliary word.\<close>

definition del_aux :: "u64 \<Rightarrow> u64 \<Rightarrow> u64" where
  "del_aux flags hotspot = TYPE_DEL OR flags OR push_bit 12 hotspot"

definition add_typed :: "u64 \<Rightarrow> u64 \<Rightarrow> utcb \<Rightarrow> utcb res" where
  "add_typed c aux u =
     bindR (check_typed_write 1 u) (\<lambda>_.
     bindR (write_word (int WORDS - int (typed u * 2 + 1)) aux u) (\<lambda>u'.
     bindR (write_word (int WORDS - int (typed u * 2 + 2)) c u') (\<lambda>u'.
     Inr (set_typed (of_nat (typed u + 1)) u'))))"

definition translate_crd :: "u64 \<Rightarrow> utcb \<Rightarrow> utcb res" where
  "translate_crd c u = add_typed c 0 u"

definition delegate_crd :: "u64 \<Rightarrow> u64 \<Rightarrow> u64 \<Rightarrow> utcb \<Rightarrow> utcb res" where
  "delegate_crd c hotspot flags u =
     add_typed c (del_aux flags (if hotspot \<noteq> NO_HOTSPOT then hotspot else crd_offset c)) u"

partial_function (option) translate_loop :: "u32 \<Rightarrow> u64 \<Rightarrow> u64 \<Rightarrow> utcb \<Rightarrow> utcb res option" where
  "translate_loop attr start count u =
     (if count > 0 then
        (case cap_piece start count of
           Inl e \<Rightarrow> Some (Inl e)
         | Inr (s, d) \<Rightarrow> (case translate_crd (crd_make start s attr) u of
               Inl e \<Rightarrow> Some (Inl e)
             | Inr u' \<Rightarrow> translate_loop attr (start + d) (count - d) u'))
      else Some (Inr u))"

definition translate_range :: "caprange \<Rightarrow> utcb \<Rightarrow> utcb res option" where
  "translate_range r u = translate_loop (cr_attr r) (cr_start r) (cr_count r) u"

partial_function (option) delegate_loop ::
    "u32 \<Rightarrow> u64 \<Rightarrow> u64 \<Rightarrow> u64 \<Rightarrow> u64 \<Rightarrow> utcb \<Rightarrow> utcb res option" where
  "delegate_loop attr flags start hotspot count u =
     (if count > 0 then
        (case cap_piece (start OR hotspot) count of
           Inl e \<Rightarrow> Some (Inl e)
         | Inr (s, d) \<Rightarrow> (case add_typed (crd_make start s attr) (del_aux flags hotspot) u of
               Inl e \<Rightarrow> Some (Inl e)
             | Inr u' \<Rightarrow> delegate_loop attr flags (start + d) (hotspot + d) (count - d) u'))
      else Some (Inr u))"

definition delegate_range :: "caprange \<Rightarrow> u64 \<Rightarrow> utcb \<Rightarrow> utcb res option" where
  "delegate_range r flags u = delegate_loop (cr_attr r) flags (cr_start r) (hotspot_or_start r) (cr_count r) u"

definition utcb_clear :: "utcb \<Rightarrow> utcb" where
  "utcb_clear u = u[1 := 0]"

definition set_delegation_window :: "u64 \<Rightarrow> utcb \<Rightarrow> utcb" where
  "set_delegation_window c u = u[3 := c]"

definition set_translation_window :: "u64 \<Rightarrow> utcb \<Rightarrow> utcb" where
  "set_translation_window c u = u[2 := c]"

subsection \<open>Reading items\<close>

text \<open>The read positions of a frame reference.\<close>

record frame_pos =
  upos :: nat
  tpos :: nat

definition check_untyped_read :: "nat \<Rightarrow> frame_pos \<Rightarrow> utcb \<Rightarrow> unit res" where
  "check_untyped_read n f u = (if upos f + n > untyped u then Inl (Throw E_UTCB_UNTYPED) else Inr ())"

definition check_typed_read :: "nat \<Rightarrow> frame_pos \<Rightarrow> utcb \<Rightarrow> unit res" where
  "check_typed_read n f u = (if tpos f + n > typed u then Inl (Throw E_UTCB_TYPED) else Inr ())"

definition get_words :: "nat \<Rightarrow> frame_pos \<Rightarrow> utcb \<Rightarrow> (u64 list \<times> frame_pos) res" where
  "get_words n f u =
     bindR (check_untyped_read n f u) (\<lambda>_.
     if HEAD + upos f + n \<le> WORDS
     then Inr (take n (drop (HEAD + upos f) u), f\<lparr>upos := upos f + n\<rparr>) else Inl Undefined)"

definition get_typed :: "frame_pos \<Rightarrow> utcb \<Rightarrow> ((u64 \<times> u64) \<times> frame_pos) res" where
  "get_typed f u =
     bindR (check_typed_read 1 f u) (\<lambda>_.
     if tpos f * 2 + 2 \<le> WORDS
     then Inr ((u ! (WORDS - (tpos f * 2 + 2)), u ! (WORDS - (tpos f * 2 + 1))), f\<lparr>tpos := tpos f + 1\<rparr>)
     else Inl Undefined)"

definition get_translated :: "nat \<Rightarrow> frame_pos \<Rightarrow> utcb \<Rightarrow> (u64 \<times> frame_pos) res" where
  "get_translated order f u =
     bindR (get_typed f u) (\<lambda>((c, aux), f).
     if crd_is_null c \<or> aux AND TYPE_DEL \<noteq> 0 \<or> unat (crd_order c) \<noteq> order then Inl (Throw E_ARGS_INVALID) else Inr (c, f))"

definition get_delegated :: "nat \<Rightarrow> frame_pos \<Rightarrow> utcb \<Rightarrow> (u64 \<times> frame_pos) res" where
  "get_delegated order f u =
     bindR (get_typed f u) (\<lambda>((c, aux), f).
     if crd_is_null c \<or> aux AND TYPE_DEL = 0 \<or> unat (crd_order c) \<noteq> order then Inl (Throw E_ARGS_INVALID) else Inr (c, f))"

definition finish_input :: "frame_pos \<Rightarrow> utcb \<Rightarrow> utcb res" where
  "finish_input f u =
     (if upos f < untyped u \<or> tpos f < typed u then Inl (Throw E_ARGS_INVALID) else Inr (utcb_clear u))"


subsection \<open>Frames inside frames\<close>

text \<open>What the holder of a frame does with it: write items, clear or reset it, set the receive windows, and
  use another frame in the meantime.\<close>

datatype frame_op = PutWords "u64 list" | AddTyped u64 u64 | Clear | Reset | DelWindow u64 | XltWindow u64
  | Nested "frame_op list"

fun run_op :: "frame_op \<Rightarrow> utcb \<Rightarrow> utcb res" and run_ops :: "frame_op list \<Rightarrow> utcb \<Rightarrow> utcb res" where
  "run_op (PutWords ws) u = put_words ws u"
| "run_op (AddTyped c aux) u = add_typed c aux u"
| "run_op Clear u = Inr (utcb_clear u)"
| "run_op Reset u = Inr (utcb_reset u)"
| "run_op (DelWindow c) u = Inr (set_delegation_window c u)"
| "run_op (XltWindow c) u = Inr (set_translation_window c u)"
| "run_op (Nested ops) u = bindR (frame_new u) (\<lambda>u. bindR (run_ops ops u) frame_delete)"
| "run_ops [] u = Inr u"
| "run_ops (op # ops) u = bindR (run_op op u) (run_ops ops)"

text \<open>Room for saving the current frame: the copies do not overlap and the counters stay in range.\<close>

definition frame_room :: "utcb \<Rightarrow> bool" where
  "frame_room u \<longleftrightarrow> untyped_count u + 2 * untyped u + 5 \<le> 253 \<and> untyped_count u + untyped u + 6 \<le> 253
     \<and> typed_count u + 4 * typed u \<le> 253 \<and> typed_count u + 2 * typed u + 1 \<le> 253
     \<and> 1 \<le> layer u \<and> layer u < 15"

fun roomy_op :: "frame_op \<Rightarrow> utcb \<Rightarrow> bool" and roomy_ops :: "frame_op list \<Rightarrow> utcb \<Rightarrow> bool" where
  "roomy_op (Nested ops) u = (frame_room u \<and> (case frame_new u of Inr u' \<Rightarrow> roomy_ops ops u' | Inl _ \<Rightarrow> True))"
| "roomy_op op u = True"
| "roomy_ops [] u = True"
| "roomy_ops (op # ops) u = (roomy_op op u \<and> (case run_op op u of Inr u' \<Rightarrow> roomy_ops ops u' | Inl _ \<Rightarrow> True))"

definition utcb_wf :: "utcb \<Rightarrow> bool" where
  "utcb_wf u \<longleftrightarrow> length u = 512 \<and> unat (pos_word u) < 2 ^ 32
     \<and> untyped u + untyped_count u \<le> 253 \<and> 2 * typed u + typed_count u \<le> 253"

text \<open>The saved frames and the bookkeeping word are the same.\<close>

definition same_middle :: "utcb \<Rightarrow> utcb \<Rightarrow> bool" where
  "same_middle u v \<longleftrightarrow> length v = length u
     \<and> (\<forall>i. 258 - untyped_count u \<le> i \<longrightarrow> i < 259 + typed_count u \<longrightarrow> v ! i = u ! i)"

text \<open>The content of the current frame: header, untyped items and typed items.\<close>

definition same_frame :: "utcb \<Rightarrow> utcb \<Rightarrow> bool" where
  "same_frame u v \<longleftrightarrow> (\<forall>i < HEAD + untyped u. v ! i = u ! i) \<and> (\<forall>i < 512. 512 - 2 * typed u \<le> i \<longrightarrow> v ! i = u ! i)"

section \<open>Lemmas\<close>

lemmas utcb_consts = WORDS_def HEAD_def POS_SLOT_def SLOTS_def

lemma untyped_start_small: "untyped_count u \<le> 253 \<Longrightarrow> untyped_start u = 253 - int (untyped_count u)"
  by (simp add: untyped_start_def utcb_consts)

definition saved :: "utcb \<Rightarrow> utcb \<Rightarrow> bool" where
  "saved u u1 \<longleftrightarrow> length u1 = 512
     \<and> untyped_count u1 = untyped_count u + untyped u + 6 \<and> typed_count u1 = typed_count u + 2 * typed u + 1
     \<and> u1 ! (252 - untyped_count u - untyped u) = of_nat (5 + untyped u)
     \<and> (\<forall>i < 5 + untyped u. u1 ! (253 - untyped_count u - untyped u + i) = u ! i)
     \<and> (\<forall>i. 258 - untyped_count u \<le> i \<longrightarrow> i < 259 + typed_count u \<longrightarrow> i \<noteq> 258 \<longrightarrow> u1 ! i = u ! i)
     \<and> (\<forall>i < 2 * typed u. u1 ! (259 + typed_count u + i) = u ! (512 - 2 * typed u + i))
     \<and> u1 ! (259 + typed_count u + 2 * typed u) = of_nat (2 * typed u)"

definition untyped_words :: "utcb \<Rightarrow> u64 list" where
  "untyped_words u = take (untyped u) (drop 5 u)"

definition typed_items :: "utcb \<Rightarrow> (u64 \<times> u64) list" where
  "typed_items u = map (\<lambda>i. (u ! (512 - (i * 2 + 2)), u ! (512 - (i * 2 + 1)))) [0..<typed u]"

fun op_words :: "frame_op \<Rightarrow> u64 list" where
  "op_words (PutWords ws) = ws"
| "op_words op = []"

fun op_typed :: "frame_op \<Rightarrow> (u64 \<times> u64) list" where
  "op_typed (AddTyped c aux) = [(c, aux)]"
| "op_typed op = []"

fun op_keeps :: "frame_op \<Rightarrow> bool" where
  "op_keeps Clear = False"
| "op_keeps Reset = False"
| "op_keeps op = True"

subsection \<open>Nesting\<close>

subsection \<open>The bookkeeping word\<close>

lemma word_bits_below: "unat (w :: u64) < 2 ^ k \<Longrightarrow> bit w i \<Longrightarrow> i < k"
  using unat_less_pow2_iff [of w k] by (meson not_le)

lemma of_nat_bits_below: "n < 2 ^ k \<Longrightarrow> k \<le> 64 \<Longrightarrow> bit (of_nat n :: u64) i \<Longrightarrow> i < k"
proof -
  assume n: "n < 2 ^ k" and k: "k \<le> 64" and b: "bit (of_nat n :: u64) i"
  have "(2 :: nat) ^ k \<le> 2 ^ 64" using k by (intro power_increasing) simp_all
  then have "unat (of_nat n :: u64) = n" using n by (simp add: unat_of_nat)
  then show ?thesis using word_bits_below [of "of_nat n" k i] n b by simp
qed

lemma pos_masks:
  "(0xfffff000 :: u64) = push_bit 12 (mask 20)" "(0xfff :: u64) = mask 12" "(0xffff :: u64) = mask 16" "(0xf :: u64) = mask 4"
  "(0xffff0fff :: u64) = mask 12 OR push_bit 16 (mask 16)" "(0xffff :: u64) = mask 16"
  by code_simp+

lemma pos_set_untyped:
  fixes w :: u64
  assumes "unat w < 2 ^ 32" "n < 4096"
  defines "w' \<equiv> (w AND 0xfffff000) OR of_nat n"
  shows "w' AND 0xfff = of_nat n" "drop_bit 12 w' = drop_bit 12 w" "unat w' < 2 ^ 32"
proof -
  have n: "bit (of_nat n :: u64) i \<Longrightarrow> i < 12" for i using of_nat_bits_below [of n 12 i] assms(2) by simp
  have w: "bit w i \<Longrightarrow> i < 32" for i using word_bits_below [OF assms(1)] by blast
  have b: "bit w' i \<longleftrightarrow> (12 \<le> i \<and> bit w i) \<or> bit (of_nat n :: u64) i" for i
    using w [of i] unfolding w'_def pos_masks by (auto simp: bit_and_iff bit_or_iff bit_push_bit_iff bit_mask_iff)
  show "w' AND 0xfff = of_nat n" unfolding pos_masks
    by (rule bit_word_eqI) (use b n in \<open>auto simp: bit_and_iff bit_mask_iff\<close>)
  show "drop_bit 12 w' = drop_bit 12 w"
    by (rule bit_word_eqI) (use b n in \<open>fastforce simp: bit_drop_bit_eq\<close>)
  show "unat w' < 2 ^ 32" using b n w unfolding unat_less_pow2_iff by fastforce
qed

lemma pos_set_layer:
  fixes w :: u64
  assumes "unat w < 2 ^ 32" "l < 16"
  defines "w' \<equiv> (w AND 0xffff0fff) OR push_bit 12 (of_nat l)"
  shows "w' AND 0xfff = w AND 0xfff" "drop_bit 12 w' AND 0xf = of_nat l" "drop_bit 16 w' = drop_bit 16 w" "unat w' < 2 ^ 32"
proof -
  have n: "bit (of_nat l :: u64) i \<Longrightarrow> i < 4" for i using of_nat_bits_below [of l 4 i] assms(2) by simp
  have w: "bit w i \<Longrightarrow> i < 32" for i using word_bits_below [OF assms(1)] by blast
  have b: "bit w' i \<longleftrightarrow> (i < 12 \<or> 16 \<le> i) \<and> bit w i \<or> 12 \<le> i \<and> i < 64 \<and> bit (of_nat l :: u64) (i - 12)" for i
    using w [of i] unfolding w'_def pos_masks by (auto simp: bit_and_iff bit_or_iff bit_push_bit_iff bit_mask_iff)
  show "w' AND 0xfff = w AND 0xfff" unfolding pos_masks
    by (rule bit_word_eqI) (use b in \<open>auto simp: bit_and_iff bit_mask_iff\<close>)
  show "drop_bit 12 w' AND 0xf = of_nat l" unfolding pos_masks
    by (rule bit_word_eqI) (use b n in \<open>fastforce simp: bit_and_iff bit_drop_bit_eq bit_mask_iff\<close>)
  show "drop_bit 16 w' = drop_bit 16 w"
    by (rule bit_word_eqI) (use b n in \<open>fastforce simp: bit_drop_bit_eq\<close>)
  show "unat w' < 2 ^ 32" using b n w unfolding unat_less_pow2_iff by fastforce
qed

lemma pos_set_typed:
  fixes w :: u64
  assumes "n < 0x8000"
  defines "w' \<equiv> (w AND 0xffff) OR scast (push_bit 16 (of_nat n) :: u32)"
  shows "w' AND 0xffff = w AND 0xffff" "drop_bit 16 w' = of_nat n" "unat w' < 2 ^ 32"
proof -
  have n: "bit (of_nat n :: u64) i \<Longrightarrow> i < 15" for i using of_nat_bits_below [of n 15 i] assms(1) by simp
  have c: "bit (of_nat n :: u32) i = bit (of_nat n :: u64) i" if "i < 32" for i
  proof -
    have "(of_nat n :: u32) = ucast (of_nat n :: u64)"
      using assms(1) by (simp add: word_unat_eq_iff unat_ucast unat_of_nat)
    then show ?thesis using that by (simp add: bit_ucast_iff)
  qed
  have s: "bit (scast (push_bit 16 (of_nat n) :: u32) :: u64) i \<longleftrightarrow> 16 \<le> i \<and> i < 31 \<and> bit (of_nat n :: u64) (i - 16)" if "i < 64" for i
  proof -
    have "bit (scast (push_bit 16 (of_nat n) :: u32) :: u64) i \<longleftrightarrow> bit (push_bit 16 (of_nat n) :: u32) (min i 31)"
      using that by (simp add: bit_signed_iff min_def)
    also have "\<dots> \<longleftrightarrow> 16 \<le> min i 31 \<and> bit (of_nat n :: u32) (min i 31 - 16)"
      by (auto simp: bit_push_bit_iff)
    also have "\<dots> \<longleftrightarrow> 16 \<le> i \<and> i < 31 \<and> bit (of_nat n :: u64) (i - 16)"
      using c [of "min i 31 - 16"] n [of "min i 31 - 16"] by (auto simp: min_def)
    finally show ?thesis .
  qed
  have b: "bit w' i \<longleftrightarrow> (i < 16 \<and> bit w i) \<or> (16 \<le> i \<and> i < 31 \<and> bit (of_nat n :: u64) (i - 16))" for i
  proof -
    define z :: u64 where "z = scast (push_bit 16 (of_nat n) :: u32)"
    have z: "bit z i \<longleftrightarrow> 16 \<le> i \<and> i < 31 \<and> bit (of_nat n :: u64) (i - 16)"
    proof (cases "i < 64")
      case True
      then show ?thesis unfolding z_def by (rule s)
    next
      case False
      then show ?thesis using bit_imp_le_length [of z i] by auto
    qed
    have "bit w' i \<longleftrightarrow> (bit w i \<and> bit (mask 16 :: u64) i) \<or> bit z i"
      unfolding w'_def z_def pos_masks(3) by (simp only: bit_or_iff bit_and_iff)
    also have "bit (mask 16 :: u64) i \<longleftrightarrow> i < 16" by (auto simp: bit_mask_iff)
    finally show ?thesis unfolding z by blast
  qed
  show "w' AND 0xffff = w AND 0xffff" unfolding pos_masks(3)
    by (rule bit_word_eqI) (simp only: bit_and_iff b bit_mask_iff, blast dest: leD)
  show "drop_bit 16 w' = of_nat n"
  proof (rule bit_word_eqI)
    fix i assume "i < LENGTH(64)"
    show "bit (drop_bit 16 w') i = bit (of_nat n :: u64) i"
      using n [of i] unfolding bit_drop_bit_eq comp_def b by fastforce
  qed
  show "unat w' < 2 ^ 32" unfolding unat_less_pow2_iff b by auto
qed

lemma set_pos_simps [simp]:
  "length (set_pos w u) = length u"
  "i \<noteq> 258 \<Longrightarrow> set_pos w u ! i = u ! i"
  "length u = 512 \<Longrightarrow> pos_word (set_pos w u) = w"
  by (simp_all add: set_pos_def pos_word_def utcb_consts)

lemma set_pos_header [simp]: "untyped (set_pos w u) = untyped u" "typed (set_pos w u) = typed u"
  by (simp_all add: untyped_def typed_def mtr_def)

text \<open>How the three counters change.\<close>

lemma add_untyped_fields:
  assumes "length u = 512" "unat (pos_word u) < 2 ^ 32" "int (untyped_count u) + n = int m" "m < 4096"
  shows "untyped_count (add_untyped n u) = m" "layer (add_untyped n u) = layer u"
    "typed_count (add_untyped n u) = typed_count u" "unat (pos_word (add_untyped n u)) < 2 ^ 32"
proof -
  have w: "pos_word (add_untyped n u) = (pos_word u AND 0xfffff000) OR of_nat m"
    using assms(1,3) by (simp add: add_untyped_def)
  note p = pos_set_untyped [OF assms(2,4), folded w]
  show "untyped_count (add_untyped n u) = m" unfolding untyped_count_def p(1) using assms(4) by (simp add: unat_of_nat)
  show "layer (add_untyped n u) = layer u" by (simp add: layer_def p(2))
  have "drop_bit 16 x = drop_bit 4 (drop_bit 12 x)" for x :: u64 by (simp add: drop_bit_drop_bit)
  then show "typed_count (add_untyped n u) = typed_count u" by (simp only: typed_count_def p(2))
  show "unat (pos_word (add_untyped n u)) < 2 ^ 32" by (rule p(3))
qed

lemma mask16_parts:
  fixes v w :: u64
  assumes "v AND 0xffff = w AND 0xffff"
  shows "v AND 0xfff = w AND 0xfff" "drop_bit 12 v AND 0xf = drop_bit 12 w AND 0xf"
proof -
  have m: "bit (x AND 0xffff) i \<longleftrightarrow> bit x i \<and> i < 16" for x :: u64 and i
    unfolding pos_masks(3) by (auto simp: bit_and_iff bit_mask_iff)
  have b: "bit v i = bit w i" if "i < 16" for i using that m [of v i] m [of w i] assms by simp
  show "v AND 0xfff = w AND 0xfff" unfolding pos_masks(2)
    by (rule bit_word_eqI) (use b in \<open>auto simp: bit_and_iff bit_mask_iff\<close>)
  show "drop_bit 12 v AND 0xf = drop_bit 12 w AND 0xf" unfolding pos_masks(4)
    by (rule bit_word_eqI) (use b in \<open>auto simp: bit_and_iff bit_mask_iff bit_drop_bit_eq\<close>)
qed

lemma add_typed_fields:
  assumes "length u = 512" "typed_count u < 0x8000" "int (typed_count u) + n = int m" "m < 0x8000"
  shows "typed_count (add_typed_count n u) = m" "layer (add_typed_count n u) = layer u"
    "untyped_count (add_typed_count n u) = untyped_count u" "unat (pos_word (add_typed_count n u)) < 2 ^ 32"
proof -
  have s: "sint (of_nat (typed_count u) :: u16) = int (typed_count u)"
    using assms(2) by (simp add: signed_of_nat signed_take_bit_int_eq_self)
  have e: "(word_of_int (int (typed_count u) + n) :: u32) = of_nat m" unfolding assms(3) by (rule of_int_of_nat_eq)
  have w: "pos_word (add_typed_count n u) = (pos_word u AND 0xffff) OR scast (push_bit 16 (of_nat m) :: u32)"
    by (simp only: add_typed_count_def Let_def s e set_pos_simps(3) [OF assms(1)])
  note p = pos_set_typed [OF assms(4), of "pos_word u", folded w]
  note q = mask16_parts [OF p(1)]
  show "typed_count (add_typed_count n u) = m" unfolding typed_count_def p(2) using assms(4) by (simp add: unat_ucast unat_of_nat)
  show "layer (add_typed_count n u) = layer u" by (simp add: layer_def q(2))
  show "untyped_count (add_typed_count n u) = untyped_count u" by (simp add: untyped_count_def q(1))
  show "unat (pos_word (add_typed_count n u)) < 2 ^ 32" by (rule p(3))
qed

lemma set_layer_fields:
  assumes "length u = 512" "unat (pos_word u) < 2 ^ 32" "l = int m" "m < 16"
  obtains u' where "set_layer l u = Inr u'" "layer u' = m" "untyped_count u' = untyped_count u" "typed_count u' = typed_count u"
    "unat (pos_word u') < 2 ^ 32" "length u' = 512" "\<And>i. i \<noteq> 258 \<Longrightarrow> u' ! i = u ! i"
proof -
  define w where "w = (pos_word u AND 0xffff0fff) OR push_bit 12 (of_nat m)"
  let ?u = "set_pos w u"
  note p = pos_set_layer [OF assms(2,4), folded w_def]
  have "set_layer l u = Inr ?u" using assms(3,4) by (simp add: set_layer_def w_def)
  moreover have "layer ?u = m" using assms(1,4) by (simp add: layer_def p(2) unat_of_nat)
  moreover have "untyped_count ?u = untyped_count u" using assms(1) by (simp add: untyped_count_def p(1))
  moreover have "typed_count ?u = typed_count u" using assms(1) by (simp add: typed_count_def p(3))
  moreover have "unat (pos_word ?u) < 2 ^ 32" using assms(1) p(4) by simp
  ultimately show thesis using that [of ?u] assms(1) by simp
qed

text \<open>The bookkeeping word is determined by the three counters.\<close>

lemma pos_word_eqI:
  assumes "unat (pos_word u) < 2 ^ 32" "unat (pos_word v) < 2 ^ 32" "untyped_count u = untyped_count v"
    "layer u = layer v" "typed_count u = typed_count v"
  shows "pos_word u = pos_word v"
proof (rule bit_word_eqI)
  fix i assume "i < LENGTH(64)"
  have a: "pos_word u AND mask 12 = pos_word v AND mask 12"
    using assms(3) unfolding untyped_count_def pos_masks(2) by (simp only: word_unat_eq_iff)
  have b: "drop_bit 12 (pos_word u) AND mask 4 = drop_bit 12 (pos_word v) AND mask 4"
    using assms(4) unfolding layer_def pos_masks(4) by (simp only: word_unat_eq_iff)
  have c: "(ucast (drop_bit 16 (pos_word u)) :: u32) = ucast (drop_bit 16 (pos_word v))"
    using assms(5) unfolding typed_count_def by (simp only: word_unat_eq_iff)
  have bits: "bit (pos_word u AND mask 12) i = bit (pos_word v AND mask 12) i"
    "bit (drop_bit 12 (pos_word u) AND mask 4) (i - 12) = bit (drop_bit 12 (pos_word v) AND mask 4) (i - 12)"
    "bit (ucast (drop_bit 16 (pos_word u)) :: u32) (i - 16) = bit (ucast (drop_bit 16 (pos_word v)) :: u32) (i - 16)"
    using a b c by simp_all
  have hi: "32 \<le> i \<Longrightarrow> \<not> bit (pos_word u) i \<and> \<not> bit (pos_word v) i"
    using word_bits_below [OF assms(1), of i] word_bits_below [OF assms(2), of i] by auto
  consider "i < 12" | "12 \<le> i" "i < 16" | "16 \<le> i" "i < 32" | "32 \<le> i" by linarith
  then show "bit (pos_word u) i = bit (pos_word v) i"
    using bits hi by cases (auto simp: bit_and_iff bit_mask_iff bit_drop_bit_eq bit_ucast_iff)
qed

subsection \<open>Saving and restoring\<close>

lemma copy_words_ok:
  assumes "length u = 512" "d + n \<le> 512" "s + n \<le> 512" "n = 0 \<or> d + n \<le> s \<or> s + n \<le> d"
  obtains u' where "copy_words (int d) (int s) n u = Inr u'" "length u' = 512"
    "\<And>i. i < 512 \<Longrightarrow> u' ! i = (if d \<le> i \<and> i < d + n then u ! (s + (i - d)) else u ! i)"
proof
  let ?u = "take d u @ take n (drop s u) @ drop (d + n) u"
  have c: "0 \<le> int d \<and> 0 \<le> int s \<and> int d + int n \<le> int WORDS \<and> int s + int n \<le> int WORDS
      \<and> (n = 0 \<or> int d + int n \<le> int s \<or> int s + int n \<le> int d)"
    using assms(2-4) by (auto simp: WORDS_def)
  show "copy_words (int d) (int s) n u = Inr ?u"
    unfolding copy_words_def if_P [OF c] nat_int by (rule refl)
  show "length ?u = 512" using assms by simp
  fix i assume "i < (512 :: nat)"
  then show "?u ! i = (if d \<le> i \<and> i < d + n then u ! (s + (i - d)) else u ! i)"
    using assms by (auto simp: nth_append)
qed

lemma write_word_ok: "i < 512 \<Longrightarrow> write_word (int i) w u = Inr (u[i := w])"
  by (simp add: write_word_def WORDS_def)

text \<open>The facts about a saved frame: \<^term>\<open>u\<close> before, \<^term>\<open>u1\<close> after.\<close>

lemma reset_fields:
  assumes "length u = 512"
  shows "untyped (utcb_reset u) = 0" "typed (utcb_reset u) = 0" "pos_word (utcb_reset u) = pos_word u"
    "length (utcb_reset u) = 512" "\<And>i. 5 \<le> i \<Longrightarrow> utcb_reset u ! i = u ! i"
  using assms by (simp_all add: utcb_reset_def untyped_def typed_def mtr_def pos_word_def utcb_consts)

lemma fields_cong: "pos_word u = pos_word v \<Longrightarrow> untyped_count u = untyped_count v \<and> layer u = layer v \<and> typed_count u = typed_count v"
  by (simp add: untyped_count_def layer_def typed_count_def)

lemma push_frame_saves:
  assumes u: "length u = 512" "unat (pos_word u) < 2 ^ 32" "1 < layer u"
    and r: "untyped_count u + 2 * untyped u + 5 \<le> 253" "untyped_count u + untyped u + 6 \<le> 253"
      "typed_count u + 4 * typed u \<le> 253" "typed_count u + 2 * typed u + 1 \<le> 253"
  obtains u1 where "push_frame u = Inr u1" "saved u u1" "unat (pos_word u1) < 2 ^ 32" "layer u1 = layer u"
    "untyped u1 = 0" "typed u1 = 0"
proof -
  define ut t uc tc where "ut = untyped u" and "t = 2 * typed u" and "uc = untyped_count u" and "tc = typed_count u"
  note r' = r [folded ut_def uc_def tc_def]
  have rt: "tc + 2 * t \<le> 253" "tc + t + 1 \<le> 253" using r(3,4) by (simp_all add: t_def tc_def)
  have us: "int HEAD + untyped_start u = int (258 - uc)" using r'(1) by (simp add: untyped_start_small uc_def [symmetric] utcb_consts)
  have e1: "int (258 - uc) - int (HEAD + ut) = int (253 - uc - ut)" using r'(1) by (simp add: utcb_consts)
  have e2: "int (258 - uc) - int (HEAD + ut + 1) = int (252 - uc - ut)" using r'(2) by (simp add: utcb_consts)
  have ts: "int (HEAD + typed_start u) = int (259 + tc)" by (simp add: typed_start_def tc_def utcb_consts)
  have e3: "int WORDS - int t = int (512 - t)" using rt by (simp add: WORDS_def)
  have e4: "int (259 + tc) + int t = int (259 + tc + t)" by simp
  obtain v1 where v1: "copy_words (int (253 - uc - ut)) (int 0) (HEAD + ut) u = Inr v1" "length v1 = 512"
    "\<And>i. i < 512 \<Longrightarrow> v1 ! i = (if 253 - uc - ut \<le> i \<and> i < 253 - uc - ut + (HEAD + ut) then u ! (0 + (i - (253 - uc - ut))) else u ! i)"
    by (rule copy_words_ok [OF u(1), of "253 - uc - ut" "HEAD + ut" 0]) (use r'(1) in \<open>simp_all add: utcb_consts\<close>)
  define v2 where "v2 = v1[252 - uc - ut := of_nat (HEAD + ut)]"
  have v2: "write_word (int (252 - uc - ut)) (of_nat (HEAD + ut)) v1 = Inr v2" "length v2 = 512"
    unfolding v2_def by (rule write_word_ok) (use v1(2) in simp_all)
  have nov: "259 + tc + t \<le> 512 - t" using rt by linarith
  obtain v3 where v3: "copy_words (int (259 + tc)) (int (512 - t)) t v2 = Inr v3" "length v3 = 512"
    "\<And>i. i < 512 \<Longrightarrow> v3 ! i = (if 259 + tc \<le> i \<and> i < 259 + tc + t then v2 ! (512 - t + (i - (259 + tc))) else v2 ! i)"
    by (rule copy_words_ok [OF v2(2), of "259 + tc" t "512 - t"]) (use rt nov in simp_all)
  define v4 where "v4 = v3[259 + tc + t := of_nat t]"
  have v4: "write_word (int (259 + tc + t)) (of_nat t) v3 = Inr v4" "length v4 = 512"
    unfolding v4_def by (rule write_word_ok) (use rt v3(2) in simp_all)
  have n2: "v2 ! i = u ! i" if "258 - uc \<le> i" "i < 512" for i
    using that v1(3) r'(1) by (simp add: v2_def utcb_consts)
  have n4: "v4 ! i = (if i = 259 + tc + t then of_nat t else if 259 + tc \<le> i \<and> i < 259 + tc + t then u ! (512 - t + (i - (259 + tc)))
      else if i = 252 - uc - ut then of_nat (HEAD + ut)
      else if 253 - uc - ut \<le> i \<and> i < 258 - uc then u ! (i - (253 - uc - ut)) else u ! i)" if i: "i < 512" for i
  proof -
    have h4: "v4 ! i = (if i = 259 + tc + t then of_nat t else v3 ! i)" using v3(2) i by (simp add: v4_def nth_list_update)
    have h3: "v3 ! i = (if 259 + tc \<le> i \<and> i < 259 + tc + t then u ! (512 - t + (i - (259 + tc))) else v2 ! i)"
    proof (cases "259 + tc \<le> i \<and> i < 259 + tc + t")
      case True
      then have "258 - uc \<le> 512 - t + (i - (259 + tc))" "512 - t + (i - (259 + tc)) < 512" using rt by linarith+
      then show ?thesis using v3(3) [OF i] n2 True by (simp only: if_True simp_thms)
    next
      case False
      then show ?thesis using v3(3) [OF i] by (simp only: if_False)
    qed
    have h2: "v2 ! i = (if i = 252 - uc - ut then of_nat (HEAD + ut) else v1 ! i)" using v1(2) i by (simp add: v2_def nth_list_update)
    have h1: "v1 ! i = (if 253 - uc - ut \<le> i \<and> i < 258 - uc then u ! (i - (253 - uc - ut)) else u ! i)"
      using v1(3) [OF i] r'(1) by (simp add: utcb_consts)
    show ?thesis unfolding h4 h3 h2 h1 by (rule refl)
  qed
  define a where "a = 252 - uc - ut"
  have a: "252 - uc - ut = a" "253 - uc - ut = Suc a" "258 - uc = a + 6 + ut" "4 + ut \<le> a" "a + uc + ut = 252" "5 \<le> a"
    using r'(1,2) unfolding a_def by linarith+
  note n4 = n4 [unfolded a(1-3)]
  define nu where "nu = int (HEAD + ut) + 1"
  define u4 where "u4 = add_typed_count (int t + 1) (add_untyped nu v4)"
  have p4: "pos_word v4 = pos_word u" using n4 [of 258] a(4,5) rt by (simp add: pos_word_def utcb_consts)
  have f4: "untyped_count v4 = uc" "layer v4 = layer u" "typed_count v4 = tc"
    using fields_cong [OF p4] by (simp_all add: uc_def tc_def)
  have a1: "int (untyped_count v4) + nu = int (uc + ut + 6)" by (simp add: nu_def f4 utcb_consts)
  have b1: "unat (pos_word v4) < 2 ^ 32" "uc + ut + 6 < 4096" using u(2) p4 r'(2) by simp_all
  note f5 = add_untyped_fields [OF v4(2) b1(1) a1 b1(2)]
  have l5: "length (add_untyped nu v4) = 512" using v4(2) by (simp add: add_untyped_def)
  have c5: "typed_count (add_untyped nu v4) < 0x8000" "tc + t + 1 < 0x8000" using f5(3) f4 rt by simp_all
  have a2: "int (typed_count (add_untyped nu v4)) + (int t + 1) = int (tc + t + 1)" by (simp add: f5 f4)
  note f6 = add_typed_fields [OF l5 c5(1) a2 c5(2), folded u4_def]
  have l6: "length u4 = 512" using l5 by (simp add: u4_def add_typed_count_def Let_def)
  have n6: "u4 ! i = v4 ! i" if "i \<noteq> 258" for i using that by (simp add: u4_def add_typed_count_def add_untyped_def Let_def)
  note rs = reset_fields [OF l6]
  have n7: "utcb_reset u4 ! i = v4 ! i" if "5 \<le> i" "i \<noteq> 258" for i using rs(5) that n6 by simp
  have f7: "untyped_count (utcb_reset u4) = uc + ut + 6" "layer (utcb_reset u4) = layer u" "typed_count (utcb_reset u4) = tc + t + 1"
    using fields_cong [OF rs(3)] f6 f5 f4 by simp_all
  have push: "push_frame u = Inr (utcb_reset u4)"
    unfolding push_frame_def Let_def us ts ut_def [symmetric] mult.commute [of _ 2] t_def [symmetric] u4_def nu_def [symmetric]
    using v1(1) v2(1) v3(1) v4(1) unfolding if_P [OF u(3)] e1 e2 e3 e4 of_nat_0 nu_def [symmetric]
    by (simp split del: if_split del: of_nat_add of_nat_diff)
  have sv: "saved u (utcb_reset u4)"
    unfolding saved_def ut_def [symmetric] t_def [symmetric] uc_def [symmetric] tc_def [symmetric] a(1-3)
  proof (intro conjI allI impI)
    show "length (utcb_reset u4) = 512" by (rule rs(4))
    show "untyped_count (utcb_reset u4) = uc + ut + 6" "typed_count (utcb_reset u4) = tc + t + 1" by (rule f7)+
    show "utcb_reset u4 ! a = of_nat (5 + ut)"
      using n7 [of a] n4 [of a] a(4-6) rt by (simp add: utcb_consts)
    show "utcb_reset u4 ! (Suc a + i) = u ! i" if "i < 5 + ut" for i
      using n7 [of "Suc a + i"] n4 [of "Suc a + i"] a(4-6) rt that by simp
    show "utcb_reset u4 ! i = u ! i" if "a + 6 + ut \<le> i" "i < 259 + tc" "i \<noteq> 258" for i
      using n7 [of i] n4 [of i] a(4-6) rt that by simp
    show "utcb_reset u4 ! (259 + tc + i) = u ! (512 - t + i)" if "i < t" for i
      using n7 [of "259 + tc + i"] n4 [of "259 + tc + i"] rt that by simp
    show "utcb_reset u4 ! (259 + tc + t) = of_nat t" using n7 [of "259 + tc + t"] n4 [of "259 + tc + t"] rt by simp
  qed
  show thesis using that [of "utcb_reset u4"] push sv rs f7(2) f6(4) by simp
qed

lemma pop_frame_restores:
  assumes r: "untyped_count u + 2 * untyped u + 5 \<le> 253" "untyped_count u + untyped u + 6 \<le> 253"
      "typed_count u + 4 * typed u \<le> 253" "typed_count u + 2 * typed u + 1 \<le> 253"
    and s: "saved u u1" "unat (pos_word u1) < 2 ^ 32" "1 < layer u1"
    and m: "same_middle u1 u2"
  obtains u3 where "pop_frame u2 = Inr u3" "length u3 = 512" "unat (pos_word u3) < 2 ^ 32" "layer u3 = layer u1"
    "untyped_count u3 = untyped_count u" "typed_count u3 = typed_count u" "same_frame u u3"
    "\<And>i. 258 - untyped_count u \<le> i \<Longrightarrow> i < 259 + typed_count u \<Longrightarrow> i \<noteq> 258 \<Longrightarrow> u3 ! i = u ! i"
proof -
  define ut t uc tc where "ut = untyped u" and "t = 2 * typed u" and "uc = untyped_count u" and "tc = typed_count u"
  note f = ut_def [symmetric] t_def [symmetric] uc_def [symmetric] tc_def [symmetric]
  define a where "a = 252 - uc - ut"
  have a: "252 - uc - ut = a" "253 - uc - ut = Suc a" "258 - uc = a + 6 + ut" "4 + ut \<le> a" "a + uc + ut = 252" "5 \<le> a"
    using r(1,2) unfolding f a_def by linarith+
  have rt: "tc + 2 * t \<le> 253" "tc + t + 1 \<le> 253" using r(3,4) by (simp_all add: t_def tc_def)
  have sv: "length u1 = 512" "untyped_count u1 = uc + ut + 6" "typed_count u1 = tc + t + 1" "u1 ! a = of_nat (5 + ut)"
    "\<And>i. i < 5 + ut \<Longrightarrow> u1 ! (Suc a + i) = u ! i" "\<And>i. a + 6 + ut \<le> i \<Longrightarrow> i < 259 + tc \<Longrightarrow> i \<noteq> 258 \<Longrightarrow> u1 ! i = u ! i"
    "\<And>i. i < t \<Longrightarrow> u1 ! (259 + tc + i) = u ! (512 - t + i)" "u1 ! (259 + tc + t) = of_nat t"
    using s(1) unfolding saved_def f a(1-3) by blast+
  have m2: "length u2 = 512" "\<And>i. a \<le> i \<Longrightarrow> i \<le> 259 + tc + t \<Longrightarrow> u2 ! i = u1 ! i"
    using m a(5) by (simp_all add: same_middle_def sv(1-3))
  have p2: "pos_word u2 = pos_word u1" using m2(2) [of 258] a(4,5) by (simp add: pos_word_def utcb_consts)
  have f2: "untyped_count u2 = uc + ut + 6" "layer u2 = layer u1" "typed_count u2 = tc + t + 1"
    using fields_cong [OF p2] sv(2,3) by simp_all
  have us: "int HEAD + untyped_start u2 = int a" using a(5,6) by (simp add: untyped_start_small f2 utcb_consts)
  have ts: "int (HEAD + typed_start u2) = int (260 + tc + t)" by (simp add: typed_start_def f2 utcb_consts)
  have w1: "u2 ! a = of_nat (5 + ut)" using m2(2) [of a] a(5) sv(4) by simp
  have w2: "u2 ! (259 + tc + t) = of_nat t" using m2(2) [of "259 + tc + t"] a(5) sv(8) by simp
  have ub: "5 + ut < 2 ^ 16" "t < 2 ^ 16" using a(5) rt by simp_all
  have c1: "unat (ucast (u2 ! nat (int a)) :: u32) = 5 + ut" unfolding nat_int w1 using ub(1) by (simp add: unat_ucast unat_of_nat del: of_nat_add)
  have n259: "nat (int (260 + tc + t) - 1) = 259 + tc + t" by simp
  have c2: "unat (ucast (u2 ! nat (int (260 + tc + t) - 1)) :: u32) = t" unfolding n259 w2 using ub(2) by (simp add: unat_ucast unat_of_nat)
  have nov: "259 + tc + t \<le> 512 - t" using rt by linarith
  obtain v1 where v1: "copy_words (int 0) (int (Suc a)) (5 + ut) u2 = Inr v1" "length v1 = 512"
    "\<And>i. i < 512 \<Longrightarrow> v1 ! i = (if 0 \<le> i \<and> i < 0 + (5 + ut) then u2 ! (Suc a + (i - 0)) else u2 ! i)"
    by (rule copy_words_ok [OF m2(1), of 0 "5 + ut" "Suc a"]) (use a in simp_all)
  obtain v2 where v2: "copy_words (int (512 - t)) (int (259 + tc)) t v1 = Inr v2" "length v2 = 512"
    "\<And>i. i < 512 \<Longrightarrow> v2 ! i = (if 512 - t \<le> i \<and> i < 512 - t + t then v1 ! (259 + tc + (i - (512 - t))) else v1 ! i)"
    by (rule copy_words_ok [OF v1(2), of "512 - t" t "259 + tc"]) (use rt nov in simp_all)
  have q1: "v1 ! i = u2 ! i" if "5 + ut \<le> i" "i < 512" for i using v1(3) that by simp
  have tl: "258 < 512 - t" "259 + tc \<le> 512 - t" using rt by linarith+
  have q2: "v2 ! i = v1 ! i" if "i < 512 - t" for i using v2(3) [of i] that by simp
  have p3: "pos_word v2 = pos_word u1"
    using q2 [OF tl(1)] q1 [of 258] p2 a(4,5) by (simp add: pos_word_def utcb_consts)
  have f3: "untyped_count v2 = uc + ut + 6" "layer v2 = layer u1" "typed_count v2 = tc + t + 1"
    using fields_cong [OF p3] sv(2,3) by simp_all
  define nu nt where "nu = - (int (5 + ut) + 1)" and "nt = - (int t + 1)"
  have b3: "unat (pos_word v2) < 2 ^ 32" "uc < 4096" using s(2) p3 a(5) by simp_all
  have a3: "int (untyped_count v2) + nu = int uc" by (simp add: f3 nu_def)
  note f4 = add_untyped_fields [OF v2(2) b3(1) a3 b3(2)]
  have l4: "length (add_untyped nu v2) = 512" using v2(2) by (simp add: add_untyped_def)
  have c4: "typed_count (add_untyped nu v2) < 0x8000" "tc < 0x8000" using f4(3) f3 rt by simp_all
  have a4: "int (typed_count (add_untyped nu v2)) + nt = int tc" by (simp add: f4 f3 nt_def)
  define u3 where "u3 = add_typed_count nt (add_untyped nu v2)"
  note f5 = add_typed_fields [OF l4 c4(1) a4 c4(2), folded u3_def]
  have l5: "length u3 = 512" using l4 by (simp add: u3_def add_typed_count_def Let_def)
  have n5: "u3 ! i = v2 ! i" if "i \<noteq> 258" for i using that by (simp add: u3_def add_typed_count_def add_untyped_def Let_def)
  have e1: "int (260 + tc + t) - int t - 1 = int (259 + tc)" "int WORDS - int t = int (512 - t)" "int a + 1 = int (Suc a)"
    "0 \<le> int a \<and> int a < int WORDS \<and> int (260 + tc + t) - 1 < int WORDS"
    using rt a by (simp_all add: WORDS_def)
  have l2: "layer u2 > 1" using s(3) f2 by simp
  have pop: "pop_frame u2 = Inr u3"
    using v1(1) v2(1) unfolding pop_frame_def Let_def us ts if_P [OF l2] if_P [OF e1(4)] c1 c2 e1(1-3) of_nat_0
      nu_def [symmetric] nt_def [symmetric] u3_def
    by (simp del: of_nat_add of_nat_diff of_nat_Suc)
  have fr: "same_frame u u3" unfolding same_frame_def f
  proof (intro conjI allI impI)
    fix i assume "i < HEAD + ut"
    then have i: "i < 5 + ut" by (simp add: HEAD_def)
    then have "u3 ! i = u2 ! (Suc a + i)" using n5 [of i] q2 [of i] v1(3) [of i] tl a(5) by simp
    also have "\<dots> = u ! i" using m2(2) [of "Suc a + i"] sv(5) [OF i] a(5) i by simp
    finally show "u3 ! i = u ! i" .
  next
    fix i assume i: "i < (512 :: nat)" "512 - t \<le> i"
    define j where "j = i - (512 - t)"
    have j: "j < t" "i = 512 - t + j" using i tl by (auto simp: j_def)
    have "u3 ! i = v1 ! (259 + tc + j)" using n5 [of i] v2(3) [OF i(1)] i tl by (simp add: j_def)
    also have "\<dots> = u2 ! (259 + tc + j)" using q1 [of "259 + tc + j"] j rt a(5) by simp
    also have "\<dots> = u ! i" using m2(2) [of "259 + tc + j"] sv(7) [OF j(1)] j a(5) by simp
    finally show "u3 ! i = u ! i" .
  qed
  have mid: "u3 ! i = u ! i" if "258 - uc \<le> i" "i < 259 + tc" "i \<noteq> 258" for i
  proof -
    have i: "a + 6 + ut \<le> i" using that(1) a(3) by simp
    have "u3 ! i = u2 ! i" using n5 [OF that(3)] q2 [of i] q1 [of i] that(2) tl i a(4) rt by simp
    also have "\<dots> = u ! i" using m2(2) [of i] sv(6) [OF i that(2,3)] that(2) i by simp
    finally show ?thesis .
  qed
  show thesis
    using that [OF pop l5 f5(4)] f5 f4 f3 fr mid by (simp add: uc_def tc_def)
qed

lemma saved_cong:
  assumes "saved v u1" "\<And>i. i \<noteq> 258 \<Longrightarrow> v ! i = u ! i" "untyped_count v = untyped_count u" "typed_count v = typed_count u"
    "untyped u \<le> 200" "typed u \<le> 100"
  shows "saved u u1"
proof -
  have h: "untyped v = untyped u" "typed v = typed u" using assms(2) [of 1] by (simp_all add: untyped_def typed_def mtr_def)
  show ?thesis using assms(1,5,6) unfolding saved_def h assms(3,4) by (simp add: assms(2))
qed

text \<open>Creating a frame saves the current one, if there is room.\<close>

lemma frame_new_saves:
  assumes "utcb_wf u" "frame_room u"
  obtains u1 where "frame_new u = Inr u1" "saved u u1" "layer u1 = layer u + 1" "utcb_wf u1"
proof -
  have w: "length u = 512" "unat (pos_word u) < 2 ^ 32" using assms(1) by (simp_all add: utcb_wf_def)
  note r = assms(2) [unfolded frame_room_def]
  obtain v where v: "set_layer (int (layer u) + 1) u = Inr v" "layer v = layer u + 1" "untyped_count v = untyped_count u"
    "typed_count v = typed_count u" "unat (pos_word v) < 2 ^ 32" "length v = 512" "\<And>i. i \<noteq> 258 \<Longrightarrow> v ! i = u ! i"
    by (rule set_layer_fields [OF w, of "int (layer u) + 1" "layer u + 1"]) (use r in simp_all)
  have h: "untyped v = untyped u" "typed v = typed u" using v(7) [of 1] by (simp_all add: untyped_def typed_def mtr_def)
  have lv: "1 < layer v" using v(2) r by simp
  obtain u1 where u1: "push_frame v = Inr u1" "saved v u1" "unat (pos_word u1) < 2 ^ 32" "layer u1 = layer v" "untyped u1 = 0" "typed u1 = 0"
    by (rule push_frame_saves [OF v(6,5) lv]) (use r in \<open>simp_all add: v h\<close>)
  have s: "saved u u1" by (rule saved_cong [OF u1(2)]) (use v r in simp_all)
  have "frame_new u = Inr u1" using v(1) u1(1) by (simp add: frame_new_def push_layer_def)
  moreover have "utcb_wf u1" using s u1 r by (simp add: utcb_wf_def saved_def)
  ultimately show thesis using that [of u1] s u1(4) v(2) by simp
qed

text \<open>Without room, the copy of a well-formed frame overlaps the frame itself: \<^verbatim>\<open>push\<close> does not check it.\<close>

lemma frame_new_overlaps:
  assumes "utcb_wf u" "1 \<le> layer u" "layer u < 15" "253 < untyped_count u + 2 * untyped u + 5"
  shows "frame_new u = Inl Undefined"
proof -
  have w: "length u = 512" "unat (pos_word u) < 2 ^ 32" "untyped u + untyped_count u \<le> 253"
    using assms(1) by (simp_all add: utcb_wf_def)
  obtain v where v: "set_layer (int (layer u) + 1) u = Inr v" "layer v = layer u + 1" "untyped_count v = untyped_count u"
    "typed_count v = typed_count u" "unat (pos_word v) < 2 ^ 32" "length v = 512" "\<And>i. i \<noteq> 258 \<Longrightarrow> v ! i = u ! i"
    by (rule set_layer_fields [OF w(1,2), of "int (layer u) + 1" "layer u + 1"]) (use assms in simp_all)
  have h: "untyped v = untyped u" using v(7) [of 1] by (simp add: untyped_def mtr_def)
  have us: "int HEAD + untyped_start v = int (258 - untyped_count u)"
    using w(3) by (simp add: untyped_start_small v(3) utcb_consts)
  have "copy_words (int (258 - untyped_count u) - int (HEAD + untyped v)) 0 (HEAD + untyped v) v = Inl Undefined"
    using assms(4) w(3) by (simp add: copy_words_def h utcb_consts)
  then have "push_frame v = Inl Undefined" using assms(2) v(2) by (simp add: push_frame_def Let_def us)
  then show ?thesis using v(1) by (simp add: frame_new_def push_layer_def)
qed

text \<open>Deleting the frame restores the old one, if the middle of the page has not been touched.\<close>

lemma frame_delete_restores:
  assumes "utcb_wf u" "frame_room u" "saved u u1" "layer u1 = layer u + 1" "utcb_wf u1" "same_middle u1 u2"
  obtains u3 where "frame_delete u2 = Inr u3" "same_frame u u3" "same_middle u u3" "utcb_wf u3"
proof -
  note r = assms(2) [unfolded frame_room_def]
  have p1: "unat (pos_word u1) < 2 ^ 32" "1 < layer u1" using assms(4,5) r by (simp_all add: utcb_wf_def)
  obtain v where v: "pop_frame u2 = Inr v" "length v = 512" "unat (pos_word v) < 2 ^ 32" "layer v = layer u1"
    "untyped_count v = untyped_count u" "typed_count v = typed_count u" "same_frame u v"
    "\<And>i. 258 - untyped_count u \<le> i \<Longrightarrow> i < 259 + typed_count u \<Longrightarrow> i \<noteq> 258 \<Longrightarrow> v ! i = u ! i"
    by (rule pop_frame_restores [OF _ _ _ _ assms(3) p1 assms(6)]) (use r in simp_all)
  obtain u3 where u3: "set_layer (int (layer v) - 1) v = Inr u3" "layer u3 = layer u" "untyped_count u3 = untyped_count u"
    "typed_count u3 = typed_count u" "unat (pos_word u3) < 2 ^ 32" "length u3 = 512" "\<And>i. i \<noteq> 258 \<Longrightarrow> u3 ! i = v ! i"
    by (rule set_layer_fields [OF v(2,3), of "int (layer v) - 1" "layer u"]) (use v assms(4) r in simp_all)
  have wf: "length u = 512" "unat (pos_word u) < 2 ^ 32" using assms(1) by (simp_all add: utcb_wf_def)
  have "pos_word u3 = pos_word u" by (rule pos_word_eqI [OF u3(5) wf(2)]) (use u3 in simp_all)
  then have p: "u3 ! 258 = u ! 258" by (simp add: pos_word_def utcb_consts)
  have small: "untyped u + 5 < 258" "258 < 512 - 2 * typed u" using r by linarith+
  have sf: "same_frame u u3" using v(7) u3(7) small by (auto simp: same_frame_def HEAD_def)
  have "u3 ! i = u ! i" if "258 - untyped_count u \<le> i" "i < 259 + typed_count u" for i
    using that v(8) u3(7) p by (cases "i = 258") simp_all
  then have sm: "same_middle u u3" using u3(6) wf(1) by (simp add: same_middle_def)
  have "u3 ! 1 = u ! 1" using sf by (simp add: same_frame_def HEAD_def)
  then have "untyped u3 = untyped u" "typed u3 = typed u" by (simp_all add: untyped_def typed_def mtr_def)
  then have "utcb_wf u3" using assms(1) u3 by (simp add: utcb_wf_def)
  moreover have "frame_delete u2 = Inr u3" using v(1) u3(1) by (simp add: frame_delete_def pop_layer_def)
  ultimately show thesis using that sf sm by blast
qed

subsection \<open>Writing items\<close>

lemma header_masks: "(0xffff :: u64) = mask 16" "(0xffff0000 :: u64) = push_bit 16 (mask 16)"
  by code_simp+

lemma set_untyped_fields:
  assumes "length u = 512"
  shows "untyped (set_untyped n u) = unat n" "typed (set_untyped n u) = typed u" "length (set_untyped n u) = 512"
    "i \<noteq> 1 \<Longrightarrow> set_untyped n u ! i = u ! i"
proof -
  have m: "mtr (set_untyped n u) = (mtr u AND NOT 0xffff) OR ucast n" using assms by (simp add: set_untyped_def mtr_def)
  have "(ucast (mtr (set_untyped n u)) :: u16) = n" unfolding m header_masks
    by (rule bit_word_eqI) (auto simp: bit_simps)
  then show "untyped (set_untyped n u) = unat n" by (simp add: untyped_def)
  have "(ucast (drop_bit 16 (mtr (set_untyped n u))) :: u16) = ucast (drop_bit 16 (mtr u))" unfolding m header_masks
    by (rule bit_word_eqI) (auto simp: bit_simps dest: bit_imp_le_length)
  then show "typed (set_untyped n u) = typed u" by (simp add: typed_def)
  show "length (set_untyped n u) = 512" "i \<noteq> 1 \<Longrightarrow> set_untyped n u ! i = u ! i" using assms by (simp_all add: set_untyped_def)
qed

lemma set_typed_fields:
  assumes "length u = 512"
  shows "typed (set_typed n u) = unat n" "untyped (set_typed n u) = untyped u" "length (set_typed n u) = 512"
    "i \<noteq> 1 \<Longrightarrow> set_typed n u ! i = u ! i"
proof -
  have m: "mtr (set_typed n u) = (mtr u AND NOT 0xffff0000) OR push_bit 16 (ucast n)" using assms by (simp add: set_typed_def mtr_def)
  have "(ucast (drop_bit 16 (mtr (set_typed n u))) :: u16) = n" unfolding m header_masks
    by (rule bit_word_eqI) (auto simp: bit_simps)
  then show "typed (set_typed n u) = unat n" by (simp add: typed_def)
  have "(ucast (mtr (set_typed n u)) :: u16) = ucast (mtr u)" unfolding m header_masks
    by (rule bit_word_eqI) (auto simp: bit_simps)
  then show "untyped (set_typed n u) = untyped u" by (simp add: untyped_def)
  show "length (set_typed n u) = 512" "i \<noteq> 1 \<Longrightarrow> set_typed n u ! i = u ! i" using assms by (simp_all add: set_typed_def)
qed

text \<open>In a well-formed page the free slots are what they should be.\<close>

lemma free_untyped_eq: "utcb_wf u \<Longrightarrow> free_untyped u = 253 - untyped_count u - untyped u"
proof -
  assume "utcb_wf u"
  then have w: "untyped u + untyped_count u \<le> 253" by (simp add: utcb_wf_def)
  define n where "n = 253 - untyped_count u - untyped u"
  have e: "(of_nat POS_SLOT - of_nat (untyped_count u) - of_nat (untyped u) :: u64) = of_nat n"
    using w by (simp add: of_nat_diff utcb_consts n_def)
  have "n < 2 ^ 64" by (simp add: n_def)
  then show ?thesis unfolding free_untyped_def e n_def [symmetric] by (simp add: unat_of_nat)
qed

lemma free_typed_eq: "utcb_wf u \<Longrightarrow> free_typed u = (253 - typed_count u - 2 * typed u) div 2"
proof -
  assume "utcb_wf u"
  then have w: "2 * typed u + typed_count u \<le> 253" by (simp add: utcb_wf_def)
  define n where "n = 253 - typed_count u - 2 * typed u"
  have e: "(of_nat (SLOTS - POS_SLOT - 1) - of_nat (typed_count u) - of_nat (typed u * 2) :: u64) = of_nat n"
    using w by (simp add: of_nat_diff utcb_consts n_def mult.commute)
  have "n < 2 ^ 64" by (simp add: n_def)
  then show ?thesis unfolding free_typed_def e n_def [symmetric] by (simp add: unat_of_nat)
qed

lemma wf_pos_cong:
  assumes "utcb_wf u" "length v = 512" "v ! 258 = u ! 258" "untyped v + untyped_count u \<le> 253" "2 * typed v + typed_count u \<le> 253"
  shows "utcb_wf v"
proof -
  have p: "pos_word v = pos_word u" using assms(3) by (simp add: pos_word_def utcb_consts)
  then show ?thesis using assms fields_cong [OF p] by (simp add: utcb_wf_def)
qed

lemma blit_nth:
  assumes "p + length ws \<le> length u"
  shows "(take p u @ ws @ drop (p + length ws) u) ! i = (if i < p then u ! i else if i < p + length ws then ws ! (i - p) else u ! i)"
proof -
  have "i - p < length ws \<longleftrightarrow> i < p + length ws" if "\<not> i < p" using that by linarith
  then show ?thesis using assms by (auto simp: nth_append)
qed

lemma put_words_ok:
  assumes "utcb_wf u" "put_words ws u = Inr v"
  shows "utcb_wf v" "same_middle u v" "untyped v = untyped u + length ws" "typed v = typed u"
    "\<And>i. 512 - 2 * typed u \<le> i \<Longrightarrow> v ! i = u ! i"
    "\<And>i. 1 < i \<Longrightarrow> i < 5 + untyped u \<Longrightarrow> v ! i = u ! i"
    "\<And>i. i < length ws \<Longrightarrow> v ! (5 + untyped u + i) = ws ! i"
proof -
  have w: "length u = 512" "untyped u + untyped_count u \<le> 253" "2 * typed u + typed_count u \<le> 253"
    using assms(1) by (simp_all add: utcb_wf_def)
  have l: "length ws \<le> 253 - untyped_count u - untyped u"
    using assms(2) free_untyped_eq [OF assms(1)] by (auto simp: put_words_def check_untyped_write_def split: if_splits)
  define x where "x = take (5 + untyped u) u @ ws @ drop (5 + untyped u + length ws) u"
  have b: "5 + untyped u + length ws \<le> 258 - untyped_count u" "length ws + untyped u < 2 ^ 16" using l w(2) by simp_all
  have v: "v = set_untyped (of_nat (untyped u + length ws)) x"
    using assms(2) b by (auto simp: put_words_def check_untyped_write_def x_def HEAD_def WORDS_def split: if_splits)
  have x: "length x = 512" using w(1) b by (simp add: x_def)
  note f = set_untyped_fields [OF x, where n = "of_nat (untyped u + length ws)", folded v]
  have nx: "x ! i = (if i < 5 + untyped u then u ! i else if i < 5 + untyped u + length ws then ws ! (i - (5 + untyped u)) else u ! i)" for i
    unfolding x_def by (rule blit_nth) (use w(1) b in simp)
  have x1: "x ! 1 = u ! 1" using nx [of 1] by simp
  then have tx: "typed x = typed u" by (simp add: typed_def mtr_def)
  have "unat (of_nat n :: u16) = n" if "n < 2 ^ 16" for n using that by (simp add: unat_of_nat)
  then show uv: "untyped v = untyped u + length ws" using f(1) b(2) by (metis add.commute)
  show tv: "typed v = typed u" using f(2) tx by simp
  have hi: "v ! i = u ! i" if "5 + untyped u + length ws \<le> i" for i using f(4) [of i] nx [of i] that by simp
  show "v ! i = u ! i" if "512 - 2 * typed u \<le> i" for i
  proof -
    have "5 + untyped u + length ws \<le> i" using that b(1) w by linarith
    then show ?thesis by (rule hi)
  qed
  show "v ! i = u ! i" if "1 < i" "i < 5 + untyped u" for i using f(4) [of i] nx [of i] that by simp
  show "v ! (5 + untyped u + i) = ws ! i" if "i < length ws" for i
    using f(4) [of "5 + untyped u + i"] nx [of "5 + untyped u + i"] that by simp
  have m: "v ! i = u ! i" if "258 - untyped_count u \<le> i" for i using hi that b by simp
  show "same_middle u v" using m f(3) w(1) by (simp add: same_middle_def)
  show "utcb_wf v" by (rule wf_pos_cong [OF assms(1) f(3)]) (use m [of 258] uv tv l w in simp_all)
qed

lemma add_typed_ok:
  assumes "utcb_wf u" "add_typed c aux u = Inr v"
  shows "utcb_wf v" "same_middle u v" "typed v = typed u + 1" "untyped v = untyped u"
    "\<And>i. 1 < i \<Longrightarrow> i < 5 + untyped u \<Longrightarrow> v ! i = u ! i"
    "v ! (512 - (typed u * 2 + 1)) = aux" "v ! (512 - (typed u * 2 + 2)) = c"
    "\<And>i. 512 - 2 * typed u \<le> i \<Longrightarrow> v ! i = u ! i"
proof -
  have w: "length u = 512" "untyped u + untyped_count u \<le> 253" "2 * typed u + typed_count u \<le> 253"
    using assms(1) by (simp_all add: utcb_wf_def)
  define t where "t = typed u"
  have l: "1 \<le> (253 - typed_count u - 2 * t) div 2"
    using assms(2) free_typed_eq [OF assms(1)] by (auto simp: add_typed_def check_typed_write_def t_def split: if_splits)
  then have b: "typed_count u + 2 * t + 2 \<le> 253" using w(3) unfolding t_def by linarith
  have e: "int WORDS - int (t * 2 + 1) = int (512 - (t * 2 + 1))" "int WORDS - int (t * 2 + 2) = int (512 - (t * 2 + 2))"
    using b by (simp_all add: WORDS_def)
  define x where "x = u[512 - (t * 2 + 1) := aux, 512 - (t * 2 + 2) := c]"
  have ch: "check_typed_write 1 u = Inr ()" using l free_typed_eq [OF assms(1)] by (simp add: check_typed_write_def t_def)
  have wr: "write_word (int (512 - (t * 2 + 1))) aux u = Inr (u[512 - (t * 2 + 1) := aux])"
    "write_word (int (512 - (t * 2 + 2))) c (u[512 - (t * 2 + 1) := aux]) = Inr x"
    unfolding x_def by (rule write_word_ok, simp)+
  have v: "v = set_typed (of_nat (t + 1)) x"
    using assms(2) unfolding add_typed_def t_def [symmetric] e wr ch bindR_simps by simp
  have x: "length x = 512" using w(1) by (simp add: x_def)
  note f = set_typed_fields [OF x, where n = "of_nat (t + 1)", folded v]
  have nx: "x ! i = u ! i" if "i < 510 - 2 * t" for i using that b by (simp add: x_def)
  have tx: "untyped x = untyped u" using nx [of 1] b by (simp add: untyped_def mtr_def)
  have "unat (of_nat n :: u16) = n" if "n < 2 ^ 16" for n using that by (simp add: unat_of_nat)
  then have "unat (of_nat (t + 1) :: u16) = t + 1" using b by (simp del: of_nat_add of_nat_Suc)
  then show tv: "typed v = typed u + 1" using f(1) by (simp only: t_def)
  show uv: "untyped v = untyped u" using f(2) tx by simp
  show "v ! i = u ! i" if "1 < i" "i < 5 + untyped u" for i using f(4) [of i] nx [of i] that w(2) b by simp
  show "v ! (512 - (typed u * 2 + 1)) = aux" "v ! (512 - (typed u * 2 + 2)) = c"
    using f(4) [of "512 - (t * 2 + 1)"] f(4) [of "512 - (t * 2 + 2)"] w(1) b unfolding t_def [symmetric] by (simp_all add: x_def)
  show "v ! i = u ! i" if "512 - 2 * typed u \<le> i" for i
    using f(4) [of i] that b unfolding t_def [symmetric] by (simp add: x_def)
  have m: "v ! i = u ! i" if "5 \<le> i" "i < 259 + typed_count u" for i
    using f(4) [of i] nx [of i] that b by simp
  show "same_middle u v" using m f(3) w by (simp add: same_middle_def)
  show "utcb_wf v" by (rule wf_pos_cong [OF assms(1) f(3)]) (use m [of 258] uv tv b w in \<open>simp_all add: t_def\<close>)
qed

text \<open>The items of a frame, and the items that a list of operations adds.\<close>

lemma same_middle_fields: "utcb_wf u \<Longrightarrow> same_middle u v \<Longrightarrow> pos_word v = pos_word u"
  by (simp add: same_middle_def pos_word_def utcb_consts utcb_wf_def)

lemma same_middle_trans:
  assumes "utcb_wf u" "same_middle u v" "same_middle v w"
  shows "same_middle u w"
  using assms fields_cong [OF same_middle_fields [OF assms(1,2)]] by (simp add: same_middle_def)

lemma header_write_ok:
  assumes "utcb_wf u" "v = u[i := w]" "i = 2 \<or> i = 3 \<or> i = 1 \<and> w = 0"
  shows "utcb_wf v" "same_middle u v"
proof -
  have w: "length u = 512" "untyped u + untyped_count u \<le> 253" "2 * typed u + typed_count u \<le> 253"
    using assms(1) by (simp_all add: utcb_wf_def)
  have n: "v ! j = u ! j" if "3 < j" for j using assms(2,3) that by auto
  show "same_middle u v" using n assms(2) w by (simp add: same_middle_def)
  have "untyped v \<le> untyped u" "typed v \<le> typed u" using assms(2,3) w(1) by (auto simp: untyped_def typed_def mtr_def)
  moreover have "v ! 258 = u ! 258" "length v = 512" using n [of 258] assms(2) w(1) by simp_all
  ultimately show "utcb_wf v" using w(2,3) by (intro wf_pos_cong [OF assms(1)]) simp_all
qed

lemma reset_ok:
  assumes "utcb_wf u"
  shows "utcb_wf (utcb_reset u)" "same_middle u (utcb_reset u)"
proof -
  have w: "length u = 512" "untyped u + untyped_count u \<le> 253" "2 * typed u + typed_count u \<le> 253"
    using assms(1) by (simp_all add: utcb_wf_def)
  note r = reset_fields [OF w(1)]
  show "utcb_wf (utcb_reset u)" using assms r fields_cong [OF r(3)] by (simp add: utcb_wf_def)
  show "same_middle u (utcb_reset u)" using r w by (simp add: same_middle_def)
qed

lemma nested_ok:
  assumes "utcb_wf u" "frame_room u"
    and inner: "\<And>u1 u2. frame_new u = Inr u1 \<Longrightarrow> utcb_wf u1 \<Longrightarrow> run_ops ops u1 = Inr u2 \<Longrightarrow> same_middle u1 u2"
    and run: "run_op (Nested ops) u = Inr v"
  shows "utcb_wf v \<and> same_middle u v \<and> same_frame u v"
proof -
  obtain u1 where u1: "frame_new u = Inr u1" "saved u u1" "layer u1 = layer u + 1" "utcb_wf u1"
    by (rule frame_new_saves [OF assms(1,2)])
  obtain u2 where u2: "run_ops ops u1 = Inr u2" "frame_delete u2 = Inr v" using run u1(1) by (auto simp: bindR_eq_Inr)
  have "same_middle u1 u2" by (rule inner [OF u1(1,4) u2(1)])
  from frame_delete_restores [OF assms(1,2) u1(2-4) this] u2(2) show ?thesis by auto
qed

lemma run_ok:
  "utcb_wf u \<Longrightarrow> roomy_op op u \<Longrightarrow> run_op op u = Inr v \<Longrightarrow> utcb_wf v \<and> same_middle u v"
  "utcb_wf u \<Longrightarrow> roomy_ops ops u \<Longrightarrow> run_ops ops u = Inr v \<Longrightarrow> utcb_wf v \<and> same_middle u v"
proof (induction op u and ops u arbitrary: v and v rule: run_op_run_ops.induct)
  case (1 ws u)
  then show ?case using put_words_ok by simp
next
  case (2 c aux u)
  then show ?case using add_typed_ok by simp
next
  case (3 u)
  then show ?case using header_write_ok [of u v 1 0] by (simp add: utcb_clear_def)
next
  case (4 u)
  then show ?case using reset_ok [OF "4.prems"(1)] by auto
next
  case (5 c u)
  then show ?case using header_write_ok [of u v 3 c] by (simp add: set_delegation_window_def)
next
  case (6 c u)
  then show ?case using header_write_ok [of u v 2 c] by (simp add: set_translation_window_def)
next
  case (7 ops u)
  have r: "frame_room u" "\<And>u1. frame_new u = Inr u1 \<Longrightarrow> roomy_ops ops u1" using "7.prems"(2) by auto
  have "same_middle u1 u2" if "frame_new u = Inr u1" "utcb_wf u1" "run_ops ops u1 = Inr u2" for u1 u2
    using "7.IH" [of u1 u2] r(2) that by blast
  from nested_ok [OF "7.prems"(1) r(1) this "7.prems"(3)] show ?case by blast
next
  case (8 u)
  then show ?case by (simp add: same_middle_def)
next
  case (9 op ops u)
  obtain u1 where u1: "run_op op u = Inr u1" "run_ops ops u1 = Inr v" using "9.prems"(3) by (auto simp: bindR_eq_Inr)
  have r: "roomy_op op u" "roomy_ops ops u1" using "9.prems"(2) u1(1) by simp_all
  have i1: "utcb_wf u1" "same_middle u u1" using "9.IH"(1) [OF "9.prems"(1) r(1) u1(1)] by simp_all
  have i2: "utcb_wf v" "same_middle u1 v" using "9.IH"(2) [OF i1(1) r(2) u1(2)] by simp_all
  show ?case using i1 i2 same_middle_trans [OF "9.prems"(1)] by blast
qed

text \<open>Claim C4. Nested use of the message buffer is transparent as long as the saved copies have room: if the current
  frame has room, that is, the copies of its untyped and of its typed items neither overlap the items nor leave their half of the
  page and fewer than 15 layers are in use, a new frame can be created; whatever its holder does with it, including the use of further
  frames that have room too, deleting it succeeds and restores the header, all untyped and all typed items of the old frame, and
  leaves the frames saved before it alone. \<^verbatim>\<open>push\<close> itself does not check for room.\<close>

theorem utcb_nested_frame_restored:
  assumes "utcb_wf u" "frame_room u"
  shows "\<exists>u1. frame_new u = Inr u1
    \<and> (\<forall>ops u2. roomy_ops ops u1 \<longrightarrow> run_ops ops u1 = Inr u2 \<longrightarrow>
         (\<exists>u3. frame_delete u2 = Inr u3 \<and> same_frame u u3 \<and> same_middle u u3 \<and> utcb_wf u3))"
proof -
  obtain u1 where u1: "frame_new u = Inr u1" "saved u u1" "layer u1 = layer u + 1" "utcb_wf u1"
    by (rule frame_new_saves [OF assms])
  have "\<exists>u3. frame_delete u2 = Inr u3 \<and> same_frame u u3 \<and> same_middle u u3 \<and> utcb_wf u3"
    if "roomy_ops ops u1" "run_ops ops u1 = Inr u2" for ops u2
    using frame_delete_restores [OF assms u1(2-4)] run_ok(2) [OF u1(4) that] by metis
  then show ?thesis using u1(1) by blast
qed

theorem utcb_nested_frame_restored_witness:
  "\<exists>u1 u2 u3. frame_new ((replicate 512 0)[1 := 2, 5 := 7, 6 := 8, 258 := 0x1000]) = Inr u1
    \<and> run_ops [DelWindow 0x1234, Clear, XltWindow 0x5678] u1 = Inr u2
    \<and> frame_delete u2 = Inr u3 \<and> same_frame ((replicate 512 0)[1 := 2, 5 := 7, 6 := 8, 258 := 0x1000]) u3"
proof -
  let ?u = "(replicate 512 0)[1 := 2, 5 := 7, 6 := 8, 258 := 0x1000] :: utcb"
  let ?ops = "[DelWindow 0x1234, Clear, XltWindow 0x5678]"
  define x where "x = ?u"
  have p: "pos_word x = 0x1000" "mtr x = 2" "length x = 512" by (simp_all add: x_def pos_word_def mtr_def utcb_consts)
  have "utcb_wf x" "frame_room x"
    by (simp_all add: utcb_wf_def frame_room_def untyped_count_def typed_count_def layer_def untyped_def typed_def p)
  then have w: "utcb_wf ?u" "frame_room ?u" by (simp_all only: x_def)
  obtain u1 where u1: "frame_new ?u = Inr u1"
    "\<forall>ops u2. roomy_ops ops u1 \<longrightarrow> run_ops ops u1 = Inr u2 \<longrightarrow>
         (\<exists>u3. frame_delete u2 = Inr u3 \<and> same_frame ?u u3 \<and> same_middle ?u u3 \<and> utcb_wf u3)"
    using utcb_nested_frame_restored [OF w] by blast
  moreover have "roomy_ops ?ops u1" "\<exists>u2. run_ops ?ops u1 = Inr u2" by simp_all
  ultimately show ?thesis by blast
qed

subsection \<open>Items are read back\<close>

lemma words_nth:
  assumes "utcb_wf u" "i < untyped u"
  shows "untyped_words u ! i = u ! (5 + i)" "length (untyped_words u) = untyped u"
proof -
  have w: "length u = 512" "untyped u \<le> 253" using assms(1) by (simp_all add: utcb_wf_def)
  show "untyped_words u ! i = u ! (5 + i)" "length (untyped_words u) = untyped u"
    using assms(2) w by (simp_all add: untyped_words_def)
qed

lemma words_length: "utcb_wf u \<Longrightarrow> length (untyped_words u) = untyped u"
  by (simp add: untyped_words_def utcb_wf_def)

lemma typed_items_take:
  assumes "2 * t \<le> 253" "\<And>i. 512 - 2 * t \<le> i \<Longrightarrow> i < 512 \<Longrightarrow> v ! i = (u :: utcb) ! i"
  shows "map (\<lambda>i. (v ! (512 - (i * 2 + 2)), v ! (512 - (i * 2 + 1)))) [0..<t]
    = map (\<lambda>i. (u ! (512 - (i * 2 + 2)), u ! (512 - (i * 2 + 1)))) [0..<t]"
proof (rule map_cong [OF refl])
  fix i assume "i \<in> set [0..<t]"
  then have i: "i < t" by simp
  have "v ! (512 - (i * 2 + 2)) = u ! (512 - (i * 2 + 2))" "v ! (512 - (i * 2 + 1)) = u ! (512 - (i * 2 + 1))"
    by (rule assms(2); use i assms(1) in linarith)+
  then show "(v ! (512 - (i * 2 + 2)), v ! (512 - (i * 2 + 1))) = (u ! (512 - (i * 2 + 2)), u ! (512 - (i * 2 + 1)))" by (simp only:)
qed

lemma items_same_frame:
  assumes "utcb_wf u" "utcb_wf v" "same_frame u v"
  shows "untyped_words v = untyped_words u" "typed_items v = typed_items u"
proof -
  have "v ! 1 = u ! 1" using assms(3) by (simp add: same_frame_def HEAD_def)
  then have h: "untyped v = untyped u" "typed v = typed u" by (simp_all add: untyped_def typed_def mtr_def)
  have t: "2 * typed u \<le> 253" using assms(1) by (simp add: utcb_wf_def)
  show "untyped_words v = untyped_words u"
    by (rule nth_equalityI) (use assms h words_length words_nth in \<open>auto simp: same_frame_def HEAD_def\<close>)
  show "typed_items v = typed_items u" unfolding typed_items_def h
    by (rule typed_items_take [OF t]) (use assms(3) in \<open>simp add: same_frame_def\<close>)
qed

lemma put_words_items:
  assumes "utcb_wf u" "put_words ws u = Inr v"
  shows "untyped_words v = untyped_words u @ ws" "typed_items v = typed_items u"
proof -
  note p = put_words_ok [OF assms]
  have t: "2 * typed u \<le> 253" using assms(1) by (simp add: utcb_wf_def)
  show "untyped_words v = untyped_words u @ ws"
  proof (rule nth_equalityI)
    show "length (untyped_words v) = length (untyped_words u @ ws)" using p(3) words_length [OF p(1)] words_length [OF assms(1)] by simp
    fix i assume "i < length (untyped_words v)"
    then have i: "i < untyped v" using words_length [OF p(1)] by simp
    show "untyped_words v ! i = (untyped_words u @ ws) ! i"
    proof (cases "i < untyped u")
      case True
      then show ?thesis using words_nth [OF p(1) i] words_nth [OF assms(1) True] p(6) [of "5 + i"] by (simp add: nth_append)
    next
      case False
      then show ?thesis using words_nth [OF p(1) i] words_length [OF assms(1)] p(7) [of "i - untyped u"] i p(3) by (simp add: nth_append)
    qed
  qed
  show "typed_items v = typed_items u" unfolding typed_items_def p(4) by (rule typed_items_take [OF t]) (rule p(5))
qed

lemma add_typed_items:
  assumes "utcb_wf u" "add_typed c aux u = Inr v"
  shows "untyped_words v = untyped_words u" "typed_items v = typed_items u @ [(c, aux)]"
proof -
  note p = add_typed_ok [OF assms]
  have t: "2 * typed u \<le> 253" using assms(1) by (simp add: utcb_wf_def)
  show "untyped_words v = untyped_words u"
    by (rule nth_equalityI) (use p words_length words_nth assms(1) in auto)
  have "map (\<lambda>i. (v ! (512 - (i * 2 + 2)), v ! (512 - (i * 2 + 1)))) [0..<typed u] = typed_items u"
    unfolding typed_items_def by (rule typed_items_take [OF t]) (rule p(8))
  moreover have "[0..<typed v] = [0..<typed u] @ [typed u]" using p(3) by simp
  ultimately show "typed_items v = typed_items u @ [(c, aux)]"
    unfolding typed_items_def [of v] by (simp only: map_append list.map p(6,7))
qed

lemma window_items:
  assumes "utcb_wf u" "i = 2 \<or> i = 3"
  shows "untyped_words (u[i := w]) = untyped_words u" "typed_items (u[i := w]) = typed_items u"
proof -
  have h: "untyped (u[i := w]) = untyped u" "typed (u[i := w]) = typed u" using assms(2) by (auto simp: untyped_def typed_def mtr_def)
  have t: "2 * typed u \<le> 253" using assms(1) by (simp add: utcb_wf_def)
  show "untyped_words (u[i := w]) = untyped_words u" unfolding untyped_words_def h using assms(2) by (auto simp: drop_update_cancel)
  show "typed_items (u[i := w]) = typed_items u" unfolding typed_items_def h
    by (rule typed_items_take [OF t]) (use assms(2) t in auto)
qed

lemma run_ops_items:
  "utcb_wf u \<Longrightarrow> roomy_ops ops u \<Longrightarrow> list_all op_keeps ops \<Longrightarrow> run_ops ops u = Inr v \<Longrightarrow>
     utcb_wf v \<and> untyped_words v = untyped_words u @ concat (map op_words ops)
     \<and> typed_items v = typed_items u @ concat (map op_typed ops)"
proof (induction ops arbitrary: u)
  case (Cons op ops)
  obtain u1 where u1: "run_op op u = Inr u1" "run_ops ops u1 = Inr v" using Cons.prems(4) by (auto simp: bindR_eq_Inr)
  have r: "roomy_op op u" "roomy_ops ops u1" using Cons.prems(2) u1(1) by simp_all
  have w: "utcb_wf u1" using run_ok(1) [OF Cons.prems(1) r(1) u1(1)] by simp
  have "untyped_words u1 = untyped_words u @ op_words op \<and> typed_items u1 = typed_items u @ op_typed op"
  proof (cases op)
    case (PutWords ws)
    then show ?thesis using put_words_items [OF Cons.prems(1), of ws u1] u1(1) by simp
  next
    case (AddTyped c aux)
    then show ?thesis using add_typed_items [OF Cons.prems(1), of c aux u1] u1(1) by simp
  next
    case (DelWindow c)
    then show ?thesis using window_items [OF Cons.prems(1), of 3 c] u1(1) by (auto simp: set_delegation_window_def)
  next
    case (XltWindow c)
    then show ?thesis using window_items [OF Cons.prems(1), of 2 c] u1(1) by (auto simp: set_translation_window_def)
  next
    case (Nested nops)
    have "same_middle x y" if "frame_new u = Inr x" "utcb_wf x" "run_ops nops x = Inr y" for x y
      using run_ok(2) [OF that(2) _ that(3)] r(1) that(1) by (simp add: Nested)
    from nested_ok [OF Cons.prems(1) _ this] have "same_frame u u1" using r(1) u1(1) by (simp add: Nested)
    then show ?thesis using items_same_frame [OF Cons.prems(1) w] by (simp add: Nested)
  qed (use Cons.prems(3) in simp_all)
  then show ?case using Cons.IH [OF w r(2) _ u1(2)] Cons.prems(3) by simp
qed simp

lemma get_words_ok:
  assumes "utcb_wf u"
  shows "get_words n f u = (if upos f + n \<le> untyped u then Inr (take n (drop (upos f) (untyped_words u)), f\<lparr>upos := upos f + n\<rparr>)
    else Inl (Throw E_UTCB_UNTYPED))"
proof -
  have w: "length u = 512" "untyped u \<le> 253" using assms by (simp_all add: utcb_wf_def)
  have "take n (drop (5 + upos f) u) = take n (drop (upos f) (untyped_words u))" if "upos f + n \<le> untyped u"
    using that by (simp add: untyped_words_def drop_take min_def add.commute)
  then show ?thesis using w by (simp add: get_words_def check_untyped_read_def HEAD_def WORDS_def)
qed

lemma get_typed_ok:
  assumes "utcb_wf u"
  shows "get_typed f u = (if tpos f < typed u then Inr (typed_items u ! tpos f, f\<lparr>tpos := tpos f + 1\<rparr>) else Inl (Throw E_UTCB_TYPED))"
proof -
  have "2 * typed u \<le> 253" using assms by (simp add: utcb_wf_def)
  then show ?thesis by (simp add: get_typed_def check_typed_read_def typed_items_def WORDS_def)
qed

lemma typed_items_length: "length (typed_items u) = typed u"
  by (simp add: typed_items_def)

text \<open>A write succeeds exactly when the items fit in front of the saved frames.\<close>

lemma put_words_iff:
  assumes "utcb_wf u"
  shows "(\<exists>v. put_words ws u = Inr v) \<longleftrightarrow> untyped u + length ws + untyped_count u \<le> 253"
proof -
  have "untyped u + untyped_count u \<le> 253" using assms by (simp add: utcb_wf_def)
  then show ?thesis using free_untyped_eq [OF assms]
    by (auto simp: put_words_def check_untyped_write_def utcb_consts bindR_eq_Inr)
qed

lemma add_typed_iff:
  assumes "utcb_wf u"
  shows "(\<exists>v. add_typed c aux u = Inr v) \<longleftrightarrow> 2 * typed u + 2 + typed_count u \<le> 253"
proof -
  have w: "2 * typed u + typed_count u \<le> 253" "length u = 512" using assms by (simp_all add: utcb_wf_def)
  have "1 \<le> (253 - typed_count u - 2 * typed u) div 2 \<longleftrightarrow> 2 * typed u + 2 + typed_count u \<le> 253"
    using w(1) by linarith
  then show ?thesis using free_typed_eq [OF assms] w
    by (auto simp: add_typed_def check_typed_write_def write_word_def utcb_consts bindR_eq_Inr)
qed

lemma same_middle_counts:
  assumes "same_middle u v"
  shows "untyped_count v = untyped_count u" "typed_count v = typed_count u"
proof -
  have "v ! 258 = u ! 258" using assms by (simp add: same_middle_def)
  then show "untyped_count v = untyped_count u" "typed_count v = typed_count u"
    by (simp_all add: untyped_count_def typed_count_def pos_word_def utcb_consts)
qed

text \<open>Claim C13. Whatever is written into a frame is read back in the same order: after any sequence of successful
  writes of whole words, window settings and completely used inner frames, where an inner frame is only created while the frame
  around it has room to be saved, reading untyped words or a typed item yields exactly the next written ones, and reading past the
  last one throws.\<close>

theorem utcb_items_roundtrip:
  assumes "utcb_wf u" "roomy_ops ops u" "list_all op_keeps ops" "run_ops ops u = Inr v"
  shows "get_words n f v =
      (let ws = untyped_words u @ concat (map op_words ops)
       in if upos f + n \<le> length ws then Inr (take n (drop (upos f) ws), f\<lparr>upos := upos f + n\<rparr>) else Inl (Throw E_UTCB_UNTYPED))
    \<and> get_typed f v =
      (let ts = typed_items u @ concat (map op_typed ops)
       in if tpos f < length ts then Inr (ts ! tpos f, f\<lparr>tpos := tpos f + 1\<rparr>) else Inl (Throw E_UTCB_TYPED))"
proof -
  note v = run_ops_items [OF assms]
  then have w: "utcb_wf v" by simp
  show ?thesis
    using get_words_ok [OF w, of n f] words_length [OF w] get_typed_ok [OF w, of f] typed_items_length [of v] v by simp
qed

theorem utcb_items_roundtrip_witness:
  "\<exists>v. run_ops [PutWords [1, 2], AddTyped 0x55 1, PutWords [3]] (replicate 512 0) = Inr v
    \<and> get_words 2 \<lparr>upos = 1, tpos = 0\<rparr> v = Inr ([2, 3], \<lparr>upos = 3, tpos = 0\<rparr>)
    \<and> get_typed \<lparr>upos = 1, tpos = 0\<rparr> v = Inr ((0x55, 1), \<lparr>upos = 1, tpos = 1\<rparr>)
    \<and> get_words 2 \<lparr>upos = 2, tpos = 0\<rparr> v = Inl (Throw E_UTCB_UNTYPED)"
proof -
  let ?ops = "[PutWords [1, 2], AddTyped 0x55 1, PutWords [3]]"
  define x :: utcb where "x = replicate 512 0"
  have p: "pos_word x = 0" "mtr x = 0" "length x = 512" by (simp_all add: x_def pos_word_def mtr_def utcb_consts)
  have wf: "utcb_wf x" and e: "untyped_words x = []" "typed_items x = []"
    by (simp_all add: utcb_wf_def untyped_count_def typed_count_def untyped_def typed_def untyped_words_def typed_items_def p)
  have room: "roomy_ops ?ops x" by (simp split: sum.split)
  have c: "untyped_count x = 0" "typed_count x = 0" "untyped x = 0" "typed x = 0"
    by (simp_all add: untyped_count_def typed_count_def untyped_def typed_def p)
  obtain y where y: "put_words [1, 2] x = Inr y" using put_words_iff [OF wf, of "[1, 2]"] c by auto
  note y1 = put_words_ok [OF wf y] same_middle_counts [OF put_words_ok(2) [OF wf y]]
  obtain z where z: "add_typed 0x55 1 y = Inr z" using add_typed_iff [OF y1(1), of "0x55" 1] y1 c by auto
  note z1 = add_typed_ok [OF y1(1) z] same_middle_counts [OF add_typed_ok(2) [OF y1(1) z]]
  obtain v where "put_words [3] z = Inr v" using put_words_iff [OF z1(1), of "[3]"] y1 z1 c by auto
  then have v: "run_ops ?ops x = Inr v" using y z by simp
  have k: "list_all op_keeps ?ops" by simp
  note r = utcb_items_roundtrip [OF wf room k v]
  show ?thesis unfolding x_def [symmetric] using v r [of 2 "\<lparr>upos = 1, tpos = 0\<rparr>"] r [of 2 "\<lparr>upos = 2, tpos = 0\<rparr>"]
    by (simp add: e)
qed

end
