(* ===== verification/CString.thy ===== *)
theory CString
  imports Prelude
begin

text \<open>
  The memory and string functions of \<^verbatim>\<open>libs/libstdc++/string.c\<close>. The memory is a function from addresses to
  bytes, a word access transfers eight bytes at once, and pointers are 64-bit numbers that wrap around. The
  functions on strings search for a terminating zero and need not return; they are defined in
  the option monad, where not returning is \<^term>\<open>None\<close>. A \<^verbatim>\<open>char\<close> is signed.
\<close>

section \<open>Definitions\<close>

type_synonym mem = "u64 \<Rightarrow> u8"

definition load :: "nat \<Rightarrow> u64 \<Rightarrow> mem \<Rightarrow> u8 list" where
  "load n a m = map (\<lambda>i. m (a + of_nat i)) [0..<n]"

definition store_bytes :: "u64 \<Rightarrow> u8 list \<Rightarrow> mem \<Rightarrow> mem" where
  "store_bytes a bs m = (\<lambda>x. if unat (x - a) < length bs then bs ! unat (x - a) else m x)"

subsection \<open>Copying\<close>

definition copy_byte :: "u64 \<Rightarrow> u64 \<Rightarrow> mem \<Rightarrow> mem" where
  "copy_byte d s m = store_bytes d (load 1 s m) m"

definition copy_word :: "u64 \<Rightarrow> u64 \<Rightarrow> mem \<Rightarrow> mem" where
  "copy_word d s m = store_bytes d (load 8 s m) m"

fun align_loop :: "nat \<Rightarrow> u64 \<Rightarrow> u64 \<Rightarrow> mem \<Rightarrow> nat \<times> u64 \<times> u64 \<times> mem" where
  "align_loop 0 d s m = (0, d, s, m)"
| "align_loop (Suc n) d s m =
     (if unat d mod 8 \<noteq> 0 then align_loop n (d + 1) (s + 1) (copy_byte d s m) else (Suc n, d, s, m))"

definition copy_8_words :: "u64 \<Rightarrow> u64 \<Rightarrow> mem \<Rightarrow> mem" where
  "copy_8_words d s m = fold (\<lambda>i m. copy_word (d + i * 8) (s + i * 8) m) [0, 1, 2, 3, 4, 5, 6, 7] m"

fun unrolled_loop :: "nat \<Rightarrow> u64 \<Rightarrow> u64 \<Rightarrow> mem \<Rightarrow> nat \<times> u64 \<times> u64 \<times> mem" where
  "unrolled_loop n d s m =
     (if 64 \<le> n then unrolled_loop (n - 64) (d + 64) (s + 64) (copy_8_words d s m) else (n, d, s, m))"

fun word_loop :: "nat \<Rightarrow> u64 \<Rightarrow> u64 \<Rightarrow> mem \<Rightarrow> nat \<times> u64 \<times> u64 \<times> mem" where
  "word_loop n d s m =
     (if 8 \<le> n then word_loop (n - 8) (d + 8) (s + 8) (copy_word d s m) else (n, d, s, m))"

fun byte_loop :: "nat \<Rightarrow> u64 \<Rightarrow> u64 \<Rightarrow> mem \<Rightarrow> mem" where
  "byte_loop 0 d s m = m"
| "byte_loop (Suc n) d s m = byte_loop n (d + 1) (s + 1) (copy_byte d s m)"

declare unrolled_loop.simps [simp del] word_loop.simps [simp del]

definition memcpy :: "u64 \<Rightarrow> u64 \<Rightarrow> u64 \<Rightarrow> mem \<Rightarrow> u64 \<times> mem" where
  "memcpy dest src len m =
     (let (n, d, s, m) = (if unat dest mod 8 = unat src mod 8 then align_loop (unat len) dest src m
                          else (unat len, dest, src, m));
          (n, d, s, m) = unrolled_loop n d s m;
          (n, d, s, m) = word_loop n d s m
      in (dest, byte_loop n d s m))"

fun down_words :: "nat \<Rightarrow> u64 \<Rightarrow> u64 \<Rightarrow> mem \<Rightarrow> nat \<times> u64 \<times> u64 \<times> mem" where
  "down_words n d s m =
     (if 8 \<le> n then down_words (n - 8) (d - 8) (s - 8) (copy_word d s m) else (n, d, s, m))"

fun down_bytes :: "nat \<Rightarrow> u64 \<Rightarrow> u64 \<Rightarrow> mem \<Rightarrow> mem" where
  "down_bytes 0 d s m = m"
| "down_bytes (Suc n) d s m = down_bytes n (d - 1) (s - 1) (copy_byte d s m)"

declare down_words.simps [simp del]

definition memmove :: "u64 \<Rightarrow> u64 \<Rightarrow> u64 \<Rightarrow> mem \<Rightarrow> u64 \<times> mem" where
  "memmove dest src count m =
     (if dest = src \<or> count = 0 then (dest, m)
      else if dest > src
      then (let (n, d, s, m) = down_words (unat count) (dest + count - 8) (src + count - 8) m
            in (dest, down_bytes n (d + 7) (s + 7) m))
      else (dest, snd (memcpy dest src count m)))"

subsection \<open>Filling\<close>

fun set_align_loop :: "nat \<Rightarrow> u64 \<Rightarrow> u8 \<Rightarrow> mem \<Rightarrow> nat \<times> u64 \<times> mem" where
  "set_align_loop 0 a v m = (0, a, m)"
| "set_align_loop (Suc n) a v m =
     (if unat a mod 8 \<noteq> 0 then set_align_loop n (a + 1) v (m(a := v)) else (Suc n, a, m))"

definition dword_bytes :: "u32 \<Rightarrow> u8 list" where
  "dword_bytes w = [ucast w, ucast (drop_bit 8 w), ucast (drop_bit 16 w), ucast (drop_bit 24 w)]"

fun set_dwords :: "nat \<Rightarrow> u64 \<Rightarrow> u32 \<Rightarrow> mem \<Rightarrow> nat \<times> u64 \<times> mem" where
  "set_dwords n a w m =
     (if 4 \<le> n then set_dwords (n - 4) (a + 4) w (store_bytes a (dword_bytes w) m) else (n, a, m))"

fun set_bytes :: "nat \<Rightarrow> u64 \<Rightarrow> u8 \<Rightarrow> mem \<Rightarrow> mem" where
  "set_bytes 0 a v m = m"
| "set_bytes (Suc n) a v m = set_bytes n (a + 1) v (m(a := v))"

declare set_dwords.simps [simp del]

definition dwval :: "u32 \<Rightarrow> u32" where
  "dwval v = push_bit 24 v OR push_bit 16 v OR push_bit 8 v OR v"

definition memset :: "u64 \<Rightarrow> u32 \<Rightarrow> u64 \<Rightarrow> mem \<Rightarrow> u64 \<times> mem" where
  "memset addr v count m =
     (let (n, a, m) = set_align_loop (unat count) addr (ucast v) m;
          (n, a, m) = set_dwords n a (dwval v) m
      in (addr, set_bytes n a (ucast v) m))"

subsection \<open>Comparing\<close>

fun memcmp_loop :: "nat \<Rightarrow> u64 \<Rightarrow> u64 \<Rightarrow> mem \<Rightarrow> int" where
  "memcmp_loop 0 p q m = 0"
| "memcmp_loop (Suc n) p q m =
     (if m p \<noteq> m q then (if m p < m q then - 1 else 1) else memcmp_loop n (p + 1) (q + 1) m)"

definition memcmp :: "u64 \<Rightarrow> u64 \<Rightarrow> u64 \<Rightarrow> mem \<Rightarrow> int" where
  "memcmp p q count m = memcmp_loop (unat count) p q m"

partial_function (option) strcmp :: "u64 \<Rightarrow> u64 \<Rightarrow> mem \<Rightarrow> int option" where
  "strcmp p q m =
     (if m p \<noteq> 0 \<and> m q \<noteq> 0
      then if m p \<noteq> m q then Some (if sint (m p) > sint (m q) then 1 else - 1) else strcmp (p + 1) (q + 1) m
      else if m p = 0 \<and> m q = 0 then Some 0
      else if m p = 0 \<and> m q \<noteq> 0 then Some (- 1)
      else Some 1)"

partial_function (option) strncmp_loop :: "u64 \<Rightarrow> u64 \<Rightarrow> int \<Rightarrow> mem \<Rightarrow> int res option" where
  "strncmp_loop p q rem m =
     (if m p \<noteq> 0 \<and> m q \<noteq> 0
      then if rem > 0
           then if m p \<noteq> m q then Some (Inr (if sint (m p) < sint (m q) then - 1 else 1))
                else strncmp_loop (p + 1) (q + 1) (rem - 1) m
           else if rem = - (2 ^ 63) then Some (Inl Undefined) else Some (Inr 0)
      else if rem \<le> 0 then Some (Inr 0)
      else if m p \<noteq> 0 \<and> m q = 0 then Some (Inr 1)
      else Some (Inr (- 1)))"

definition strncmp :: "u64 \<Rightarrow> u64 \<Rightarrow> u64 \<Rightarrow> mem \<Rightarrow> int res option" where
  "strncmp p q count m = strncmp_loop p q (sint count) m"

subsection \<open>Searching\<close>

partial_function (option) strlen_loop :: "u64 \<Rightarrow> u64 \<Rightarrow> mem \<Rightarrow> u64 option" where
  "strlen_loop len src m = (if m src \<noteq> 0 then strlen_loop (len + 1) (src + 1) m else Some len)"

definition strlen :: "u64 \<Rightarrow> mem \<Rightarrow> u64 option" where
  "strlen src m = strlen_loop 0 src m"

text \<open>The null pointer is the address 0.\<close>

partial_function (option) strchr :: "u64 \<Rightarrow> int \<Rightarrow> mem \<Rightarrow> u64 option" where
  "strchr str ch m =
     (if m str \<noteq> 0 then if sint (m str) = ch then Some str else strchr (str + 1) ch m else Some 0)"

partial_function (option) match_loop :: "u64 \<Rightarrow> u64 \<Rightarrow> mem \<Rightarrow> (u64 \<times> u64) option" where
  "match_loop str sub m =
     (if m sub \<noteq> 0 \<and> m str = m sub then match_loop (str + 1) (sub + 1) m else Some (str, sub))"

partial_function (option) strstr_loop :: "u64 \<Rightarrow> u64 \<Rightarrow> mem \<Rightarrow> u64 option" where
  "strstr_loop str1 str2 m =
     (if m str1 \<noteq> 0
      then if m str1 = m str2
           then Option.bind (match_loop str1 str2 m) (\<lambda>r.
                if m (snd r) = 0 then Some str1 else strstr_loop (fst r) str2 m)
           else strstr_loop (str1 + 1) str2 m
      else Some 0)"

definition strstr :: "u64 \<Rightarrow> u64 \<Rightarrow> mem \<Rightarrow> u64 option" where
  "strstr str1 str2 m = (if m str2 = 0 then Some 0 else strstr_loop str1 str2 m)"

partial_function (option) strcspn_loop :: "u64 \<Rightarrow> u64 \<Rightarrow> u64 \<Rightarrow> mem \<Rightarrow> u64 option" where
  "strcspn_loop res s reject m =
     (if m (s + res) \<noteq> 0
      then Option.bind (strchr reject (sint (m (s + res))) m) (\<lambda>r.
           if r = 0 then strcspn_loop (res + 1) s reject m else Some res)
      else Some res)"

definition strcspn :: "u64 \<Rightarrow> u64 \<Rightarrow> mem \<Rightarrow> u64 option" where
  "strcspn s reject m = strcspn_loop 0 s reject m"

subsection \<open>Specification\<close>

text \<open>All bytes at once, from the old contents of the memory.\<close>

definition moved :: "nat \<Rightarrow> u64 \<Rightarrow> u64 \<Rightarrow> mem \<Rightarrow> mem" where
  "moved n d s m = store_bytes d (load n s m) m"

text \<open>The string at an address: a sequence of bytes other than zero, and a zero behind it.\<close>

fun cstr :: "mem \<Rightarrow> u64 \<Rightarrow> u8 list \<Rightarrow> bool" where
  "cstr m a [] \<longleftrightarrow> m a = 0"
| "cstr m a (b # bs) \<longleftrightarrow> b \<noteq> 0 \<and> m a = b \<and> cstr m (a + 1) bs"

fun compare_chars :: "u8 list \<Rightarrow> u8 list \<Rightarrow> int" where
  "compare_chars [] [] = 0"
| "compare_chars [] (y # ys) = - 1"
| "compare_chars (x # xs) [] = 1"
| "compare_chars (x # xs) (y # ys) =
     (if x = y then compare_chars xs ys else if sint x < sint y then - 1 else 1)"

definition copied :: "nat \<Rightarrow> u64 \<Rightarrow> u64 \<Rightarrow> mem \<Rightarrow> nat \<times> u64 \<times> u64 \<times> mem \<Rightarrow> bool" where
  "copied N d s m r \<longleftrightarrow> (case r of (n, d', s', m') \<Rightarrow>
     \<exists>k. k + n = N \<and> d' = d + of_nat k \<and> s' = s + of_nat k \<and> m' = moved k d s m)"

definition filled :: "nat \<Rightarrow> u64 \<Rightarrow> u8 \<Rightarrow> mem \<Rightarrow> mem" where
  "filled n a v m = (\<lambda>x. if unat (x - a) < n then v else m x)"

definition filling :: "nat \<Rightarrow> u64 \<Rightarrow> u8 \<Rightarrow> mem \<Rightarrow> nat \<times> u64 \<times> mem \<Rightarrow> bool" where
  "filling N a v m r \<longleftrightarrow> (case r of (n, a', m') \<Rightarrow> \<exists>k. k + n = N \<and> a' = a + of_nat k \<and> m' = filled k a v m)"

definition char_less :: "u8 rel" where
  "char_less = {(x, y). sint x < sint y}"

fun common :: "u8 list \<Rightarrow> u8 list \<Rightarrow> nat" where
  "common (x # xs) (y # ys) = (if x = y then Suc (common xs ys) else 0)"
| "common xs ys = 0"

definition occurs :: "u8 list \<Rightarrow> u8 list \<Rightarrow> nat \<Rightarrow> bool" where
  "occurs b a i \<longleftrightarrow> i + length b \<le> length a \<and> take (length b) (drop i a) = b"

section \<open>Lemmas\<close>

subsection \<open>Copying in pieces\<close>

lemma moved_apply: "moved n d s m x = (if unat (x - d) < n then m (s + (x - d)) else m x)"
  by (simp add: moved_def store_bytes_def load_def)

lemma moved_0 [simp]: "moved 0 d s m = m"
  by (rule ext) (simp add: moved_apply)

lemma copy_moved: "copy_byte d s m = moved 1 d s m" "copy_word d s m = moved 8 d s m"
  by (simp_all add: copy_byte_def copy_word_def moved_def)

lemma unat_minus_of_nat:
  fixes w :: u64
  assumes "a < 2 ^ 64"
  shows "unat (w - of_nat a) = (if a \<le> unat w then unat w - a else unat w + 2 ^ 64 - a)"
proof -
  have a: "unat (of_nat a :: u64) = a" using assms by (simp add: unat_of_nat)
  have w: "unat w < 2 ^ 64" using unat_bound [of w] by simp
  show ?thesis
  proof (cases "a \<le> unat w")
    case True
    then have "of_nat a \<le> w" using a by (simp only: word_le_nat_alt)
    then show ?thesis using True a by (simp add: unat_diff_small)
  next
    case False
    define r :: u64 where "r = w - of_nat a"
    have "w = r + of_nat a" by (simp add: r_def)
    then have "unat w = (unat r + a) mod 2 ^ 64" using a by (simp only: unat_word_ariths len64)
    moreover have "unat r < 2 ^ 64" using unat_bound [of r] by simp
    ultimately have "unat r + a = unat w + 2 ^ 64" using False w assms by (auto simp: mod_if split: if_splits)
    then show ?thesis using False unfolding r_def [symmetric] by simp
  qed
qed

lemma moved_forward:
  assumes "unat (s - d) + (a + b) \<le> 2 ^ 64"
  shows "moved b (d + of_nat a) (s + of_nat a) (moved a d s m) = moved (a + b) d s m"
proof (cases "b = 0")
  case False
  then have a: "a < 2 ^ 64" using assms by simp
  show ?thesis
  proof (rule ext)
    fix x
    define y where "y = x - d"
    define e where "e = s - d"
    have x: "x - (d + of_nat a) = y - of_nat a" "s + of_nat a + (y - of_nat a) = s + y" "s + y - d = e + y"
      by (simp_all add: y_def e_def)
    have y: "unat y < 2 ^ 64" "unat e < 2 ^ 64" using unat_bound [of y] unat_bound [of e] by simp_all
    have r: "unat (y - of_nat a) < b \<longleftrightarrow> a \<le> unat y \<and> unat y < a + b"
      using unat_minus_of_nat [OF a, of y] assms y by (auto simp: e_def [symmetric])
    have "\<not> unat (e + y) < a" if "a \<le> unat y" "unat y < a + b"
    proof -
      have "unat e + unat y < 2 ^ 64" using that assms by (simp add: e_def)
      then have "unat (e + y) = unat e + unat y" by (simp add: unat_add_small)
      then show ?thesis using that by simp
    qed
    then show "moved b (d + of_nat a) (s + of_nat a) (moved a d s m) x = moved (a + b) d s m x"
      unfolding moved_apply x(1) y_def [symmetric] r x(2,3) by auto
  qed
qed simp

lemma moved_backward:
  assumes "unat (d - s) + (a + b) \<le> 2 ^ 64"
  shows "moved a d s (moved b (d + of_nat a) (s + of_nat a) m) = moved (a + b) d s m"
proof (cases "b = 0")
  case False
  then have a: "a < 2 ^ 64" using assms by simp
  show ?thesis
  proof (rule ext)
    fix x
    define y where "y = x - d"
    define e where "e = d - s"
    have x: "x - (d + of_nat a) = y - of_nat a" "s + of_nat a + (y - of_nat a) = s + y" "s + y - (d + of_nat a) = y - e - of_nat a"
      by (simp_all add: y_def e_def)
    have y: "unat y < 2 ^ 64" "unat e < 2 ^ 64" using unat_bound [of y] unat_bound [of e] by simp_all
    have r: "unat (y - of_nat a) < b \<longleftrightarrow> a \<le> unat y \<and> unat y < a + b"
      using unat_minus_of_nat [OF a, of y] assms y by (auto simp: e_def [symmetric])
    have "\<not> unat (y - e - of_nat a) < b" if "unat y < a"
    proof -
      have e: "unat (y - e) = (if unat e \<le> unat y then unat y - unat e else unat y + 2 ^ 64 - unat e)"
        using unat_minus_of_nat [OF y(2), of y] by simp
      show ?thesis using that assms y unfolding unat_minus_of_nat [OF a] e e_def [symmetric] by auto
    qed
    then show "moved a d s (moved b (d + of_nat a) (s + of_nat a) m) x = moved (a + b) d s m x"
      unfolding moved_apply x(1) y_def [symmetric] r x(2,3) by auto
  qed
qed simp

text \<open>What a loop has done when \<^term>\<open>n\<close> of \<^term>\<open>N\<close> bytes are left.\<close>

lemma copied_start: "copied n d s m (n, d, s, m)"
  by (simp add: copied_def)

lemma copied_step:
  assumes "unat (s - d) + N \<le> 2 ^ 64" "copied N d s m (n, d', s', m')" "j \<le> n" "w = of_nat j"
  shows "copied N d s m (n - j, d' + w, s' + w, moved j d' s' m')"
proof -
  obtain k where k: "k + n = N" "d' = d + of_nat k" "s' = s + of_nat k" "m' = moved k d s m"
    using assms(2) by (auto simp: copied_def)
  have "moved j d' s' m' = moved (k + j) d s m"
    unfolding k(2-4) by (rule moved_forward) (use assms(1,3) k(1) in simp)
  then show ?thesis using k assms(3,4) by (auto simp: copied_def add.assoc intro!: exI [of _ "k + j"])
qed

lemma align_copied:
  "unat (s - d) + N \<le> 2 ^ 64 \<Longrightarrow> copied N d s m (n, d', s', m') \<Longrightarrow> copied N d s m (align_loop n d' s' m')"
proof (induction n d' s' m' rule: align_loop.induct)
  case (2 n d' s' m')
  then show ?case using copied_step [OF 2(2,3), of 1 1] by (simp add: copy_moved)
qed simp

lemma eight_moved:
  assumes "unat (s - d) + 64 \<le> 2 ^ 64"
  shows "copy_8_words d s m = moved 64 d s m"
proof -
  have f: "moved 8 (d + of_nat k) (s + of_nat k) (moved k d s m) = moved (k + 8) d s m" if "k \<le> 56" for k
    by (rule moved_forward) (use assms that in simp)
  show ?thesis
    using f [of 8] f [of 16] f [of 24] f [of 32] f [of 40] f [of 48] f [of 56]
    by (simp add: copy_8_words_def copy_moved)
qed

lemma unrolled_copied:
  "unat (s - d) + N \<le> 2 ^ 64 \<Longrightarrow> copied N d s m (n, d', s', m') \<Longrightarrow> copied N d s m (unrolled_loop n d' s' m')"
proof (induction n d' s' m' rule: unrolled_loop.induct)
  case (1 n d' s' m')
  show ?case
  proof (cases "64 \<le> n")
    case True
    obtain k where k: "k + n = N" "d' = d + of_nat k" "s' = s + of_nat k" using 1(3) by (auto simp: copied_def)
    have "copy_8_words d' s' m' = moved 64 d' s' m'"
      by (rule eight_moved) (use 1(2) k True in simp)
    then show ?thesis using 1(1) [OF True 1(2)] copied_step [OF 1(2,3) True, of 64] True
      by (subst unrolled_loop.simps) simp
  next
    case False
    then show ?thesis using 1(3) by (subst unrolled_loop.simps) simp
  qed
qed

lemma word_copied:
  "unat (s - d) + N \<le> 2 ^ 64 \<Longrightarrow> copied N d s m (n, d', s', m') \<Longrightarrow> copied N d s m (word_loop n d' s' m')"
proof (induction n d' s' m' rule: word_loop.induct)
  case (1 n d' s' m')
  show ?case
  proof (cases "8 \<le> n")
    case True
    then show ?thesis using 1(1) [OF True 1(2)] copied_step [OF 1(2,3) True, of 8]
      by (subst word_loop.simps) (simp add: copy_moved)
  next
    case False
    then show ?thesis using 1(3) by (subst word_loop.simps) simp
  qed
qed

lemma byte_copied:
  "unat (s - d) + N \<le> 2 ^ 64 \<Longrightarrow> copied N d s m (n, d', s', m') \<Longrightarrow> byte_loop n d' s' m' = moved N d s m"
proof (induction n d' s' m' rule: byte_loop.induct)
  case (2 n d' s' m')
  then show ?case using copied_step [OF 2(2,3), of 1 1] by (simp add: copy_moved)
qed (auto simp: copied_def)

lemma memcpy_moves:
  assumes "unat (src - dest) + unat len \<le> 2 ^ 64"
  shows "memcpy dest src len m = (dest, moved (unat len) dest src m)"
proof -
  define a where "a = (if unat dest mod 8 = unat src mod 8 then align_loop (unat len) dest src m else (unat len, dest, src, m))"
  have "copied (unat len) dest src m a" using align_copied [OF assms copied_start] by (simp add: a_def copied_start)
  moreover obtain n d s m1 where a: "a = (n, d, s, m1)" by (cases a)
  ultimately have "copied (unat len) dest src m (unrolled_loop n d s m1)" using unrolled_copied [OF assms] by simp
  moreover obtain n2 d2 s2 m2 where b: "unrolled_loop n d s m1 = (n2, d2, s2, m2)" by (cases "unrolled_loop n d s m1")
  ultimately have "copied (unat len) dest src m (word_loop n2 d2 s2 m2)" using word_copied [OF assms] by simp
  moreover obtain n3 d3 s3 m3 where c: "word_loop n2 d2 s2 m2 = (n3, d3, s3, m3)" by (cases "word_loop n2 d2 s2 m2")
  ultimately have "byte_loop n3 d3 s3 m3 = moved (unat len) dest src m" using byte_copied [OF assms] by simp
  then show ?thesis by (simp add: memcpy_def a_def [symmetric] a b c Let_def)
qed

text \<open>The same from the end: the last \<^term>\<open>N - n\<close> bytes are done.\<close>

lemma down_words_moved:
  "unat (d - s) + N \<le> 2 ^ 64 \<Longrightarrow> n \<le> N \<Longrightarrow>
   \<exists>n' \<le> n. down_words n (d + of_nat n - 8) (s + of_nat n - 8) (moved (N - n) (d + of_nat n) (s + of_nat n) m)
     = (n', d + of_nat n' - 8, s + of_nat n' - 8, moved (N - n') (d + of_nat n') (s + of_nat n') m)"
proof (induction n rule: less_induct)
  case (less n)
  show ?case
  proof (cases "8 \<le> n")
    case True
    define k where "k = n - 8"
    have k: "n = k + 8" using True by (simp add: k_def)
    have p: "x + of_nat 8 - 8 = x" "d + of_nat n = d + of_nat k + of_nat 8" "s + of_nat n = s + of_nat k + of_nat 8" for x :: u64 by (simp_all add: k)
    have "moved 8 (d + of_nat k) (s + of_nat k) (moved (N - n) (d + of_nat k + of_nat 8) (s + of_nat k + of_nat 8) m)
        = moved (8 + (N - n)) (d + of_nat k) (s + of_nat k) m"
      by (rule moved_backward) (use less.prems k in simp)
    moreover have "8 + (N - n) = N - k" using less.prems(2) k by simp
    ultimately have "down_words n (d + of_nat n - 8) (s + of_nat n - 8) (moved (N - n) (d + of_nat n) (s + of_nat n) m)
        = down_words k (d + of_nat k - 8) (s + of_nat k - 8) (moved (N - k) (d + of_nat k) (s + of_nat k) m)"
      using True by (subst down_words.simps) (simp only: p copy_moved k_def [symmetric] if_True)
    moreover have "k < n" "k \<le> N" using k less.prems(2) by simp_all
    then obtain n' where "n' \<le> k" "down_words k (d + of_nat k - 8) (s + of_nat k - 8) (moved (N - k) (d + of_nat k) (s + of_nat k) m)
        = (n', d + of_nat n' - 8, s + of_nat n' - 8, moved (N - n') (d + of_nat n') (s + of_nat n') m)"
      using less.IH [OF _ less.prems(1)] by blast
    ultimately show ?thesis using k by (intro exI [of _ n']) simp
  next
    case False
    then show ?thesis by (subst down_words.simps) auto
  qed
qed

lemma down_bytes_moved:
  "unat (d - s) + N \<le> 2 ^ 64 \<Longrightarrow> n \<le> N \<Longrightarrow>
   down_bytes n (d + of_nat n - 1) (s + of_nat n - 1) (moved (N - n) (d + of_nat n) (s + of_nat n) m) = moved N d s m"
proof (induction n)
  case (Suc n)
  have "moved 1 (d + of_nat n) (s + of_nat n) (moved (N - Suc n) (d + of_nat n + of_nat 1) (s + of_nat n + of_nat 1) m)
      = moved (1 + (N - Suc n)) (d + of_nat n) (s + of_nat n) m"
    by (rule moved_backward) (use Suc.prems in simp)
  moreover have "1 + (N - Suc n) = N - n" using Suc.prems(2) by simp
  ultimately have "moved 1 (d + of_nat n) (s + of_nat n) (moved (N - Suc n) (d + (1 + of_nat n)) (s + (1 + of_nat n)) m)
      = moved (N - n) (d + of_nat n) (s + of_nat n) m" by (simp add: add.commute add.left_commute)
  then show ?case using Suc by (simp add: copy_moved)
qed simp

lemma memmove_moves:
  assumes "unat dest + unat count \<le> 2 ^ 64" "unat src + unat count \<le> 2 ^ 64"
  shows "memmove dest src count m = (dest, moved (unat count) dest src m)"
proof (cases "dest = src \<or> count = 0")
  case True
  moreover have "moved n x x m = m" for n x by (rule ext) (simp add: moved_apply)
  ultimately show ?thesis by (auto simp: memmove_def)
next
  case False
  show ?thesis
  proof (cases "dest > src")
    case True
    then have o: "unat (dest - src) + unat count \<le> 2 ^ 64"
      using assms(1) by (simp add: unat_diff_small less_imp_le)
    define N where "N = unat count"
    have c: "count = of_nat N" by (simp add: N_def)
    obtain n where n: "n \<le> N" "down_words N (dest + of_nat N - 8) (src + of_nat N - 8) m
        = (n, dest + of_nat n - 8, src + of_nat n - 8, moved (N - n) (dest + of_nat n) (src + of_nat n) m)"
      using down_words_moved [OF o [folded N_def], of N m] by auto
    have "dest + of_nat n - 8 + 7 = dest + of_nat n - 1" "src + of_nat n - 8 + 7 = src + of_nat n - 1" by simp_all
    then have "down_bytes n (dest + of_nat n - 8 + 7) (src + of_nat n - 8 + 7) (moved (N - n) (dest + of_nat n) (src + of_nat n) m)
        = moved N dest src m"
      using down_bytes_moved [OF o [folded N_def] n(1), of m] by (simp only:)
    then show ?thesis using False True n(2) unfolding memmove_def N_def [symmetric] by (simp add: c del: of_nat_unat) 
  next
    case n: False
    then have "unat (src - dest) + unat count \<le> 2 ^ 64"
      using assms(2) by (simp add: unat_diff_small not_less)
    from memcpy_moves [OF this] show ?thesis using False n by (simp add: memmove_def)
  qed
qed

subsection \<open>Filling in pieces\<close>

lemma filled_one: "m(a := v) = filled 1 a v m"
  by (rule ext) (auto simp: filled_def unsigned_eq_0_iff)

lemma filled_join:
  assumes "i + j \<le> 2 ^ 64"
  shows "filled j (a + of_nat i) v (filled i a v m) = filled (i + j) a v m"
proof (cases "j = 0")
  case False
  then have i: "i < 2 ^ 64" using assms by simp
  show ?thesis
  proof (rule ext)
    fix x
    have y: "unat (x - a) < 2 ^ 64" using unat_bound [of "x - a"] by simp
    have d: "x - (a + of_nat i) = (x - a) - of_nat i" by simp
    show "filled j (a + of_nat i) v (filled i a v m) x = filled (i + j) a v m x"
      unfolding filled_def d unat_minus_of_nat [OF i] using assms y by auto
  qed
qed (simp add: filled_def)

lemma dword_bytes_dwval:
  fixes b :: u8
  shows "dword_bytes (dwval (ucast b)) = replicate 4 b"
proof -
  have "(ucast (drop_bit (8 * i) (dwval (ucast b))) :: u8) = b" if i: "i < 4" for i
  proof (rule bit_word_eqI)
    fix n assume "n < LENGTH(8)"
    then have n: "n < 8" by simp
    consider "i = 0" | "i = 1" | "i = 2" | "i = 3" using i by (auto simp: less_Suc_eq numeral_eq_Suc)
    then show "bit (ucast (drop_bit (8 * i) (dwval (ucast b))) :: u8) n = bit b n"
      using n by cases (auto simp: dwval_def bit_simps dest: bit_imp_le_length)
  qed
  from this [of 0] this [of 1] this [of 2] this [of 3] show ?thesis
    by (simp add: dword_bytes_def numeral_eq_Suc)
qed

lemma store_filled: "store_bytes a (replicate n v) m = filled n a v m"
  by (rule ext) (simp add: store_bytes_def filled_def)

lemma filling_start: "filling n a v m (n, a, m)"
  by (auto simp: filling_def filled_def)

lemma filling_step:
  assumes "N \<le> 2 ^ 64" "filling N a v m (n, a', m')" "j \<le> n" "w = of_nat j"
  shows "filling N a v m (n - j, a' + w, filled j a' v m')"
proof -
  obtain k where k: "k + n = N" "a' = a + of_nat k" "m' = filled k a v m" using assms(2) by (auto simp: filling_def)
  have "filled j a' v m' = filled (k + j) a v m" unfolding k(2,3) by (rule filled_join) (use assms k(1) in simp)
  then show ?thesis using k assms(3,4) by (auto simp: filling_def add.assoc intro!: exI [of _ "k + j"])
qed

lemma set_align_filling:
  "N \<le> 2 ^ 64 \<Longrightarrow> filling N a v m (n, a', m') \<Longrightarrow> filling N a v m (set_align_loop n a' v m')"
proof (induction n a' v m' rule: set_align_loop.induct)
  case (2 n a' v m')
  then show ?case using filling_step [OF 2(2,3), of 1 1] by (simp add: filled_one)
qed simp

lemma set_dwords_filling:
  "dword_bytes w = replicate 4 v \<Longrightarrow> N \<le> 2 ^ 64 \<Longrightarrow> filling N a v m (n, a', m') \<Longrightarrow> filling N a v m (set_dwords n a' w m')"
proof (induction n a' w m' rule: set_dwords.induct)
  case (1 n a' w m')
  show ?case
  proof (cases "4 \<le> n")
    case True
    then show ?thesis using 1(1) [OF True 1(2,3)] filling_step [OF 1(3,4) True, of 4]
      by (subst set_dwords.simps) (simp add: 1(2) store_filled)
  next
    case False
    then show ?thesis using 1(4) by (subst set_dwords.simps) simp
  qed
qed

lemma set_bytes_filling:
  "N \<le> 2 ^ 64 \<Longrightarrow> filling N a v m (n, a', m') \<Longrightarrow> set_bytes n a' v m' = filled N a v m"
proof (induction n a' v m' rule: set_bytes.induct)
  case (2 n a' v m')
  then show ?case using filling_step [OF 2(2,3), of 1 1] by (simp add: filled_one)
qed (auto simp: filling_def)

lemma memset_fills:
  assumes "dword_bytes (dwval v) = replicate 4 b" "ucast v = b"
  shows "memset a v count m = (a, filled (unat count) a b m)"
proof -
  define N where "N = unat count"
  have N: "N \<le> 2 ^ 64" using unat_bound [of count] by (simp add: N_def)
  obtain n a' m1 where x: "set_align_loop N a b m = (n, a', m1)" by (cases "set_align_loop N a b m")
  then have "filling N a b m (n, a', m1)" using set_align_filling [OF N filling_start] by metis
  then have "filling N a b m (set_dwords n a' (dwval v) m1)" by (rule set_dwords_filling [OF assms(1) N])
  moreover obtain k c m2 where y: "set_dwords n a' (dwval v) m1 = (k, c, m2)" by (cases "set_dwords n a' (dwval v) m1")
  ultimately have "set_bytes k c b m2 = filled N a b m" using set_bytes_filling [OF N] by simp
  then show ?thesis unfolding memset_def assms(2) N_def [symmetric] by (simp add: x y)
qed

lemma memset_byte:
  fixes b :: u8
  shows "memset a (ucast b) count m = (a, filled (unat count) a b m)"
  by (rule memset_fills [OF dword_bytes_dwval]) (rule bit_word_eqI, simp add: bit_simps)

lemma memset_minus_one: "memset a (- 1) count m = (a, filled (unat count) a 0xff m)"
  by (rule memset_fills; code_simp)

text \<open>Only the low byte of the value should count, but the double words are built from all of it.\<close>

lemma memset_wide_value: "dword_bytes (dwval 0x100) = [0, 1, 1, 1]"
  by code_simp

subsection \<open>The memory functions\<close>

text \<open>Claim C14. The optimised memory functions are equivalent to their byte-wise meaning, for areas that do not
  wrap around: \<^verbatim>\<open>memmove\<close> copies the old contents of the source for every overlap of the areas, \<^verbatim>\<open>memcpy\<close>, with its
  alignment and unrolled word loops, does so when the destination does not begin inside of the source, and \<^verbatim>\<open>memset\<close> fills the
  area for a value from 0 to 255 and for -1, the values that the repository passes; nothing outside of the area changes.\<close>

theorem memory_functions_exact:
  fixes b :: u8
  assumes "unat dest + unat n \<le> 2 ^ 64" "unat src + unat n \<le> 2 ^ 64"
  shows "let copy = (\<lambda>x. if unat (x - dest) < unat n then m (src + (x - dest)) else m x)
    in memmove dest src n m = (dest, copy)
     \<and> (dest \<le> src \<or> unat src + unat n \<le> unat dest \<longrightarrow> memcpy dest src n m = (dest, copy))
     \<and> memset dest (ucast b) n m = (dest, \<lambda>x. if unat (x - dest) < unat n then b else m x)
     \<and> memset dest (- 1) n m = (dest, \<lambda>x. if unat (x - dest) < unat n then 0xff else m x)"
proof -
  have c: "(\<lambda>x. if unat (x - dest) < unat n then m (src + (x - dest)) else m x) = moved (unat n) dest src m"
    by (rule ext) (simp add: moved_apply)
  have f: "(\<lambda>x. if unat (x - dest) < unat n then c else m x) = filled (unat n) dest c m" for c
    by (simp add: filled_def)
  have "unat (src - dest) + unat n \<le> 2 ^ 64" if "dest \<le> src \<or> unat src + unat n \<le> unat dest"
  proof (cases "dest \<le> src")
    case True
    then show ?thesis using assms(2) by (simp add: unat_diff_small)
  next
    case False
    then have "unat src + unat n \<le> unat dest" using that by simp
    then show ?thesis using unat_minus_of_nat [of "unat dest" src] unat_bound [of dest] by (simp split: if_splits)
  qed
  then show ?thesis unfolding Let_def c f
    using memmove_moves [OF assms(1,2), of m] memcpy_moves [of src dest n m] memset_byte [of dest b n m] memset_minus_one [of dest n m] by simp
qed

theorem memory_functions_exact_witness:
  "memmove 0x1003 0x1000 0x15 (\<lambda>x. ucast x)
     = (0x1003, \<lambda>x. if unat (x - 0x1003) < 0x15 then ucast (0x1000 + (x - 0x1003)) else ucast x)
   \<and> memcpy 0x2001 0x1001 0x55 (\<lambda>x. ucast x)
     = (0x2001, \<lambda>x. if unat (x - 0x2001) < 0x55 then ucast (0x1001 + (x - 0x2001)) else ucast x)"
  using memory_functions_exact [of "0x1003" "0x15" "0x1000" "\<lambda>x. ucast x" 0, unfolded Let_def]
    memory_functions_exact [of "0x2001" "0x55" "0x1001" "\<lambda>x. ucast x" 0, unfolded Let_def] by simp

subsection \<open>Strings\<close>

lemma strlen_loop_cstr: "cstr m a s \<Longrightarrow> strlen_loop len a m = Some (len + of_nat (length s))"
proof (induction s arbitrary: a len)
  case (Cons b bs)
  then show ?case by (subst strlen_loop.simps) (simp add: algebra_simps)
qed (simp add: strlen_loop.simps)

lemma strcmp_cstr: "cstr m p a \<Longrightarrow> cstr m q b \<Longrightarrow> strcmp p q m = Some (compare_chars a b)"
proof (induction a b arbitrary: p q rule: compare_chars.induct)
  case (4 x xs y ys)
  have "x = y \<or> x \<noteq> y \<and> sint x < sint y \<or> x \<noteq> y \<and> sint y < sint x" by (metis linorder_neqE_linordered_idom signed_word_eqI)
  then show ?case using 4 by (subst strcmp.simps) (elim disjE; simp)
qed (auto simp: strcmp.simps)

lemma compare_chars_lexord:
  "compare_chars a b = (if a = b then 0 else if (a, b) \<in> lexord char_less then - 1 else 1)"
proof (induction a b rule: compare_chars.induct)
  case (4 x xs y ys)
  then show ?case by (auto simp: char_less_def)
qed simp_all

text \<open>The comparison of at most \<^term>\<open>n\<close> characters. Equal strings that end before are reported as different.\<close>

lemma strncmp_loop_cstr:
  "cstr m p a \<Longrightarrow> cstr m q b \<Longrightarrow>
   strncmp_loop p q (int n) m = Some (Inr (if a = b \<and> length a < n then - 1 else compare_chars (take n a) (take n b)))"
proof (induction a b arbitrary: p q n rule: compare_chars.induct)
  case (4 x xs y ys)
  show ?case
  proof (cases n)
    case 0
    then show ?thesis using 4(2,3) by (subst strncmp_loop.simps) simp
  next
    case (Suc k)
    then show ?thesis using 4 by (subst strncmp_loop.simps) auto
  qed
qed (subst strncmp_loop.simps; auto simp: take_Cons' neq_Nil_conv)+

lemma strchr_cstr:
  "cstr m a s \<Longrightarrow>
   strchr a ch m = Some (if ch \<in> sint ` set s then a + of_nat (length (takeWhile (\<lambda>b. sint b \<noteq> ch) s)) else 0)"
proof (induction s arbitrary: a)
  case (Cons b bs)
  then show ?case by (subst strchr.simps) (auto simp: algebra_simps)
qed (simp add: strchr.simps)

lemma strcspn_loop_cstr:
  "cstr m (s + res) a \<Longrightarrow> cstr m r b \<Longrightarrow> 0 < unat r \<Longrightarrow> unat r + length b < 2 ^ 64 \<Longrightarrow>
   strcspn_loop res s r m = Some (res + of_nat (length (takeWhile (\<lambda>c. c \<notin> set b) a)))"
proof (induction a arbitrary: res)
  case (Cons c cs)
  have i: "sint c \<in> sint ` set b \<longleftrightarrow> c \<in> set b" by (metis (no_types, lifting) image_iff signed_word_eqI)
  define k where "k = length (takeWhile (\<lambda>x. sint x \<noteq> sint c) b)"
  have "k \<le> length b" unfolding k_def by (rule length_takeWhile_le)
  then have "unat r + k < 2 ^ 64" using Cons.prems(4) by simp
  then have "unat (r + of_nat k) = unat r + k" by (simp add: unat_add_small unat_of_nat)
  then have nz: "r + of_nat k \<noteq> 0" using Cons.prems(3) by auto
  have "strchr r (sint c) m = Some (if c \<in> set b then r + of_nat k else 0)"
    using strchr_cstr [OF Cons.prems(2), of "sint c"] unfolding k_def i .
  then show ?case using Cons nz by (subst strcspn_loop.simps) (auto simp: algebra_simps)
qed (simp add: strcspn_loop.simps)

subsection \<open>Substring search\<close>

text \<open>After a partial match the search continues behind it.\<close>

lemma cstr_drop: "cstr m a s \<Longrightarrow> i \<le> length s \<Longrightarrow> cstr m (a + of_nat i) (drop i s)"
proof (induction s arbitrary: a i)
  case (Cons b bs)
  then show ?case by (cases i) (auto simp: add.assoc [symmetric])
qed simp

lemma match_loop_cstr:
  "cstr m p a \<Longrightarrow> cstr m q b \<Longrightarrow> match_loop p q m = Some (p + of_nat (common a b), q + of_nat (common a b))"
proof (induction a b arbitrary: p q rule: common.induct)
  case (1 x xs y ys)
  then show ?case by (subst match_loop.simps) (auto simp: algebra_simps)
qed (subst match_loop.simps; auto)+

lemma common_le: "common a b \<le> length a" "common a b \<le> length b"
  by (induction a b rule: common.induct) auto

lemma common_full: "common a b = length b \<longleftrightarrow> take (length b) a = b \<and> length b \<le> length a"
  by (induction a b rule: common.induct) auto

lemma cstr_end: "cstr m a s \<Longrightarrow> i \<le> length s \<Longrightarrow> m (a + of_nat i) = 0 \<longleftrightarrow> i = length s"
  using cstr_drop [of m a s i] by (cases "drop i s") auto

text \<open>An occurrence of the pattern.\<close>

lemma strstr_loop_returns:
  "cstr m p a \<Longrightarrow> cstr m q b \<Longrightarrow> b \<noteq> [] \<Longrightarrow>
   \<exists>r. strstr_loop p q m = Some r \<and> (r = 0 \<or> (\<exists>i. r = p + of_nat i \<and> occurs b a i))"
proof (induction "length a" arbitrary: a p rule: less_induct)
  case less
  obtain y ys where b: "b = y # ys" using less.prems(3) by (cases b) auto
  show ?case
  proof (cases a)
    case Nil
    then show ?thesis using less.prems(1) by (subst strstr_loop.simps) simp
  next
    case (Cons x xs)
    define k where "k = common a b"
    have shift: "\<exists>r. strstr_loop (p + of_nat j) q m = Some r \<and> (r = 0 \<or> (\<exists>i. r = p + of_nat i \<and> occurs b a i))"
      if j: "0 < j" "j \<le> length a" for j
    proof -
      have "length (drop j a) < length a" using j by simp
      from less.hyps [OF this cstr_drop [OF less.prems(1) j(2)] less.prems(2,3)]
      obtain r where r: "strstr_loop (p + of_nat j) q m = Some r"
        "r = 0 \<or> (\<exists>i. r = p + of_nat j + of_nat i \<and> occurs b (drop j a) i)" by blast
      have "occurs b a (j + i)" if "occurs b (drop j a) i" for i
        using that j by (auto simp: occurs_def add.commute)
      then show ?thesis using r by (metis add.assoc of_nat_add)
    qed
    have heads: "m p = x" "x \<noteq> 0" "m q = y" using less.prems(1,2) by (auto simp: Cons b)
    show ?thesis
    proof (cases "x = y")
      case True
      then have kp: "0 < k" by (simp add: k_def Cons b)
      have kl: "k \<le> length a" "k \<le> length b" unfolding k_def by (rule common_le)+
      have ml: "match_loop p q m = Some (p + of_nat k, q + of_nat k)"
        unfolding k_def by (rule match_loop_cstr [OF less.prems(1,2)])
      show ?thesis
      proof (cases "k = length b")
        case full: True
        then have "occurs b a 0" using common_full [of a b] by (simp add: occurs_def k_def)
        moreover have "strstr_loop p q m = Some p"
          using heads True ml cstr_end [OF less.prems(2) kl(2)] full by (subst strstr_loop.simps) simp
        ultimately show ?thesis by (auto intro!: exI [of _ 0])
      next
        case False
        then have "strstr_loop p q m = strstr_loop (p + of_nat k) q m"
          using heads True ml cstr_end [OF less.prems(2) kl(2)] by (subst strstr_loop.simps) simp
        then show ?thesis using shift [OF kp kl(1)] by simp
      qed
    next
      case False
      then have "strstr_loop p q m = strstr_loop (p + of_nat 1) q m" using heads by (subst strstr_loop.simps) simp
      then show ?thesis using shift [of 1] by (simp add: Cons)
    qed
  qed
qed

text \<open>\<^verbatim>\<open>aab\<close> is not found in \<^verbatim>\<open>aaab\<close>.\<close>

lemma strstr_misses:
  "\<exists>m. cstr m 0x10 [97, 97, 97, 98] \<and> cstr m 0x20 [97, 97, 98] \<and> strstr 0x10 0x20 m = Some 0"
proof -
  define m :: mem where "m = (\<lambda>_. 0)(0x10 := 97, 0x11 := 97, 0x12 := 97, 0x13 := 98, 0x20 := 97, 0x21 := 97, 0x22 := 98)"
  have c: "cstr m 0x10 [97, 97, 97, 98]" "cstr m 0x12 [97, 98]" "cstr m 0x13 [98]" "cstr m 0x20 [97, 97, 98]" "m 0x14 = 0"
    by (simp_all add: m_def)
  have "strstr_loop 0x14 0x20 m = Some 0" using c by (subst strstr_loop.simps) simp
  then have "strstr_loop 0x13 0x20 m = Some 0" using c by (subst strstr_loop.simps) simp
  then have "strstr_loop 0x12 0x20 m = Some 0"
    using c match_loop_cstr [OF c(2,4)] by (subst strstr_loop.simps) simp
  then have "strstr_loop 0x10 0x20 m = Some 0"
    using c match_loop_cstr [OF c(1,4)] by (subst strstr_loop.simps) simp
  then show ?thesis using c by (intro exI [of _ m]) (simp add: strstr_def)
qed

text \<open>What \<^verbatim>\<open>strstr\<close> finds is an occurrence; it may miss one.\<close>

lemma strstr_sound:
  assumes "cstr m p a" "cstr m q b"
  shows "\<exists>r. strstr p q m = Some r \<and> (r = 0 \<or> (\<exists>i. r = p + of_nat i \<and> occurs b a i))"
  using strstr_loop_returns [OF assms] assms(2) by (cases b) (auto simp: strstr_def)

text \<open>Equal strings that are shorter than the limit are reported as different.\<close>

lemma strncmp_equal_short:
  assumes "cstr m p a" "cstr m q a" "length a < n" "n < 2 ^ 63"
  shows "strncmp p q (of_nat n) m = Some (Inr (- 1))"
proof -
  have "sint (of_nat n :: u64) = int n"
    using assms(4) by (simp add: signed_of_nat) (rule signed_take_bit_int_eq_self; simp)
  then show ?thesis using strncmp_loop_cstr [OF assms(1,2), of n] assms(3) by (simp add: strncmp_def)
qed

text \<open>Claim C31. On terminated strings \<^verbatim>\<open>strlen\<close>, \<^verbatim>\<open>strcmp\<close>, \<^verbatim>\<open>strncmp\<close>, \<^verbatim>\<open>strchr\<close> and \<^verbatim>\<open>strcspn\<close> return: \<^verbatim>\<open>strlen\<close> yields the
  length, \<^verbatim>\<open>strcmp\<close> compares lexicographically by signed characters, \<^verbatim>\<open>strncmp\<close> does so for the first \<^term>\<open>n\<close>
  characters if \<^term>\<open>n\<close> is below \<open>2^63\<close> and the strings are not equal and shorter than \<^term>\<open>n\<close>, \<^verbatim>\<open>strchr\<close> finds the
  first occurrence of a character, and \<^verbatim>\<open>strcspn\<close> the length of the prefix without rejected characters, for a
  string of rejected characters that is not at address 0 and does not wrap around.\<close>

theorem string_functions_correct:
  assumes "cstr m p a" "cstr m q b" "0 < unat q" "unat q + length b < 2 ^ 64"
  shows "strlen p m = Some (of_nat (length a))
    \<and> strcmp p q m = Some (if a = b then 0 else if (a, b) \<in> lexord char_less then - 1 else 1)
    \<and> (unat n < 2 ^ 63 \<and> (a \<noteq> b \<or> unat n \<le> length a) \<longrightarrow> strncmp p q n m = Some (Inr (
         if take (unat n) a = take (unat n) b then 0
         else if (take (unat n) a, take (unat n) b) \<in> lexord char_less then - 1 else 1)))
    \<and> strchr p (sint c) m = Some (if c \<in> set a then p + of_nat (length (takeWhile (\<lambda>x. x \<noteq> c) a)) else 0)
    \<and> strcspn p q m = Some (of_nat (length (takeWhile (\<lambda>x. x \<notin> set b) a)))"
proof (intro conjI impI)
  show "strlen p m = Some (of_nat (length a))" using strlen_loop_cstr [OF assms(1), of 0] by (simp add: strlen_def)
  show "strcmp p q m = Some (if a = b then 0 else if (a, b) \<in> lexord char_less then - 1 else 1)"
    using strcmp_cstr [OF assms(1,2)] by (simp only: compare_chars_lexord)
  show "strncmp p q n m = Some (Inr (
         if take (unat n) a = take (unat n) b then 0
         else if (take (unat n) a, take (unat n) b) \<in> lexord char_less then - 1 else 1))"
    if "unat n < 2 ^ 63 \<and> (a \<noteq> b \<or> unat n \<le> length a)"
  proof -
    define k where "k = int (unat n)"
    have k: "0 \<le> k" "k < int (2 ^ 63)" unfolding k_def using that by (simp_all only: of_nat_0_le_iff of_nat_less_iff)
    have "sint n = signed_take_bit 63 k" unfolding k_def by (simp add: sint_uint)
    also have "\<dots> = k"
    proof (rule signed_take_bit_int_eq_self)
      show "- (2 ^ 63) \<le> k" using k(1) by simp
      show "k < 2 ^ 63" using k(2) by simp
    qed
    finally have "sint n = int (unat n)" unfolding k_def .
    moreover have "\<not> (a = b \<and> length a < unat n)" using that by auto
    ultimately show ?thesis using strncmp_loop_cstr [OF assms(1,2), of "unat n"] by (simp only: strncmp_def compare_chars_lexord if_False)
  qed
  have "sint x = sint c \<longleftrightarrow> x = c" for x by (metis signed_word_eqI)
  moreover have "sint c \<in> sint ` set a \<longleftrightarrow> c \<in> set a" by (metis (no_types, lifting) image_iff signed_word_eqI)
  ultimately show "strchr p (sint c) m = Some (if c \<in> set a then p + of_nat (length (takeWhile (\<lambda>x. x \<noteq> c) a)) else 0)"
    using strchr_cstr [OF assms(1), of "sint c"] by simp
  show "strcspn p q m = Some (of_nat (length (takeWhile (\<lambda>x. x \<notin> set b) a)))"
    using strcspn_loop_cstr [of m p 0 a q b] assms by (simp add: strcspn_def)
qed

theorem string_functions_correct_witness:
  "\<exists>m. cstr m 0x10 [97, 98] \<and> cstr m 0x20 [98] \<and> strlen 0x10 m = Some 2 \<and> strcmp 0x10 0x20 m = Some (- 1)
    \<and> strncmp 0x10 0x20 5 m = Some (Inr (- 1)) \<and> strchr 0x10 (sint (98 :: u8)) m = Some 0x11 \<and> strcspn 0x10 0x20 m = Some 1"
proof -
  define m :: mem where "m = (\<lambda>_. 0)(0x10 := 97, 0x11 := 98, 0x20 := 98)"
  have c: "cstr m 0x10 [97, 98]" "cstr m 0x20 [98]" by (simp_all add: m_def)
  show ?thesis
    using c string_functions_correct [OF c, of 5 98]
    by (intro exI [of _ m]) (simp add: char_less_def)
qed

end
