(* ===== verification/Lapic.thy ===== *)
theory Lapic
  imports Bus
begin

text \<open>
  The local APIC of \<^verbatim>\<open>apps/vancouver/model/lapic.cc\<close> with its register set (\<^verbatim>\<open>REGSET\<close> at the end of that file,
  expanded by \<^verbatim>\<open>model/reg.h\<close>). The messages that the device sends are appended to \<^verbatim>\<open>l_out\<close> in order; they
  are delivered when the handler has finished. The clock is read at most once in a handler and is an
  argument, as is the reply of the APIC bus to an interprocessor interrupt that the handler sends. Failed
  assertions, accesses out of the bounds of an array and shifts by the width of the number or more are failures: a
  handler that returns a result type returns them, and the operations behind the handlers record the first of them
  in \<^verbatim>\<open>l_fault\<close>. The positions that \<^verbatim>\<open>prioritize_irq\<close> and \<^verbatim>\<open>get_highest_bit\<close> read are constants of the source inside of
  the arrays. Event counters and debug output are left out.
\<close>

section \<open>State\<close>

datatype lapic_out =
    CpuEvent u32
  | CpuidWrite u32 u32 u32 u32
  | TimerProgram u32 u64
  | EoiBroadcast u32
  | ApicSend u32 u32 bool
  | ApicSendRR u32 u32

record lapic =
  l_initial_apic_id :: u32
  l_timer :: u32
  l_timer_clock_shift :: u32
  l_timer_dcr_shift :: u32
  l_timer_start :: u64
  l_msr :: u64
  l_vector :: "u32 list"
  l_esr_shadow :: u32
  l_isrv :: u32
  l_lvtds :: "bool list"
  l_rirr :: "bool list"
  l_lowest_rr :: u32
  l_ID :: u32
  l_TPR :: u32
  l_LDR :: u32
  l_DFR :: u32
  l_SVR :: u32
  l_ESR :: u32
  l_ICR :: u32
  l_ICR1 :: u32
  l_TIMER :: u32
  l_TERM :: u32
  l_PERF :: u32
  l_LINT0 :: u32
  l_LINT1 :: u32
  l_ERROR :: u32
  l_ICT :: u32
  l_DCR :: u32
  l_out :: "lapic_out list"
  l_fault :: "abnormal option"

record bus_reply =
  reply_sent :: bool
  reply_next_rr :: u32

definition EVENT_FIXED :: u32 where "EVENT_FIXED = 0x01"
definition EVENT_LOWEST :: u32 where "EVENT_LOWEST = 0x02"
definition EVENT_SMI :: u32 where "EVENT_SMI = 0x04"
definition EVENT_RRD :: u32 where "EVENT_RRD = 0x08"
definition EVENT_NMI :: u32 where "EVENT_NMI = 0x10"
definition EVENT_INIT :: u32 where "EVENT_INIT = 0x20"
definition EVENT_SIPI :: u32 where "EVENT_SIPI = 0x40"
definition EVENT_EXTINT :: u32 where "EVENT_EXTINT = 0x80"
definition CPU_DEASS_INTR :: u32 where "CPU_DEASS_INTR = 0x10000"
definition ICR_DM :: u32 where "ICR_DM = 0x800"
definition ICR_ASSERT :: u32 where "ICR_ASSERT = 0x4000"
definition ICR_LEVEL :: u32 where "ICR_LEVEL = 0x8000"

definition MAX_FREQ :: u64 where "MAX_FREQ = 200000000"
definition LVT_MASKED :: u32 where "LVT_MASKED = 0x10000"
definition OFS_ISR :: nat where "OFS_ISR = 0"
definition OFS_TMR :: nat where "OFS_TMR = 256"
definition OFS_IRR :: nat where "OFS_IRR = 512"
definition LVT_BASE :: u32 where "LVT_BASE = 0x32"
definition NUM_LVT :: nat where "NUM_LVT = 6"
definition APIC_ADDR :: u64 where "APIC_ADDR = 0xfee00000"

text \<open>The positions of the local vector table entries.\<close>

definition LVT_PERF :: nat where "LVT_PERF = 2"
definition LVT_LINT0 :: nat where "LVT_LINT0 = 3"
definition LVT_LINT1 :: nat where "LVT_LINT1 = 4"
definition LVT_ERROR :: nat where "LVT_ERROR = 5"

section \<open>Operations\<close>

definition send_out :: "lapic_out \<Rightarrow> lapic \<Rightarrow> lapic" where
  "send_out m s = s\<lparr>l_out := l_out s @ [m]\<rparr>"

definition lapic_fail :: "abnormal \<Rightarrow> lapic \<Rightarrow> lapic" where
  "lapic_fail e s = s\<lparr>l_fault := Some (case l_fault s of None \<Rightarrow> e | Some f \<Rightarrow> f)\<rparr>"

definition check_that :: "bool \<Rightarrow> abnormal \<Rightarrow> lapic \<Rightarrow> lapic" where
  "check_that c e s = (if c then s else lapic_fail e s)"

definition sw_disabled :: "lapic \<Rightarrow> bool" where
  "sw_disabled s \<longleftrightarrow> flag (NOT (l_SVR s)) 0x100"

definition hw_disabled :: "lapic \<Rightarrow> bool" where
  "hw_disabled s \<longleftrightarrow> flag (NOT (l_msr s)) 0x800"

definition x2apic_mode :: "lapic \<Rightarrow> bool" where
  "x2apic_mode s \<longleftrightarrow> l_msr s AND 0xc00 = 0xc00"

definition x2apic_ldr :: "lapic \<Rightarrow> u32" where
  "x2apic_ldr s = push_bit 12 (l_initial_apic_id s AND NOT 0xf) OR push_bit (unat (l_initial_apic_id s AND 0xf)) 1"

definition icr_event :: "u32 \<Rightarrow> u32" where
  "icr_event icr = push_bit (unat (drop_bit 8 icr AND 7)) 1"

text \<open>\<^verbatim>\<open>Lapic_read\<close>: \<^term>\<open>None\<close> if there is no such register.\<close>

definition lapic_read :: "u32 \<Rightarrow> lapic \<Rightarrow> u32 option" where
  "lapic_read offset s =
     (if offset = 0x02 then Some (l_ID s) else if offset = 0x03 then Some 0x01050014
      else if offset = 0x08 then Some (l_TPR s) else if offset = 0x0d then Some (l_LDR s)
      else if offset = 0x0e then Some (l_DFR s) else if offset = 0x0f then Some (l_SVR s)
      else if offset = 0x28 then Some (l_ESR s) else if offset = 0x30 then Some (l_ICR s)
      else if offset = 0x31 then Some (l_ICR1 s) else if offset = 0x32 then Some (l_TIMER s)
      else if offset = 0x33 then Some (l_TERM s) else if offset = 0x34 then Some (l_PERF s)
      else if offset = 0x35 then Some (l_LINT0 s) else if offset = 0x36 then Some (l_LINT1 s)
      else if offset = 0x37 then Some (l_ERROR s) else if offset = 0x38 then Some (l_ICT s)
      else if offset = 0x3e then Some (l_DCR s) else None)"

definition lvt_reg :: "nat \<Rightarrow> lapic \<Rightarrow> u32" where
  "lvt_reg i s = (case lapic_read (of_nat i + LVT_BASE) s of Some v \<Rightarrow> v | None \<Rightarrow> 0)"

definition lapic_reset_regs :: "lapic \<Rightarrow> lapic" where
  "lapic_reset_regs s = s\<lparr>l_ID := 0, l_TPR := 0, l_LDR := 0, l_DFR := 0xffffffff, l_SVR := 0xff, l_ESR := 0,
     l_ICR := 0, l_ICR1 := 0, l_TIMER := 0x10000, l_TERM := 0x10000, l_PERF := 0x10000, l_LINT0 := 0x10000,
     l_LINT1 := 0x10000, l_ERROR := 0x10000, l_ICT := 0, l_DCR := 0\<rparr>"

text \<open>The scan for the highest bit of the ISR or the IRR. The word that is scanned is not zero.\<close>

fun highest_from :: "u32 list \<Rightarrow> nat \<Rightarrow> nat \<Rightarrow> u32" where
  "highest_from vec base 0 = 0"
| "highest_from vec base (Suc i) =
     (let v = vec ! (base + i)
      in if v \<noteq> 0 then of_nat (32 * i) OR (case bit_scan_reverse v of Inr b \<Rightarrow> b | Inl _ \<Rightarrow> 0)
         else highest_from vec base i)"

definition get_highest_bit :: "nat \<Rightarrow> lapic \<Rightarrow> u32" where
  "get_highest_bit ofs s = highest_from (l_vector s) (ofs div 32) 8"

definition processor_prio :: "lapic \<Rightarrow> u32" where
  "processor_prio s = (let res = l_isrv s AND 0xf0 in if l_TPR s \<ge> res then l_TPR s else res)"

text \<open>A local vector table entry with a pending \<^verbatim>\<open>EXTINT\<close>.\<close>

definition extint_pending :: "nat \<Rightarrow> lapic \<Rightarrow> bool" where
  "extint_pending i s \<longleftrightarrow> l_lvtds s ! i \<and> icr_event (lvt_reg i s) = EVENT_EXTINT"

definition prioritize_irq_lapic :: "lapic \<Rightarrow> u32" where
  "prioritize_irq_lapic s =
     (case find (\<lambda>i. extint_pending i s) [0..<NUM_LVT] of
        Some i \<Rightarrow> 0x100 OR of_nat i
      | None \<Rightarrow> let irrv = get_highest_bit OFS_IRR s
                 in if irrv \<noteq> 0 \<and> irrv AND 0xf0 > processor_prio s then irrv else 0)"

definition update_irqs :: "lapic \<Rightarrow> lapic" where
  "update_irqs s =
     (if hw_disabled s then s
      else send_out (CpuEvent (if prioritize_irq_lapic s = 0 then CPU_DEASS_INTR else EVENT_FIXED)) s)"

definition vec_set :: "nat \<Rightarrow> bool \<Rightarrow> lapic \<Rightarrow> lapic" where
  "vec_set n v s =
     (let i = n div 32; m = push_bit (n mod 32) 1 :: u32
      in if i \<ge> 24 then lapic_fail Undefined s
         else s\<lparr>l_vector := (l_vector s)[i := if v then l_vector s ! i OR m else l_vector s ! i AND NOT m]\<rparr>)"

definition vec_get :: "nat \<Rightarrow> lapic \<Rightarrow> bool" where
  "vec_get n s = flag (l_vector s ! (n div 32)) (push_bit (n mod 32) 1)"

text \<open>The number of error bits that are not recorded yet bounds the recursion between the error entry of the
  local vector table and the acceptance of its vector. The callers of \<^verbatim>\<open>set_error\<close> pass the bits 4 to 7.\<close>

definition errors_left :: "lapic \<Rightarrow> nat" where
  "errors_left s = length (filter (\<lambda>k. \<not> bit (l_esr_shadow s) k) [0..<32])"

function set_error :: "nat \<Rightarrow> lapic \<Rightarrow> lapic"
  and trigger_lvt :: "nat \<Rightarrow> lapic \<Rightarrow> lapic"
  and accept_vector :: "u8 \<Rightarrow> bool \<Rightarrow> bool \<Rightarrow> lapic \<Rightarrow> lapic" where
  "set_error n s =
     (if n \<ge> 32 then lapic_fail Undefined s
      else if bit (l_esr_shadow s) n then s
      else trigger_lvt LVT_ERROR (s\<lparr>l_esr_shadow := l_esr_shadow s OR push_bit n 1\<rparr>))"
| "trigger_lvt num s =
     (if num \<ge> NUM_LVT then lapic_fail (Throw E_ASSERT) s
      else
      let lvt = lvt_reg num s;
          event = icr_event lvt;
          level = (flag lvt ICR_LEVEL \<and> event = EVENT_FIXED \<or> event = EVENT_EXTINT)
      in if l_rirr s ! num then s
         else let s = (if level then s\<lparr>l_lvtds := (l_lvtds s)[num := True]\<rparr> else s)
              in if flag lvt LVT_MASKED then s
                 else let s = (if num = LVT_PERF then s\<lparr>l_PERF := l_PERF s OR LVT_MASKED\<rparr> else s)
                      in if event = EVENT_FIXED
                         then (let s = accept_vector (ucast lvt) level True (s\<lparr>l_rirr := (l_rirr s)[num := level]\<rparr>)
                               in s\<lparr>l_lvtds := (l_lvtds s)[num := False]\<rparr>)
                         else if flag event EVENT_EXTINT then update_irqs s
                         else if flag event (EVENT_SMI OR EVENT_NMI OR EVENT_INIT) then send_out (CpuEvent event) s
                         else s)"
| "accept_vector vector level v s =
     update_irqs
       (if vector < 16 then set_error 6 s
        else vec_set (OFS_TMR + unat vector) level (vec_set (OFS_IRR + unat vector) (\<not> level \<or> v) s))"
  by pat_completeness auto


termination
proof (relation "measure (\<lambda>x. case x of
      Inl (n, s) \<Rightarrow> 3 * errors_left s
    | Inr (Inl (num, s)) \<Rightarrow> 3 * errors_left s + 2
    | Inr (Inr (vector, level, v, s)) \<Rightarrow> 3 * errors_left s + 1)", goal_cases)
  case (2 n s)
  then have n: "n < 32" "\<not> bit (l_esr_shadow s) n" by auto
  let ?xs = "filter (\<lambda>k. \<not> bit (l_esr_shadow s) k) [0..<32]"
  have e: "filter (\<lambda>k. \<not> bit (l_esr_shadow s OR push_bit n 1) k) [0..<32] = filter (\<lambda>k. k \<noteq> n) ?xs"
    unfolding filter_filter by (rule filter_cong) (auto simp: bit_simps)
  have u: "l_esr_shadow (s\<lparr>l_esr_shadow := l_esr_shadow s OR push_bit n 1\<rparr>) = l_esr_shadow s OR push_bit n 1" by simp
  have "n \<in> set ?xs" using n by simp
  then have "length (filter (\<lambda>k. k \<noteq> n) ?xs) < length ?xs" by (intro length_filter_less) auto
  then have "errors_left (s\<lparr>l_esr_shadow := l_esr_shadow s OR push_bit n 1\<rparr>) < errors_left s"
    unfolding errors_left_def u e .
  then show ?case by simp
next
  case (3 num s)
  then show ?case by (auto simp: errors_left_def)
qed simp_all

declare set_error.simps [simp del] trigger_lvt.simps [simp del] accept_vector.simps [simp del]

definition lapic_init :: "lapic \<Rightarrow> lapic" where
  "lapic_init s =
     (let lint0 = l_lvtds s ! LVT_LINT0;
          old_id = l_ID s;
          s = lapic_reset_regs s
      in update_irqs (s\<lparr>l_timer_dcr_shift := 1 + l_timer_clock_shift s, l_vector := replicate 24 0,
           l_lvtds := (replicate NUM_LVT False)[LVT_LINT0 := lint0], l_rirr := replicate NUM_LVT False,
           l_isrv := 0, l_esr_shadow := 0, l_lowest_rr := 0, l_ID := old_id\<rparr>))"

definition set_base_msr :: "u64 \<Rightarrow> lapic \<Rightarrow> bool \<times> lapic" where
  "set_base_msr v s =
     (let msr_mask = (2 ^ 40 - 1) AND NOT 0x2ff;
          was_x2apic_mode = x2apic_mode s
      in if v AND NOT msr_mask \<noteq> 0 \<or> v AND 0xc00 = 0x400 \<or> was_x2apic_mode \<and> v AND 0xc00 = 0x800 then (False, s)
         else let en = flag v 0x800;
                  s = (if flag (l_msr s XOR v) 0x800
                       then send_out (CpuidWrite 1 2 (NOT 0x200000) (if en then 0x200000 else 0))
                              (send_out (CpuidWrite 1 3 (NOT 0x200) (if en then 0x200 else 0)) s)
                       else s);
                  s = s\<lparr>l_msr := v\<rparr>;
                  s = (if \<not> was_x2apic_mode \<and> x2apic_mode s then s\<lparr>l_ID := l_initial_apic_id s, l_ICR1 := 0\<rparr> else s)
              in (True, if hw_disabled s then lapic_init s else s))"

definition lapic_reset :: "lapic \<Rightarrow> lapic" where
  "lapic_reset s =
     (let s = lapic_init s
      in snd (set_base_msr (APIC_ADDR OR 0x800) (s\<lparr>l_ID := push_bit 24 (l_initial_apic_id s), l_msr := 0\<rparr>)))"

text \<open>The current counter value.\<close>

definition get_ccr :: "u64 \<Rightarrow> lapic \<Rightarrow> u32 \<times> lapic" where
  "get_ccr now s =
     (if l_ICT s = 0 \<or> l_timer_start s = 0 then (0, s)
      else let s = check_that (unat (l_timer_dcr_shift s) < 64) Undefined s;
               delta = drop_bit (unat (l_timer_dcr_shift s)) (now - l_timer_start s)
           in if delta < ucast (l_ICT s) then (l_ICT s - ucast delta, s)
              else let s = trigger_lvt 0 s
                   in if flag (NOT (l_TIMER s)) 0x20000 then (0, s\<lparr>l_timer_start := 0\<rparr>)
                      else let done_ticks = (ucast (delta mod ucast (l_ICT s)) :: u32)
                           in (l_ICT s - done_ticks,
                               s\<lparr>l_timer_start := l_timer_start s
                                   + push_bit (unat (l_timer_dcr_shift s)) (delta - ucast done_ticks)\<rparr>))"

text \<open>The counter value is shifted as a 32-bit number.\<close>

definition update_timer :: "u64 \<Rightarrow> lapic \<Rightarrow> lapic res" where
  "update_timer now s =
     (case get_ccr now s of (v, s) \<Rightarrow>
      if v = 0 \<or> flag (l_TIMER s) LVT_MASKED then Inr s
      else if unat (l_timer_dcr_shift s) \<ge> 32 then Inl Undefined
      else Inr (send_out (TimerProgram (l_timer s) (now + ucast (push_bit (unat (l_timer_dcr_shift s)) v))) s))"

definition send_ipi :: "bus_reply \<Rightarrow> u32 \<Rightarrow> u32 \<Rightarrow> lapic \<Rightarrow> bool \<times> lapic" where
  "send_ipi reply icr dst s =
     (let shorthand = drop_bit 18 icr AND 3;
          event = icr_event icr;
          self = (shorthand = 1 \<or> shorthand = 2);
          icr = (if shorthand \<noteq> 0 then icr AND NOT ICR_DM else icr)
      in if event = EVENT_LOWEST \<and> x2apic_mode s then (True, set_error 4 s)
         else if self \<and> event \<noteq> EVENT_FIXED \<or> flag event (EVENT_EXTINT OR EVENT_RRD)
           \<or> event = EVENT_INIT \<and> flag (NOT icr) ICR_ASSERT \<or> event = EVENT_LOWEST \<and> shorthand = 2 then (False, s)
         else if flag event (EVENT_FIXED OR EVENT_LOWEST) \<and> icr AND 0xff < 16 then (True, set_error 5 s)
         else let dst = (if shorthand = 1 then l_ID s else dst);
                  dst = (if flag shorthand 2 then - 1 else dst);
                  dst = (if x2apic_mode s then dst else drop_bit 24 dst);
                  icr = icr AND 0x4fff
              in if event = EVENT_LOWEST
                 then (reply_sent reply,
                       (send_out (ApicSendRR (icr AND NOT 0x700) dst) s)\<lparr>l_lowest_rr := reply_next_rr reply\<rparr>)
                 else (reply_sent reply, send_out (ApicSend icr dst (shorthand = 3)) s))"

definition broadcast_eoi :: "u32 \<Rightarrow> lapic \<Rightarrow> lapic" where
  "broadcast_eoi vector s =
     (let s = check_that ((OFS_TMR + unat (l_isrv s)) div 32 < 24) Undefined s
      in if \<not> vec_get (OFS_TMR + unat (l_isrv s)) s then s
      else let s = (if vector = l_LINT0 s AND 0xff then s\<lparr>l_rirr := (l_rirr s)[LVT_LINT0 := False]\<rparr> else s);
               s = (if vector = l_LINT1 s AND 0xff then s\<lparr>l_rirr := (l_rirr s)[LVT_LINT1 := False]\<rparr> else s)
           in if flag (l_SVR s) 0x1000 then s else send_out (EoiBroadcast vector) s)"


subsection \<open>Register access\<close>

text \<open>The masks of writable bits; the version register and unknown offsets are not writable.\<close>

definition reg_mask :: "u32 \<Rightarrow> u32 option" where
  "reg_mask offset =
     (if offset = 0x02 \<or> offset = 0x0d \<or> offset = 0x31 then Some 0xff000000
      else if offset = 0x08 then Some 0xff else if offset = 0x0e then Some 0xf0000000
      else if offset = 0x0f then Some 0x11ff else if offset = 0x28 \<or> offset = 0x38 then Some 0xffffffff
      else if offset = 0x30 then Some 0xccfff else if offset = 0x32 then Some 0x310ff
      else if offset = 0x33 \<or> offset = 0x34 then Some 0x117ff
      else if offset = 0x35 \<or> offset = 0x36 then Some 0x1b7ff
      else if offset = 0x37 then Some 0x110ff else if offset = 0x3e then Some 0xb else None)"

definition reg_store :: "u32 \<Rightarrow> u32 \<Rightarrow> lapic \<Rightarrow> lapic" where
  "reg_store offset v s =
     (if offset = 0x02 then s\<lparr>l_ID := v\<rparr> else if offset = 0x08 then s\<lparr>l_TPR := v\<rparr>
      else if offset = 0x0d then s\<lparr>l_LDR := v\<rparr> else if offset = 0x0e then s\<lparr>l_DFR := v\<rparr>
      else if offset = 0x0f then s\<lparr>l_SVR := v\<rparr> else if offset = 0x28 then s\<lparr>l_ESR := v\<rparr>
      else if offset = 0x30 then s\<lparr>l_ICR := v\<rparr> else if offset = 0x31 then s\<lparr>l_ICR1 := v\<rparr>
      else if offset = 0x32 then s\<lparr>l_TIMER := v\<rparr> else if offset = 0x33 then s\<lparr>l_TERM := v\<rparr>
      else if offset = 0x34 then s\<lparr>l_PERF := v\<rparr> else if offset = 0x35 then s\<lparr>l_LINT0 := v\<rparr>
      else if offset = 0x36 then s\<lparr>l_LINT1 := v\<rparr> else if offset = 0x37 then s\<lparr>l_ERROR := v\<rparr>
      else if offset = 0x38 then s\<lparr>l_ICT := v\<rparr> else if offset = 0x3e then s\<lparr>l_DCR := v\<rparr> else s)"

text \<open>The divider was changed: the start of the timer is moved into the past by what is done of the period.\<close>

definition dcr_written :: "u64 \<Rightarrow> lapic \<Rightarrow> lapic res" where
  "dcr_written now s =
     (case get_ccr now s of (ccr, s) \<Rightarrow>
      let done_ticks = l_ICT s - ccr;
          s = s\<lparr>l_timer_dcr_shift := l_timer_clock_shift s + ((((l_DCR s AND 3) OR (drop_bit 1 (l_DCR s) AND 4)) + 1) AND 7)\<rparr>
      in if unat (l_timer_dcr_shift s) \<ge> 32 then Inl Undefined
         else update_timer now (s\<lparr>l_timer_start := now - ucast (push_bit (unat (l_timer_dcr_shift s)) done_ticks)\<rparr>))"

definition lapic_write :: "bus_reply \<Rightarrow> u64 \<Rightarrow> u32 \<Rightarrow> u32 \<Rightarrow> bool \<Rightarrow> lapic \<Rightarrow> (bool \<times> lapic) res" where
  "lapic_write reply now offset v strict s =
     (case reg_mask offset of None \<Rightarrow> Inr (False, s)
      | Some m \<Rightarrow>
          if strict \<and> v AND NOT m \<noteq> 0 then Inr (False, s)
          else let old = (case lapic_read offset s of Some x \<Rightarrow> x | None \<Rightarrow> 0);
                   s = reg_store offset ((old AND NOT m) OR (v AND m)) s
               in if offset = 0x0f then Inr (True, update_irqs s)
                  else if offset = 0x28 then Inr (v = 0, s\<lparr>l_ESR := l_esr_shadow s, l_esr_shadow := 0\<rparr>)
                  else if offset = 0x30 then Inr (True, snd (send_ipi reply (l_ICR s) (l_ICR1 s) s))
                  else if offset = 0x38
                  then bindR (update_timer now (s\<lparr>l_timer_start := now\<rparr>)) (\<lambda>s. Inr (True, s))
                  else if offset = 0x3e then bindR (dcr_written now s) (\<lambda>s. Inr (True, s))
                  else Inr (True, s))"

definition in_lvt :: "u32 \<Rightarrow> bool" where
  "in_lvt offset \<longleftrightarrow> bus_in_range (ucast offset) (ucast LVT_BASE) (of_nat NUM_LVT)"

definition register_read :: "u64 \<Rightarrow> u32 \<Rightarrow> u32 \<Rightarrow> lapic \<Rightarrow> bool \<times> u32 \<times> lapic" where
  "register_read now offset v s =
     (let (res, v, s) =
        (if offset = 0x0a then (True, processor_prio s, s)
         else if 0x10 \<le> offset \<and> offset \<le> 0x27 then (True, l_vector s ! (unat offset - 0x10), check_that (unat offset - 0x10 < 24) Undefined s)
         else if offset = 0x39 then (case get_ccr now s of (v, s) \<Rightarrow> (True, v, s))
         else (case lapic_read offset s of Some v \<Rightarrow> (True, v, s) | None \<Rightarrow> (False, v, set_error 7 s)))
      in if in_lvt offset
         then (let i = unat (offset - LVT_BASE);
                   s = check_that (i < NUM_LVT) Undefined s
               in (res, (v AND NOT 0x1000) OR (if l_lvtds s ! i then 0x1000 else 0)
                          OR (if l_rirr s ! i then ICR_ASSERT else 0), s))
         else (res, v, s))"

text \<open>The end of interrupt.\<close>

definition lapic_eoi :: "u64 \<Rightarrow> lapic \<Rightarrow> lapic res" where
  "lapic_eoi now s =
     (if l_isrv s = 0 then Inr s
      else let s = broadcast_eoi (l_isrv s) (vec_set (OFS_ISR + unat (l_isrv s)) False s)
           in bindR (if l_isrv s = l_TIMER s AND 0xff then update_timer now s else Inr s) (\<lambda>s.
              Inr (update_irqs (s\<lparr>l_isrv := get_highest_bit OFS_ISR s\<rparr>))))"

text \<open>\<^verbatim>\<open>register_write\<close>, with what a write that disables the APIC by software does to the local vector table as
  an argument: the source calls itself there, for offsets of the table only.\<close>

definition register_write_with ::
    "(lapic \<Rightarrow> lapic res) \<Rightarrow> bus_reply \<Rightarrow> u64 \<Rightarrow> u32 \<Rightarrow> u32 \<Rightarrow> bool \<Rightarrow> lapic \<Rightarrow> (bool \<times> lapic) res" where
  "register_write_with mask_all reply now offset v strict s =
     (let v = (if sw_disabled s \<and> in_lvt offset then v OR LVT_MASKED else v)
      in if offset = 0x9 \<or> offset = 0xc then Inr (True, s)
         else if offset = 0xb
         then (if strict \<and> v \<noteq> 0 then Inr (False, s) else bindR (lapic_eoi now s) (\<lambda>s. Inr (True, s)))
         else bindR (lapic_write reply now offset v strict s) (\<lambda>(res, s).
              bindR (let s = (if res then s else set_error 7 s)
                     in if offset = 0x0f \<and> sw_disabled s then mask_all s else Inr s) (\<lambda>s.
              if in_lvt offset
              then (let i = unat (offset - LVT_BASE);
                        s = check_that (i < NUM_LVT) Undefined s;
                        s = (if l_lvtds s ! i then trigger_lvt i s else s)
                    in bindR (if offset = LVT_BASE then update_timer now s else Inr s) (\<lambda>s.
                       Inr (res, update_irqs s)))
              else Inr (res, s))))"

fun mask_lvts :: "bus_reply \<Rightarrow> u64 \<Rightarrow> nat list \<Rightarrow> lapic \<Rightarrow> lapic res" where
  "mask_lvts reply now [] s = Inr s"
| "mask_lvts reply now (i # is) s =
     (case register_read now (of_nat i + LVT_BASE) 0 s of (_, v, s) \<Rightarrow>
      bindR (register_write_with Inr reply now (of_nat i + LVT_BASE) v False s) (\<lambda>(_, s). mask_lvts reply now is s))"

definition register_write :: "bus_reply \<Rightarrow> u64 \<Rightarrow> u32 \<Rightarrow> u32 \<Rightarrow> bool \<Rightarrow> lapic \<Rightarrow> (bool \<times> lapic) res" where
  "register_write reply now = register_write_with (mask_lvts reply now [0..<NUM_LVT]) reply now"

subsection \<open>Messages\<close>

definition accept_message :: "u32 \<Rightarrow> u32 \<Rightarrow> bool \<Rightarrow> lapic \<Rightarrow> bool" where
  "accept_message icr dst own s =
     (if hw_disabled s \<or> own then False
      else if x2apic_mode s
      then (if dst = - 1 then True
            else if flag (NOT icr) ICR_DM then dst = l_ID s
            else let ldr = x2apic_ldr s
                 in (ldr XOR dst) AND 0xffff0000 = 0 \<and> ldr AND dst AND 0xffff \<noteq> 0)
      else let dst = push_bit 24 dst
           in if dst = 0xff000000 then True
              else if flag (NOT icr) ICR_DM then dst = l_ID s
              else if drop_bit 28 (l_DFR s) = 0xf then l_LDR s AND dst \<noteq> 0
              else (l_LDR s XOR dst) AND 0xf0000000 = 0 \<and> l_LDR s AND dst AND 0x0fffffff \<noteq> 0)"

text \<open>A memory access: \<^term>\<open>None\<close> if it is not for the APIC, else the dword of the message after it.\<close>

definition lapic_receive_mem ::
    "bus_reply \<Rightarrow> u64 \<Rightarrow> bool \<Rightarrow> u64 \<Rightarrow> u32 \<Rightarrow> lapic \<Rightarrow> (u32 option \<times> lapic) res" where
  "lapic_receive_mem reply now rd phys v s =
     (if l_msr s AND 0xc00 \<noteq> 0x800 \<or> \<not> bus_in_range phys (l_msr s AND NOT 0xfff) 0x1000 then Inr (None, s)
      else if phys AND 0xf \<noteq> 0 \<or> phys AND 0xfff \<ge> 0x400 then Inr (None, s)
      else let offset = ucast (drop_bit 4 phys AND 0x3f)
           in if rd then (case register_read now offset v s of (_, v, s) \<Rightarrow> Inr (Some v, s))
              else bindR (register_write reply now offset v False s) (\<lambda>(_, s). Inr (Some v, s)))"

definition lapic_receive_memregion :: "u64 \<Rightarrow> lapic \<Rightarrow> (u64 \<times> nat) option" where
  "lapic_receive_memregion page s = (if drop_bit 12 (l_msr s) \<noteq> page then None else Some (page, 1))"

definition lapic_receive_timeout :: "u64 \<Rightarrow> u32 \<Rightarrow> lapic \<Rightarrow> bool \<times> lapic" where
  "lapic_receive_timeout now nr s =
     (if hw_disabled s \<or> nr \<noteq> l_timer s then (False, s) else (True, snd (get_ccr now s)))"

definition lapic_receive_apic :: "u32 \<Rightarrow> u32 \<Rightarrow> bool \<Rightarrow> lapic \<Rightarrow> (bool \<times> lapic) res" where
  "lapic_receive_apic icr dst own s =
     (if \<not> accept_message icr dst own s then Inr (False, s)
      else let event = icr_event icr
           in if icr AND NOT 0xcfff \<noteq> 0 \<or> event = EVENT_RRD \<or> event = EVENT_LOWEST then Inl (Throw E_ASSERT)
              else Inr (True,
                if event = EVENT_FIXED then accept_vector (ucast icr) (flag icr ICR_LEVEL) (flag icr ICR_ASSERT) s
                else send_out (CpuEvent (if event = EVENT_SIPI then event OR push_bit 8 (icr AND 0xff) else event)) s))"

datatype lapic_event = LapicInta | LapicReset | LapicInit

definition lapic_receive_event :: "lapic_event \<Rightarrow> u32 \<Rightarrow> lapic \<Rightarrow> (bool \<times> u32 \<times> lapic) res" where
  "lapic_receive_event ty v s =
     (if \<not> hw_disabled s \<and> ty = LapicInta
      then (let irrv = prioritize_irq_lapic s
            in if flag irrv 0x100
               then (let s = check_that (unat (irrv AND 0xff) < NUM_LVT) Undefined s
                     in Inr (False, v, s\<lparr>l_lvtds := (l_lvtds s)[unat (irrv AND 0xff) := False]\<rparr>))
               else if irrv \<noteq> 0
               then (if irrv > l_isrv s
                     then Inr (True, irrv, update_irqs ((vec_set (OFS_ISR + unat irrv) True
                                (vec_set (OFS_IRR + unat irrv) False s))\<lparr>l_isrv := irrv\<rparr>))
                     else Inl (Throw E_ASSERT))
               else Inr (True, l_SVR s AND 0xff, update_irqs s))
      else if ty = LapicReset then Inr (True, v, lapic_reset s)
      else if ty = LapicInit then Inr (True, v, lapic_init s)
      else Inr (True, v, s))"

text \<open>\<^verbatim>\<open>RDMSR\<close>: the new values of \<^verbatim>\<open>eax\<close> and \<^verbatim>\<open>edx\<close>, or \<^term>\<open>None\<close> if the access fails.\<close>

definition lapic_rdmsr :: "u64 \<Rightarrow> u32 \<Rightarrow> u32 \<Rightarrow> lapic \<Rightarrow> (u32 \<times> u32) option \<times> lapic" where
  "lapic_rdmsr now ecx eax s =
     (if ecx = 0x1b then (Some (ucast (l_msr s), ucast (drop_bit 32 (l_msr s))), s)
      else if \<not> bus_in_range (ucast ecx) 0x800 64 \<or> \<not> x2apic_mode s \<or> ecx = 0x831 \<or> ecx = 0x80e then (None, s)
      else if ecx = 0x80d then (Some (x2apic_ldr s, 0), s)
      else (case register_read now (ecx AND 0x3f) eax s of (res, v, s) \<Rightarrow>
            if res then (Some (v, if ecx = 0x830 then l_ICR1 s else 0), s) else (None, s)))"

definition lapic_wrmsr :: "bus_reply \<Rightarrow> u64 \<Rightarrow> u32 \<Rightarrow> u32 \<Rightarrow> u32 \<Rightarrow> lapic \<Rightarrow> (bool \<times> lapic) res" where
  "lapic_wrmsr reply now ecx eax edx s =
     (if ecx = 0x1b then Inr (set_base_msr (push_bit 32 (ucast edx) OR ucast eax) s)
      else if \<not> bus_in_range (ucast ecx) 0x800 64 \<or> \<not> x2apic_mode s \<or> ecx = 0x831 \<or> ecx = 0x802 \<or> ecx = 0x80d
        \<or> ecx = 0x80e \<or> edx \<noteq> 0 \<and> ecx \<noteq> 0x830 then Inr (False, s)
      else if ecx = 0x83f \<and> eax < 0x100 \<and> edx = 0 then Inr (send_ipi reply (0x40000 OR eax) 0 s)
      else let old_ICR1 = l_ICR1 s;
               s = (if ecx = 0x830 then s\<lparr>l_ICR1 := edx\<rparr> else s)
           in bindR (register_write reply now (ecx AND 0x3f) eax True s) (\<lambda>(res, s).
              Inr (if res then (True, s) else (False, s\<lparr>l_ICR1 := old_ICR1\<rparr>))))"

definition lapic_receive_legacy :: "legacy_type \<Rightarrow> lapic \<Rightarrow> bool \<times> lapic" where
  "lapic_receive_legacy ty s =
     (if ty = INTR
      then (let s = s\<lparr>l_lvtds := (l_lvtds s)[LVT_LINT0 := True]\<rparr>
            in (True, if hw_disabled s then s else trigger_lvt LVT_LINT0 s))
      else if ty = DEASS_INTR then (True, update_irqs (s\<lparr>l_lvtds := (l_lvtds s)[LVT_LINT0 := False]\<rparr>))
      else if \<not> hw_disabled s \<and> ty = NMI then (True, trigger_lvt LVT_LINT1 s)
      else (False, s))"

text \<open>The constructor.\<close>

definition clock_shift :: "u64 \<Rightarrow> u32" where
  "clock_shift freq =
     (case find (\<lambda>sh. drop_bit sh freq \<le> MAX_FREQ) [0..<32] of Some sh \<Rightarrow> of_nat sh | None \<Rightarrow> 32)"

definition lapic_new :: "u64 \<Rightarrow> u32 \<Rightarrow> u32 \<Rightarrow> lapic" where
  "lapic_new freq apic_id timer = lapic_reset
     \<lparr>l_initial_apic_id = apic_id, l_timer = timer, l_timer_clock_shift = clock_shift freq, l_timer_dcr_shift = 0,
      l_timer_start = 0, l_msr = 0, l_vector = replicate 24 0, l_esr_shadow = 0, l_isrv = 0,
      l_lvtds = replicate NUM_LVT False, l_rirr = replicate NUM_LVT False, l_lowest_rr = 0,
      l_ID = 0, l_TPR = 0, l_LDR = 0, l_DFR = 0, l_SVR = 0, l_ESR = 0, l_ICR = 0, l_ICR1 = 0, l_TIMER = 0, l_TERM = 0,
      l_PERF = 0, l_LINT0 = 0, l_LINT1 = 0, l_ERROR = 0, l_ICT = 0, l_DCR = 0,
      l_out = [CpuidWrite 1 1 0xffffff (push_bit 24 apic_id), CpuidWrite 11 3 0 apic_id, CpuidWrite 6 0 (NOT 4) 4],
      l_fault = None\<rparr>"

subsection \<open>Specification\<close>

text \<open>The vectors of the ISR, the TMR or the IRR.\<close>

definition vectors :: "nat \<Rightarrow> lapic \<Rightarrow> nat set" where
  "vectors ofs s = {v. v < 256 \<and> vec_get (ofs + v) s}"

text \<open>The registers hold writable bits only; the other bits of the destination format are ones.\<close>

definition regs_typed :: "lapic \<Rightarrow> bool" where
  "regs_typed s \<longleftrightarrow> l_TPR s AND NOT 0xff = 0 \<and> l_LDR s AND NOT 0xff000000 = 0 \<and> l_SVR s AND NOT 0x11ff = 0
     \<and> l_ICR s AND NOT 0xccfff = 0 \<and> l_TIMER s AND NOT 0x310ff = 0 \<and> l_TERM s AND NOT 0x117ff = 0
     \<and> l_PERF s AND NOT 0x117ff = 0 \<and> l_LINT0 s AND NOT 0x1b7ff = 0 \<and> l_LINT1 s AND NOT 0x1b7ff = 0
     \<and> l_ERROR s AND NOT 0x110ff = 0 \<and> l_DCR s AND NOT 0xb = 0
     \<and> NOT (l_DFR s) AND NOT 0xf0000000 = 0"

text \<open>What the operations behind the handlers do not change.\<close>

definition keeps :: "lapic \<Rightarrow> lapic \<Rightarrow> bool" where
  "keeps s t \<longleftrightarrow> length (l_vector t) = length (l_vector s) \<and> length (l_lvtds t) = length (l_lvtds s)
     \<and> length (l_rirr t) = length (l_rirr s) \<and> vectors OFS_ISR t = vectors OFS_ISR s
     \<and> vectors OFS_IRR t \<inter> {..<16} = vectors OFS_IRR s \<inter> {..<16} \<and> l_isrv t = l_isrv s \<and> l_msr t = l_msr s
     \<and> l_timer_clock_shift t = l_timer_clock_shift s \<and> l_timer_dcr_shift t = l_timer_dcr_shift s
     \<and> (regs_typed s \<longrightarrow> regs_typed t) \<and> (l_fault s = None \<longrightarrow> l_fault t = None)"

definition lapic_inv :: "lapic \<Rightarrow> bool" where
  "lapic_inv s \<longleftrightarrow> length (l_vector s) = 24 \<and> length (l_lvtds s) = 6 \<and> length (l_rirr s) = 6
     \<and> l_isrv s = get_highest_bit OFS_ISR s \<and> vectors OFS_ISR s \<inter> {..<16} = {} \<and> vectors OFS_IRR s \<inter> {..<16} = {}
     \<and> unat (l_timer_clock_shift s) \<le> 5 \<and> unat (l_timer_dcr_shift s) \<le> 12 \<and> regs_typed s
     \<and> l_fault s = None"

text \<open>A vector whose priority class is above the task priority and above the vectors in service.\<close>

definition deliverable :: "nat \<Rightarrow> lapic \<Rightarrow> bool" where
  "deliverable v s \<longleftrightarrow> unat (l_TPR s) div 16 < v div 16 \<and> (\<forall>w \<in> vectors OFS_ISR s. w div 16 < v div 16)"

text \<open>The frequency of the clock is a 32-bit number. Messages that were sent are taken away by their receivers.\<close>

inductive lapic_reach :: "lapic \<Rightarrow> bool" where
  lapic_reach_new: "unat freq < 2 ^ 32 \<Longrightarrow> lapic_reach (lapic_new freq apic_id timer)"
| lapic_reach_mem: "lapic_reach s \<Longrightarrow> lapic_receive_mem reply now rd phys v s = Inr (r, t) \<Longrightarrow> lapic_reach t"
| lapic_reach_timeout: "lapic_reach s \<Longrightarrow> lapic_receive_timeout now nr s = (b, t) \<Longrightarrow> lapic_reach t"
| lapic_reach_apic: "lapic_reach s \<Longrightarrow> lapic_receive_apic icr dst own s = Inr (b, t) \<Longrightarrow> lapic_reach t"
| lapic_reach_event: "lapic_reach s \<Longrightarrow> lapic_receive_event ty v s = Inr (b, w, t) \<Longrightarrow> lapic_reach t"
| lapic_reach_rdmsr: "lapic_reach s \<Longrightarrow> lapic_rdmsr now ecx eax s = (x, t) \<Longrightarrow> lapic_reach t"
| lapic_reach_wrmsr: "lapic_reach s \<Longrightarrow> lapic_wrmsr reply now ecx eax edx s = Inr (b, t) \<Longrightarrow> lapic_reach t"
| lapic_reach_legacy: "lapic_reach s \<Longrightarrow> lapic_receive_legacy lt s = (b, t) \<Longrightarrow> lapic_reach t"
| lapic_reach_sent: "lapic_reach s \<Longrightarrow> lapic_reach (s\<lparr>l_out := []\<rparr>)"

section \<open>The interrupt vectors as sets\<close>

lemma vec_get_bit: "vec_get n s \<longleftrightarrow> bit (l_vector s ! (n div 32)) (n mod 32)"
  using flag_exp [of "l_vector s ! (n div 32)" "n mod 32"] by (simp add: vec_get_def push_bit_of_1)

lemma vec_set_word: "n div 32 < 24 \<Longrightarrow> vec_set n v s = s\<lparr>l_vector := (l_vector s)[n div 32 :=
    if v then l_vector s ! (n div 32) OR push_bit (n mod 32) 1 else l_vector s ! (n div 32) AND NOT (push_bit (n mod 32) 1)]\<rparr>"
  by (simp add: vec_set_def Let_def)

lemma vec_get_set:
  assumes "length (l_vector s) = 24" "n < 768"
  shows "vec_get m (vec_set n v s) \<longleftrightarrow> (if m = n then v else vec_get m s)"
proof -
  have n: "n div 32 < 24" "n mod 32 < 32" using assms(2) by (simp_all add: less_mult_imp_div_less)
  have e: "m = n \<longleftrightarrow> m div 32 = n div 32 \<and> m mod 32 = n mod 32" by (metis div_mult_mod_eq)
  have m: "m mod 32 < 32" by simp
  show ?thesis
    unfolding vec_get_bit vec_set_word [OF n(1)] using assms(1) n m e
    by (cases "m div 32 = n div 32") (auto simp: bit_simps)
qed

lemma vectors_set:
  assumes "length (l_vector s) = 24" "v < 256" "o1 = 0 \<or> o1 = 256 \<or> o1 = 512" "o2 = 0 \<or> o2 = 256 \<or> o2 = 512"
  shows "vectors o1 (vec_set (o2 + v) b s)
    = (if o1 = o2 then if b then insert v (vectors o1 s) else vectors o1 s - {v} else vectors o1 s)"
proof -
  have "o2 + v < 768" using assms(2,4) by auto
  from vec_get_set [OF assms(1) this] have "vec_get (o1 + w) (vec_set (o2 + v) b s) =
      (if o1 + w = o2 + v then b else vec_get (o1 + w) s)" for w .
  moreover have "o1 + w = o2 + v \<longleftrightarrow> o1 = o2 \<and> w = v" if "w < 256" for w using that assms by auto
  ultimately show ?thesis using assms(2) by (auto simp: vectors_def)
qed

lemma vectors_finite [simp]: "finite (vectors ofs s)"
  by (rule finite_subset [of _ "{..<256}"]) (auto simp: vectors_def)

lemma bit_scan_reverse_u32:
  fixes v :: u32
  assumes "v \<noteq> 0"
  shows "\<exists>p < 32. bit_scan_reverse v = Inr (of_nat p) \<and> bit v p \<and> (\<forall>i < 32. p < i \<longrightarrow> \<not> bit v i)"
proof -
  obtain c where c: "builtin_clz v = Inr c" using builtin_clz_defined [OF assms] by blast
  then obtain p where p: "find (bit v) (rev [0..<32]) = Some p" "c = of_nat (31 - p)"
    by (auto simp: builtin_clz_def split: option.splits)
  then have q: "p < 32" "bit v p" "\<forall>i < 32. p < i \<longrightarrow> \<not> bit v i" unfolding find_rev_upt_Some by blast+
  have u: "(ucast v :: u32) = v" by simp
  have "bit_scan_reverse v = Inr (of_nat p)"
    unfolding bit_scan_reverse_def u c p(2) bindR_simps clz_xor [OF q(1)] by simp
  then show ?thesis using q by blast
qed

lemma highest_from_spec:
  fixes vec :: "u32 list"
  assumes "k \<le> 8"
  shows "let V = {v. v < 32 * k \<and> bit (vec ! (base + v div 32)) (v mod 32)}
    in unat (highest_from vec base k) = (if V = {} then 0 else Max V)"
  using assms
proof (induction k)
  case (Suc k)
  define V where "V = {v. v < 32 * Suc k \<and> bit (vec ! (base + v div 32)) (v mod 32)}"
  define W where "W = {v. v < 32 * k \<and> bit (vec ! (base + v div 32)) (v mod 32)}"
  let ?w = "vec ! (base + k)"
  have fin: "finite V" by (rule finite_subset [of _ "{..<32 * Suc k}"]) (auto simp: V_def)
  show ?case
  proof (cases "?w = 0")
    case True
    have "V = W"
    proof
      show "V \<subseteq> W"
      proof
        fix v assume v: "v \<in> V"
        then have "v div 32 \<noteq> k" using True by (auto simp: V_def)
        moreover have "v div 32 < Suc k" using v by (auto simp: V_def less_mult_imp_div_less mult.commute)
        ultimately have "v div 32 < k" by simp
        then have "v < 32 * k" by (simp add: div_less_iff_less_mult mult.commute)
        then show "v \<in> W" using v by (simp add: V_def W_def)
      qed
    qed (auto simp: V_def W_def)
    moreover have "highest_from vec base (Suc k) = highest_from vec base k" using True by simp
    ultimately show ?thesis using Suc unfolding Let_def V_def [symmetric] W_def [symmetric] by simp
  next
    case False
    obtain p where p: "p < 32" "bit_scan_reverse ?w = Inr (of_nat p)" "bit ?w p" "\<forall>i < 32. p < i \<longrightarrow> \<not> bit ?w i"
      using bit_scan_reverse_u32 [OF False] by blast
    have d: "(32 * k + p) div 32 = k" "(32 * k + p) mod 32 = p" using p(1) by simp_all
    have h: "highest_from vec base (Suc k) = of_nat (32 * k + p)"
    proof -
      have "(of_nat (32 * k) :: u32) OR of_nat p = of_nat (32 * k) + of_nat p"
      proof (rule disjunctive_add [symmetric])
        fix n
        have "\<not> bit (of_nat p :: u32) n" if "5 \<le> n"
        proof -
          have "p < 2 ^ n" using p(1) power_increasing [OF that, of "2 :: nat"] by simp
          then show ?thesis by (simp add: bit_of_nat_iff bit_iff_odd [of p])
        qed
        moreover have "\<not> bit (of_nat (32 * k) :: u32) n" if "n < 5"
        proof -
          have "(of_nat (32 * k) :: u32) = push_bit 5 (of_nat k)" by (simp add: push_bit_eq_mult)
          then show ?thesis using that by (simp only: bit_push_bit_iff) simp
        qed
        ultimately show "\<not> bit (of_nat (32 * k) :: u32) n \<or> \<not> bit (of_nat p :: u32) n" by (cases "5 \<le> n") auto
      qed
      then show ?thesis using False p(2) by (simp add: Let_def)
    qed
    have "32 * k + p \<in> V" using p d by (simp add: V_def)
    moreover have "v \<le> 32 * k + p" if "v \<in> V" for v
    proof (rule ccontr)
      assume "\<not> v \<le> 32 * k + p"
      then have v: "32 * k + p < v" "v < 32 * Suc k" using that by (auto simp: V_def)
      have "v div 32 = k" by (rule div_nat_eqI) (use v in simp_all)
      moreover from this have "v = 32 * k + v mod 32" by (metis mult.commute div_mult_mod_eq)
      ultimately have "v div 32 = k" "p < v mod 32" using v(1) by linarith+
      then show False using that p(4) by (auto simp: V_def)
    qed
    ultimately have "Max V = 32 * k + p" "V \<noteq> {}" using fin by (auto intro: Max_eqI)
    moreover have "unat (of_nat (32 * k + p) :: u32) = 32 * k + p" by (subst unat_of_nat) (use p(1) Suc.prems in simp)
    ultimately show ?thesis unfolding h Let_def V_def [symmetric] by simp
  qed
qed simp

lemma get_highest_bit_Max:
  assumes "ofs = 0 \<or> ofs = 256 \<or> ofs = 512"
  shows "unat (get_highest_bit ofs s) = (if vectors ofs s = {} then 0 else Max (vectors ofs s))"
proof -
  have "(256 + x) div 32 = 8 + x div 32" "(256 + x) mod 32 = x mod 32" "(512 + x) div 32 = 16 + x div 32" "(512 + x) mod 32 = x mod 32"
    for x :: nat
    using div_mult_self4 [of 32 8 x] div_mult_self4 [of 32 16 x] mod_mult_self4 [of 32 8 x] mod_mult_self4 [of 32 16 x] by simp_all
  then have "{v. v < 32 * 8 \<and> bit (l_vector s ! (ofs div 32 + v div 32)) (v mod 32)} = vectors ofs s"
    using assms by (auto simp: vectors_def vec_get_bit)
  then show ?thesis using highest_from_spec [of 8 "l_vector s" "ofs div 32"] by (simp add: get_highest_bit_def Let_def)
qed

section \<open>What the internal operations keep\<close>

lemma keeps_refl [simp]: "keeps s s"
  by (simp add: keeps_def)

lemma keeps_trans: "keeps s t \<Longrightarrow> keeps t u \<Longrightarrow> keeps s u"
  by (simp add: keeps_def)

lemma keeps_length: "keeps s t \<Longrightarrow> length (l_vector t) = length (l_vector s)"
  by (simp add: keeps_def)

text \<open>Fields that play no role for the state of the interrupts.\<close>

lemma keeps_fields:
  assumes "keeps s t"
  shows "keeps s (t\<lparr>l_out := a\<rparr>)" "keeps s (t\<lparr>l_esr_shadow := b\<rparr>)" "keeps s (t\<lparr>l_PERF := l_PERF t OR LVT_MASKED\<rparr>)"
    "keeps s (t\<lparr>l_lvtds := (l_lvtds t)[i := c]\<rparr>)" "keeps s (t\<lparr>l_rirr := (l_rirr t)[i := c]\<rparr>)"
    "keeps s (t\<lparr>l_timer_start := d\<rparr>)" "keeps s (t\<lparr>l_lowest_rr := b\<rparr>)" "keeps s (t\<lparr>l_ESR := b\<rparr>)" "keeps s (t\<lparr>l_ICR1 := b\<rparr>)"
    "keeps s (t\<lparr>l_ID := b\<rparr>)"
proof -
  have "LVT_MASKED AND NOT 0x117ff = 0" by code_simp
  then have "(x OR LVT_MASKED) AND NOT 0x117ff = x AND NOT 0x117ff" for x
    by (simp only: bit.conj_disj_distrib2 or.right_neutral)
  then show "keeps s (t\<lparr>l_PERF := l_PERF t OR LVT_MASKED\<rparr>)"
    using assms by (simp add: keeps_def vectors_def vec_get_def regs_typed_def)
qed (use assms in \<open>simp_all add: keeps_def vectors_def vec_get_def regs_typed_def\<close>)

lemma keeps_send_out: "keeps s t \<Longrightarrow> keeps s (send_out m t)"
  unfolding send_out_def by (rule keeps_fields)

lemma keeps_update_irqs: "keeps s t \<Longrightarrow> keeps s (update_irqs t)"
  by (simp add: update_irqs_def keeps_send_out)

lemma keeps_vec_set:
  assumes "keeps s t" "length (l_vector t) = 24" "v < 256" "o2 = OFS_TMR \<or> o2 = OFS_IRR \<and> 16 \<le> v"
  shows "keeps s (vec_set (o2 + v) b t)"
proof -
  have o: "o2 = 0 \<or> o2 = 256 \<or> o2 = 512" using assms(4) by (auto simp: OFS_TMR_def OFS_IRR_def)
  have "vectors OFS_ISR (vec_set (o2 + v) b t) = vectors OFS_ISR t"
    using vectors_set [OF assms(2,3) _ o, of OFS_ISR b] assms(4) by (auto simp: OFS_ISR_def OFS_TMR_def OFS_IRR_def)
  moreover have "vectors OFS_IRR (vec_set (o2 + v) b t) \<inter> {..<16} = vectors OFS_IRR t \<inter> {..<16}"
    using vectors_set [OF assms(2,3) _ o, of OFS_IRR b] assms(4) by (auto simp: OFS_TMR_def OFS_IRR_def)
  moreover have "(o2 + v) div 32 < 24" using o assms(3) by (auto intro!: less_mult_imp_div_less)
  ultimately show ?thesis using assms(1) by (simp add: keeps_def vec_set_word regs_typed_def)
qed

lemmas keeps_intros = keeps_fields keeps_send_out keeps_update_irqs

lemma interrupt_keeps:
  "length (l_vector s) = 24 \<Longrightarrow> n < 32 \<Longrightarrow> keeps s (set_error n s)"
  "length (l_vector s) = 24 \<Longrightarrow> num < NUM_LVT \<Longrightarrow> keeps s (trigger_lvt num s)"
  "length (l_vector s) = 24 \<Longrightarrow> keeps s (accept_vector vector level v s)"
proof (induction n s and num s and vector level v s rule: set_error_trigger_lvt_accept_vector.induct)
  case (1 n s)
  show ?case
  proof (cases "bit (l_esr_shadow s) n")
    case True
    then show ?thesis using 1(3) by (simp add: set_error.simps)
  next
    case False
    have "keeps s (s\<lparr>l_esr_shadow := l_esr_shadow s OR push_bit n 1\<rparr>)" by (rule keeps_fields) simp
    from keeps_trans [OF this 1(1)] show ?thesis
      using False 1(2,3) by (simp add: set_error.simps LVT_ERROR_def NUM_LVT_def)
  qed
next
  case (2 num s)
  define lvt where "lvt = lvt_reg num s"
  define event where "event = icr_event lvt"
  define level where "level = (flag lvt ICR_LEVEL \<and> event = EVENT_FIXED \<or> event = EVENT_EXTINT)"
  define t where "t = (if level then s\<lparr>l_lvtds := (l_lvtds s)[num := True]\<rparr> else s)"
  define u where "u = (if num = LVT_PERF then t\<lparr>l_PERF := l_PERF t OR LVT_MASKED\<rparr> else t)"
  have num: "\<not> NUM_LVT \<le> num" using 2(3) by simp
  have t: "keeps s t" by (simp add: t_def keeps_intros)
  then have u: "keeps s u" by (simp add: u_def keeps_intros)
  show ?case
  proof (cases "l_rirr s ! num \<or> flag lvt LVT_MASKED \<or> event \<noteq> EVENT_FIXED")
    case True
    then show ?thesis using t u
      unfolding trigger_lvt.simps [of num s] if_not_P [OF num] Let_def lvt_def [symmetric] event_def [symmetric] level_def [symmetric]
        t_def [symmetric] u_def [symmetric] by (auto intro: keeps_intros)
  next
    case False
    define w where "w = u\<lparr>l_rirr := (l_rirr u)[num := level]\<rparr>"
    have w: "keeps s w" unfolding w_def using u by (rule keeps_intros)
    have "keeps w (accept_vector (ucast lvt) level True w)"
      using 2(1) [OF num lvt_def event_def level_def _ t_def _ u_def] False keeps_length [OF w] 2(2) by (simp add: w_def)
    from keeps_trans [OF w this] have "keeps s (accept_vector (ucast lvt) level True w)" .
    then show ?thesis using False
      unfolding trigger_lvt.simps [of num s] if_not_P [OF num] Let_def lvt_def [symmetric] event_def [symmetric] level_def [symmetric]
        t_def [symmetric] u_def [symmetric] w_def [symmetric] by (auto intro: keeps_intros)
  qed
next
  case (3 vector level v s)
  have "unat vector < 256" using unat_bound [of vector] by simp
  moreover have "16 \<le> unat vector" if "\<not> vector < 16" using that by (simp add: word_less_nat_alt)
  ultimately have "keeps s (vec_set (OFS_TMR + unat vector) level (vec_set (OFS_IRR + unat vector) (\<not> level \<or> v) s))"
    if "\<not> vector < 16" using that 3(2)
    by (intro keeps_vec_set) (auto simp: vec_set_def lapic_fail_def Let_def)
  then show ?case using 3 by (auto simp: accept_vector.simps intro: keeps_update_irqs)
qed

section \<open>The invariant\<close>

lemma highest_cong: "vectors OFS_ISR t = vectors OFS_ISR s \<Longrightarrow> get_highest_bit OFS_ISR t = get_highest_bit OFS_ISR s"
  by (rule word_unat_eq_iff [THEN iffD2]) (simp add: get_highest_bit_Max OFS_ISR_def)

lemma inv_keeps: "lapic_inv s \<Longrightarrow> keeps s t \<Longrightarrow> lapic_inv t"
  using highest_cong [of t s] by (simp add: lapic_inv_def keeps_def)

lemma inv_length: "lapic_inv s \<Longrightarrow> length (l_vector s) = 24"
  by (simp add: lapic_inv_def)

lemma get_ccr_keeps:
  "length (l_vector s) = 24 \<Longrightarrow> unat (l_timer_dcr_shift s) < 32 \<Longrightarrow> keeps s (snd (get_ccr now s))"
  using interrupt_keeps(2) [of s 0] by (auto simp: get_ccr_def check_that_def NUM_LVT_def Let_def intro: keeps_fields)

lemma update_timer_keeps:
  assumes "length (l_vector s) = 24" "unat (l_timer_dcr_shift s) < 32"
  shows "\<exists>t. update_timer now s = Inr t \<and> keeps s t"
proof -
  obtain v t where g: "get_ccr now s = (v, t)" by (cases "get_ccr now s")
  then have t: "keeps s t" using get_ccr_keeps [OF assms, of now] by simp
  then have "\<not> unat (l_timer_dcr_shift t) \<ge> 32" using assms(2) by (simp add: keeps_def)
  then show ?thesis using t by (auto simp: update_timer_def g intro: keeps_send_out)
qed

lemma send_ipi_keeps:
  assumes "length (l_vector s) = 24"
  shows "keeps s (snd (send_ipi reply icr dst s))"
proof -
  have "keeps s ((send_out m s)\<lparr>l_lowest_rr := r\<rparr>)" "keeps s (send_out m s)" for m r
    by (intro keeps_intros keeps_refl)+
  moreover have i: "keeps s (set_error 4 s)" "keeps s (set_error 5 s)" using interrupt_keeps(1) [OF assms] by simp_all
  ultimately show ?thesis unfolding send_ipi_def Let_def
    by (simp only: if_distrib [of snd] if_distrib [of "keeps s"] snd_conv i keeps_refl if_cancel)
qed

lemma broadcast_eoi_keeps: "unat (l_isrv s) < 256 \<Longrightarrow> keeps s (broadcast_eoi v s)"
  by (simp add: keeps_def check_that_def OFS_TMR_def less_mult_imp_div_less broadcast_eoi_def send_out_def vectors_def vec_get_def regs_typed_def Let_def)

lemma merge_typed: "x AND NOT m = 0 \<Longrightarrow> ((x AND NOT m) OR (v AND m)) AND NOT m = (0 :: u32)"
  by (rule bit_word_eqI) (simp add: bit_simps)

lemma merge_typed_not: "NOT x AND NOT m = 0 \<Longrightarrow> NOT ((x AND NOT m) OR (v AND m)) AND NOT m = (0 :: u32)"
proof -
  assume a: "NOT x AND NOT m = 0"
  have "NOT ((x AND NOT m) OR (v AND m)) AND NOT m = NOT x AND NOT m"
    by (rule bit_word_eqI) (auto simp: bit_simps)
  then show ?thesis using a by simp
qed

lemma reg_store_keeps:
  assumes "reg_mask offset = Some m"
  shows "keeps s (reg_store offset (((case lapic_read offset s of Some x \<Rightarrow> x | None \<Rightarrow> 0) AND NOT m) OR (v AND m)) s)"
proof -
  define w where "w = ((case lapic_read offset s of Some x \<Rightarrow> x | None \<Rightarrow> 0) AND NOT m) OR (v AND m)"
  have "regs_typed (reg_store offset w s)" if "regs_typed s"
  proof -
    have "w AND NOT m = 0" if "(case lapic_read offset s of Some x \<Rightarrow> x | None \<Rightarrow> 0) AND NOT m = 0"
      unfolding w_def by (rule merge_typed [OF that])
    moreover have "NOT w AND NOT m = 0" if "NOT (case lapic_read offset s of Some x \<Rightarrow> x | None \<Rightarrow> 0) AND NOT m = 0"
      unfolding w_def by (rule merge_typed_not [OF that])
    ultimately show ?thesis using that assms
      by (auto simp: regs_typed_def reg_store_def reg_mask_def lapic_read_def split: if_splits)
  qed
  then show ?thesis unfolding w_def [symmetric] by (simp add: keeps_def reg_store_def vectors_def vec_get_def)
qed

lemma inv_shift: "lapic_inv s \<Longrightarrow> unat (l_timer_dcr_shift s) < 32"
  by (simp add: lapic_inv_def)

lemma and_7_le: "unat (x AND (7 :: u32)) \<le> 7"
  using unat_and_mask [of x 3] by (simp add: mask_eq_exp_minus_1)

lemma dcr_written_inv:
  assumes "lapic_inv s"
  shows "\<exists>t. dcr_written now s = Inr t \<and> lapic_inv t"
proof -
  obtain ccr t where g: "get_ccr now s = (ccr, t)" by (cases "get_ccr now s")
  then have "keeps s t" using get_ccr_keeps [OF inv_length [OF assms] inv_shift [OF assms], of now] by simp
  then have t: "lapic_inv t" by (rule inv_keeps [OF assms])
  define sh where "sh = l_timer_clock_shift t + ((((l_DCR t AND 3) OR (drop_bit 1 (l_DCR t) AND 4)) + 1) AND 7)"
  have "unat (l_timer_clock_shift t) \<le> 5" using t by (simp add: lapic_inv_def)
  moreover note and_7_le [of "((l_DCR t AND 3) OR (drop_bit 1 (l_DCR t) AND 4)) + 1"]
  ultimately have sh: "unat sh \<le> 12" unfolding sh_def by (subst unat_add_small) simp_all
  define u where "u = t\<lparr>l_timer_dcr_shift := sh, l_timer_start := now - ucast (push_bit (unat sh) (l_ICT t - ccr))\<rparr>"
  have u: "lapic_inv u" using t sh by (simp add: lapic_inv_def u_def get_highest_bit_def vectors_def vec_get_def regs_typed_def)
  obtain w where "update_timer now u = Inr w" "keeps u w"
    using update_timer_keeps [OF inv_length [OF u] inv_shift [OF u]] by blast
  moreover have "dcr_written now s = update_timer now u"
    unfolding dcr_written_def g prod.case Let_def sh_def [symmetric] u_def using sh by simp
  ultimately show ?thesis using inv_keeps [OF u] by auto
qed

lemma lapic_write_inv:
  assumes "lapic_inv s"
  shows "\<exists>b t. lapic_write reply now offset v strict s = Inr (b, t) \<and> lapic_inv t"
proof (cases "reg_mask offset")
  case None
  then show ?thesis using assms by (intro exI [of _ False] exI [of _ s]) (simp add: lapic_write_def)
next
  case (Some m)
  define t where "t = reg_store offset (((case lapic_read offset s of Some x \<Rightarrow> x | None \<Rightarrow> 0) AND NOT m) OR (v AND m)) s"
  have t: "lapic_inv t" unfolding t_def by (rule inv_keeps [OF assms reg_store_keeps [OF Some]])
  have ts: "lapic_inv (t\<lparr>l_timer_start := now\<rparr>)" by (rule inv_keeps [OF t]) (simp add: keeps_fields)
  obtain w where w: "update_timer now (t\<lparr>l_timer_start := now\<rparr>) = Inr w" "lapic_inv w"
    using update_timer_keeps [OF inv_length [OF ts] inv_shift [OF ts]] inv_keeps [OF ts] by blast
  obtain x where x: "dcr_written now t = Inr x" "lapic_inv x" using dcr_written_inv [OF t] by blast
  have "keeps t (t\<lparr>l_ESR := l_esr_shadow t, l_esr_shadow := 0\<rparr>)" "keeps t (update_irqs t)"
    by (intro keeps_intros keeps_refl)+
  then have "lapic_inv (t\<lparr>l_ESR := l_esr_shadow t, l_esr_shadow := 0\<rparr>)" "lapic_inv (update_irqs t)" using inv_keeps [OF t] by blast+
  moreover have "lapic_inv (snd (send_ipi reply (l_ICR t) (l_ICR1 t) t))"
    by (rule inv_keeps [OF t send_ipi_keeps [OF inv_length [OF t]]])
  ultimately show ?thesis
    unfolding lapic_write_def Some option.simps Let_def t_def [symmetric] using assms t w x by auto
qed

lemma in_lvt_index:
  assumes "in_lvt offset"
  shows "unat (offset - LVT_BASE) < NUM_LVT"
proof -
  have u: "unat (ucast offset :: u64) = unat offset" using unat_bound [of offset] by (simp add: unat_ucast)
  have "unat offset \<ge> 0x32 \<and> unat offset \<le> 0x37"
    using assms by (simp add: in_lvt_def bus_in_range_def LVT_BASE_def NUM_LVT_def word_le_nat_alt u)
  then show ?thesis unfolding LVT_BASE_def NUM_LVT_def by (subst unat_diff_small) (auto simp: word_le_nat_alt)
qed

lemma check_lvt [simp]: "in_lvt offset \<Longrightarrow> check_that (unat (offset - LVT_BASE) < NUM_LVT) e s = s"
  by (simp add: check_that_def in_lvt_index)

lemma check_vector [simp]: "(offset :: u32) \<le> 0x27 \<Longrightarrow> check_that (unat offset - 0x10 < 24) e s = s"
  by (simp add: check_that_def word_le_nat_alt less_diff_conv2)

lemma register_read_keeps:
  assumes "length (l_vector s) = 24" "unat (l_timer_dcr_shift s) < 32"
  shows "keeps s (snd (snd (register_read now offset v s)))"
proof -
  have g: "keeps s t" if "get_ccr now s = (x, t)" for x t using get_ccr_keeps [OF assms, of now] that by simp
  have e: "keeps s (set_error 7 s)" by (rule interrupt_keeps) (simp_all add: assms(1))
  obtain res x t where r: "(if offset = 0x0a then (True, processor_prio s, s)
         else if 0x10 \<le> offset \<and> offset \<le> 0x27
         then (True, l_vector s ! (unat offset - 0x10), check_that (unat offset - 0x10 < 24) Undefined s)
         else if offset = 0x39 then (case get_ccr now s of (v, s) \<Rightarrow> (True, v, s))
         else (case lapic_read offset s of Some v \<Rightarrow> (True, v, s) | None \<Rightarrow> (False, v, set_error 7 s))) = (res, x, t)"
    by (metis prod_cases3)
  then have "keeps s t" using e g by (auto split: if_splits option.splits prod.splits)
  then show ?thesis unfolding register_read_def r Let_def by (cases "in_lvt offset") simp_all
qed

text \<open>The end of an interrupt removes the highest vector in service.\<close>

lemma lapic_eoi_service:
  assumes "lapic_inv s"
  shows "\<exists>t. lapic_eoi now s = Inr t \<and> lapic_inv t \<and> vectors OFS_ISR t = vectors OFS_ISR s - {unat (l_isrv s)}"
proof (cases "l_isrv s = 0")
  case True
  moreover have "0 \<notin> vectors OFS_ISR s" using assms by (auto simp: lapic_inv_def)
  ultimately show ?thesis using assms by (simp add: lapic_eoi_def)
next
  case False
  have l: "length (l_vector s) = 24" by (rule inv_length [OF assms])
  have "l_isrv s = get_highest_bit OFS_ISR s" using assms by (simp add: lapic_inv_def)
  then have m: "unat (l_isrv s) = (if vectors OFS_ISR s = {} then 0 else Max (vectors OFS_ISR s))"
    using get_highest_bit_Max [of OFS_ISR s] by (simp add: OFS_ISR_def)
  then have v: "unat (l_isrv s) \<in> vectors OFS_ISR s" using False Max_in [of "vectors OFS_ISR s"]
    by (auto simp: unsigned_eq_0_iff split: if_splits)
  then have v256: "unat (l_isrv s) < 256" by (simp add: vectors_def)
  define a where "a = vec_set (OFS_ISR + unat (l_isrv s)) False s"
  have a: "vectors OFS_ISR a = vectors OFS_ISR s - {unat (l_isrv s)}" "vectors OFS_IRR a = vectors OFS_IRR s"
    using vectors_set [OF l v256, of OFS_ISR OFS_ISR False] vectors_set [OF l v256, of OFS_IRR OFS_ISR False]
    by (simp_all add: a_def OFS_ISR_def OFS_IRR_def)
  have af: "l_isrv a = l_isrv s" "length (l_vector a) = 24" "l_timer_dcr_shift a = l_timer_dcr_shift s" "length (l_lvtds a) = 6"
    "length (l_rirr a) = 6" "l_timer_clock_shift a = l_timer_clock_shift s" "l_fault a = None"
    using assms v256 by (simp_all add: a_def vec_set_word OFS_ISR_def less_mult_imp_div_less lapic_inv_def)
  define b where "b = broadcast_eoi (l_isrv s) a"
  have b: "keeps a b" unfolding b_def by (rule broadcast_eoi_keeps) (simp add: af v256)
  obtain c where c: "(if l_isrv b = l_TIMER b AND 0xff then update_timer now b else Inr b) = Inr c" "keeps b c"
  proof (cases "l_isrv b = l_TIMER b AND 0xff")
    case True
    have "length (l_vector b) = 24" "unat (l_timer_dcr_shift b) < 32"
      using b af inv_shift [OF assms] by (simp_all add: keeps_def)
    then show thesis using update_timer_keeps [of b now] that True by auto
  next
    case False
    then show thesis using that [of b] by simp
  qed
  define d where "d = c\<lparr>l_isrv := get_highest_bit OFS_ISR c\<rparr>"
  have kc: "keeps a c" by (rule keeps_trans [OF b c(2)])
  then have vc: "vectors OFS_ISR c = vectors OFS_ISR s - {unat (l_isrv s)}" "vectors OFS_IRR c \<inter> {..<16} = vectors OFS_IRR s \<inter> {..<16}"
    using a by (simp_all add: keeps_def)
  have "regs_typed a" using assms by (simp add: a_def vec_set_def lapic_fail_def Let_def lapic_inv_def regs_typed_def)
  then have "regs_typed c" using kc by (simp add: keeps_def)
  then have "regs_typed d" by (simp add: d_def regs_typed_def)
  moreover have "vectors ofs d = vectors ofs c" "get_highest_bit ofs d = get_highest_bit ofs c" for ofs
    by (simp_all add: d_def vectors_def vec_get_def get_highest_bit_def)
  moreover have "l_isrv d = get_highest_bit OFS_ISR c" "length (l_vector d) = 24" "length (l_lvtds d) = 6" "length (l_rirr d) = 6"
    "l_timer_dcr_shift d = l_timer_dcr_shift s" "l_timer_clock_shift d = l_timer_clock_shift s" "l_fault d = None"
    using kc af by (simp_all add: d_def keeps_def)
  ultimately have "lapic_inv d" using assms vc by (simp add: lapic_inv_def) blast
  moreover have "vectors OFS_ISR d = vectors OFS_ISR s - {unat (l_isrv s)}"
    using vc(1) by (simp add: d_def vectors_def vec_get_def)
  moreover have k: "keeps d (update_irqs d)" by (simp add: keeps_update_irqs)
  ultimately have "lapic_inv (update_irqs d)" "vectors OFS_ISR (update_irqs d) = vectors OFS_ISR s - {unat (l_isrv s)}"
    using inv_keeps [of d] by (auto simp: keeps_def)
  moreover have "lapic_eoi now s = Inr (update_irqs d)"
    using False c(1) by (simp add: lapic_eoi_def Let_def a_def [symmetric] b_def [symmetric] d_def)
  ultimately show ?thesis by blast
qed

lemma register_write_with_inv:
  assumes "lapic_inv s" and mask: "\<And>t. lapic_inv t \<Longrightarrow> \<exists>u. mask_all t = Inr u \<and> lapic_inv u"
  shows "\<exists>b t. register_write_with mask_all reply now offset v strict s = Inr (b, t) \<and> lapic_inv t"
proof -
  define w where "w = (if sw_disabled s \<and> in_lvt offset then v OR LVT_MASKED else v)"
  obtain e where e: "lapic_eoi now s = Inr e" "lapic_inv e" using lapic_eoi_service [OF assms(1)] by blast
  obtain res a where a: "lapic_write reply now offset w strict s = Inr (res, a)" "lapic_inv a"
    using lapic_write_inv [OF assms(1)] by blast
  define b where "b = (if res then a else set_error 7 a)"
  have b: "lapic_inv b" using a(2) inv_keeps [OF a(2) interrupt_keeps(1) [OF inv_length [OF a(2)], of 7]] by (simp add: b_def)
  obtain c where c: "(if offset = 0x0f \<and> sw_disabled b then mask_all b else Inr b) = Inr c" "lapic_inv c"
    using mask [OF b] b by (cases "offset = 0x0f \<and> sw_disabled b") auto
  define i where "i = unat (offset - LVT_BASE)"
  define ch where "ch = check_that (i < NUM_LVT) Undefined c"
  define d where "d = (if l_lvtds ch ! i then trigger_lvt i ch else ch)"
  have d: "lapic_inv d" if "in_lvt offset"
    using c(2) inv_keeps [OF c(2) interrupt_keeps(2) [OF inv_length [OF c(2)] in_lvt_index [OF that]]] that
    by (simp add: d_def ch_def i_def)
  define F where "F = (if offset = LVT_BASE then update_timer now d else Inr d)"
  have "\<exists>f. F = Inr f \<and> lapic_inv (update_irqs f)" if l: "in_lvt offset"
  proof -
    obtain f where f: "F = Inr f" "lapic_inv f"
      using update_timer_keeps [OF inv_length [OF d [OF l]] inv_shift [OF d [OF l]], of now]
        inv_keeps [OF d [OF l]] d [OF l]
      by (cases "offset = LVT_BASE") (auto simp: F_def)
    have "lapic_inv (update_irqs f)" by (rule inv_keeps [OF f(2)]) (simp add: keeps_update_irqs)
    then show ?thesis using f(1) by blast
  qed
  then obtain f where f: "in_lvt offset \<Longrightarrow> F = Inr f" "in_lvt offset \<Longrightarrow> lapic_inv (update_irqs f)" by blast
  have r: "register_write_with mask_all reply now offset v strict s =
     (if offset = 0x9 \<or> offset = 0xc then Inr (True, s)
      else if offset = 0xb then if strict \<and> w \<noteq> 0 then Inr (False, s) else Inr (True, e)
      else if in_lvt offset then Inr (res, update_irqs f) else Inr (res, c))"
    unfolding register_write_with_def Let_def w_def [symmetric] a(1) e(1) bindR_simps prod.case b_def [symmetric] c(1)
      i_def [symmetric] ch_def [symmetric] d_def [symmetric] F_def [symmetric] using f(1) by simp
  show ?thesis unfolding r using assms(1) c(2) e(2) f(2)
    by (cases "offset = 0x9 \<or> offset = 0xc"; cases "offset = 0xb"; cases "strict \<and> w \<noteq> 0"; cases "in_lvt offset") auto
qed

lemma mask_lvts_inv: "lapic_inv s \<Longrightarrow> \<exists>t. mask_lvts reply now is s = Inr t \<and> lapic_inv t"
proof (induction "is" arbitrary: s)
  case (Cons i "is")
  obtain b v t where r: "register_read now (of_nat i + LVT_BASE) 0 s = (b, v, t)" by (cases "register_read now (of_nat i + LVT_BASE) 0 s")
  then have "keeps s t" using register_read_keeps [OF inv_length [OF Cons.prems] inv_shift [OF Cons.prems], of now "of_nat i + LVT_BASE" 0] by simp
  then have t: "lapic_inv t" by (rule inv_keeps [OF Cons.prems])
  obtain c u where u: "register_write_with Inr reply now (of_nat i + LVT_BASE) v False t = Inr (c, u)" "lapic_inv u"
    using register_write_with_inv [OF t] by blast
  then show ?case using Cons.IH [OF u(2)] by (simp add: r)
qed simp

lemma register_write_inv:
  "lapic_inv s \<Longrightarrow> \<exists>b t. register_write reply now offset v strict s = Inr (b, t) \<and> lapic_inv t"
  unfolding register_write_def by (rule register_write_with_inv) (use mask_lvts_inv in auto)

lemma lapic_init_inv:
  assumes "unat (l_timer_clock_shift s) \<le> 5" "l_fault s = None"
  shows "lapic_inv (lapic_init s)" "l_timer_clock_shift (lapic_init s) = l_timer_clock_shift s"
proof -
  define t where "t = (lapic_reset_regs s)\<lparr>l_timer_dcr_shift := 1 + l_timer_clock_shift s, l_vector := replicate 24 0,
           l_lvtds := (replicate NUM_LVT False)[LVT_LINT0 := l_lvtds s ! LVT_LINT0], l_rirr := replicate NUM_LVT False,
           l_isrv := 0, l_esr_shadow := 0, l_lowest_rr := 0, l_ID := l_ID s\<rparr>"
  have e: "lapic_init s = update_irqs t" by (simp add: lapic_init_def t_def Let_def lapic_reset_regs_def)
  have v: "vectors ofs t = {}" if "ofs \<le> 512" for ofs
    using that by (auto simp: vectors_def vec_get_bit t_def less_mult_imp_div_less)
  have "unat (get_highest_bit OFS_ISR t) = 0" using v [of 0] by (simp add: get_highest_bit_Max OFS_ISR_def)
  moreover have "unat (1 + l_timer_clock_shift s) = 1 + unat (l_timer_clock_shift s)"
    using assms by (subst unat_add_small) simp_all
  moreover have "regs_typed t" by (simp add: t_def regs_typed_def lapic_reset_regs_def)
  ultimately have "lapic_inv t" using assms v [of OFS_ISR] v [of OFS_IRR]
    by (simp add: lapic_inv_def unsigned_eq_0_iff OFS_ISR_def OFS_IRR_def) (simp add: t_def NUM_LVT_def lapic_reset_regs_def)
  then show "lapic_inv (lapic_init s)" unfolding e by (rule inv_keeps) (simp add: keeps_update_irqs)
  show "l_timer_clock_shift (lapic_init s) = l_timer_clock_shift s"
    unfolding e by (simp add: update_irqs_def send_out_def t_def lapic_reset_regs_def)
qed

lemma set_base_msr_inv:
  assumes "lapic_inv s"
  shows "lapic_inv (snd (set_base_msr v s))"
proof -
  define a where "a = (if flag (l_msr s XOR v) 0x800
       then send_out (CpuidWrite 1 2 (NOT 0x200000) (if flag v 0x800 then 0x200000 else 0))
              (send_out (CpuidWrite 1 3 (NOT 0x200) (if flag v 0x800 then 0x200 else 0)) s) else s)"
  have a: "lapic_inv a" unfolding a_def using assms inv_keeps [OF assms keeps_send_out [OF keeps_send_out [OF keeps_refl]]] by simp
  define b where "b = a\<lparr>l_msr := v\<rparr>"
  have b: "lapic_inv b" using a by (simp add: b_def lapic_inv_def get_highest_bit_def vectors_def vec_get_def regs_typed_def)
  define c where "c = (if \<not> x2apic_mode s \<and> x2apic_mode b then b\<lparr>l_ID := l_initial_apic_id b, l_ICR1 := 0\<rparr> else b)"
  have c: "lapic_inv c" using b by (simp add: c_def lapic_inv_def get_highest_bit_def vectors_def vec_get_def regs_typed_def)
  have "lapic_inv (lapic_init c)" by (rule lapic_init_inv(1)) (use c in \<open>simp_all add: lapic_inv_def\<close>)
  then show ?thesis using assms c
    unfolding set_base_msr_def Let_def a_def [symmetric] b_def [symmetric] c_def [symmetric] by simp
qed

lemma lapic_reset_inv:
  assumes "unat (l_timer_clock_shift s) \<le> 5" "l_fault s = None"
  shows "lapic_inv (lapic_reset s)"
proof -
  have "lapic_inv ((lapic_init s)\<lparr>l_ID := push_bit 24 (l_initial_apic_id (lapic_init s)), l_msr := 0\<rparr>)"
    using lapic_init_inv(1) [OF assms] by (simp add: lapic_inv_def get_highest_bit_def vectors_def vec_get_def regs_typed_def)
  then show ?thesis unfolding lapic_reset_def Let_def by (rule set_base_msr_inv)
qed

lemma clock_shift_le:
  assumes "unat freq < 2 ^ 32"
  shows "unat (clock_shift freq) \<le> 5"
proof -
  have "unat freq div 2 ^ 5 < 2 ^ 27" using assms by simp
  then have "drop_bit 5 freq \<le> MAX_FREQ" by (simp add: MAX_FREQ_def word_le_nat_alt unat_drop_bit)
  then obtain k where k: "find (\<lambda>sh. drop_bit sh freq \<le> MAX_FREQ) [0..<32] = Some k" "k \<le> 5"
    by (cases "find (\<lambda>sh. drop_bit sh freq \<le> MAX_FREQ) [0..<32]")
       (auto simp: find_None_iff find_upt_Some not_le dest: spec [of _ 5])
  then show ?thesis by (simp add: clock_shift_def unat_of_nat)
qed

section \<open>Priorities\<close>

lemma and_f0: "unat (x AND 0xf0 :: u32) = unat x mod 256 div 16 * 16"
proof -
  have "x AND 0xf0 = (x AND mask 8) AND NOT (mask 4)"
    by (rule bit_word_eqI) (auto simp: bit_simps numeral_eq_Suc less_Suc_eq)
  then have "unat (x AND 0xf0) = unat x mod 2 ^ 8 - unat x mod 2 ^ 8 mod 2 ^ 4"
    by (simp only: unat_and_not_mask unat_and_mask)
  then show ?thesis by (simp add: minus_mod_eq_div_mult)
qed

lemma class_less: "(a :: nat) < b div 16 * 16 \<longleftrightarrow> a div 16 < b div 16"
  by (metis div_less_iff_less_mult zero_less_numeral)

lemma isrv_Max:
  assumes "lapic_inv s"
  shows "unat (l_isrv s) = (if vectors OFS_ISR s = {} then 0 else Max (vectors OFS_ISR s))"
  using assms get_highest_bit_Max [of OFS_ISR s] by (simp add: lapic_inv_def OFS_ISR_def)

lemma vectors_less: "v \<in> vectors ofs s \<Longrightarrow> v < 256"
  by (simp add: vectors_def)

lemma above_prio_iff:
  assumes "lapic_inv s" "unat irrv < 256" "16 \<le> unat irrv"
  shows "irrv AND 0xf0 > processor_prio s \<longleftrightarrow> deliverable (unat irrv) s"
proof -
  have i: "unat (l_isrv s) < 256" using isrv_Max [OF assms(1)] Max_in [of "vectors OFS_ISR s"] vectors_less [of _ OFS_ISR s] by auto
  have p: "unat (processor_prio s) = max (unat (l_TPR s)) (unat (l_isrv s) div 16 * 16)"
    using i by (auto simp: processor_prio_def Let_def word_le_nat_alt and_f0 max_def)
  have m: "(\<forall>w \<in> vectors OFS_ISR s. w div 16 < unat irrv div 16) \<longleftrightarrow> unat (l_isrv s) div 16 < unat irrv div 16"
  proof (cases "vectors OFS_ISR s = {}")
    case True
    then show ?thesis using isrv_Max [OF assms(1)] assms(3) by simp
  next
    case False
    then have e: "unat (l_isrv s) = Max (vectors OFS_ISR s)" using isrv_Max [OF assms(1)] by simp
    have "w div 16 \<le> Max (vectors OFS_ISR s) div 16" if "w \<in> vectors OFS_ISR s" for w
      using that by (simp add: div_le_mono)
    then show ?thesis unfolding e using Max_in [OF vectors_finite False] by (meson le_less_trans)
  qed
  have "irrv AND 0xf0 > processor_prio s \<longleftrightarrow> max (unat (l_TPR s)) (unat (l_isrv s) div 16 * 16) < unat irrv div 16 * 16"
    using assms(2) by (simp add: word_less_nat_alt p and_f0)
  also have "\<dots> \<longleftrightarrow> deliverable (unat irrv) s" unfolding deliverable_def m by (subst max_less_iff_conj) (simp add: class_less)
  finally show ?thesis .
qed

lemma no_extint_find:
  assumes "\<forall>i < NUM_LVT. \<not> extint_pending i s"
  shows "find (\<lambda>i. extint_pending i s) [0..<NUM_LVT] = None"
  using assms by (simp add: find_None_iff)

lemma prioritize_spec:
  assumes "lapic_inv s" "\<forall>i < NUM_LVT. \<not> extint_pending i s"
  defines "P \<equiv> vectors OFS_IRR s"
  shows "prioritize_irq_lapic s = (if P \<noteq> {} \<and> deliverable (Max P) s then of_nat (Max P) else 0)"
proof -
  define irrv where "irrv = get_highest_bit OFS_IRR s"
  have h: "unat irrv = (if P = {} then 0 else Max P)"
    unfolding irrv_def P_def by (rule get_highest_bit_Max) (simp add: OFS_IRR_def)
  have low: "v \<ge> 16" if "v \<in> P" for v using that assms(1) by (auto simp: lapic_inv_def P_def)
  have fin: "finite P" by (simp add: P_def)
  have r: "prioritize_irq_lapic s = (if irrv \<noteq> 0 \<and> irrv AND 0xf0 > processor_prio s then irrv else 0)"
    by (simp add: prioritize_irq_lapic_def no_extint_find [OF assms(2)] Let_def irrv_def)
  show ?thesis
  proof (cases "P = {}")
    case True
    then show ?thesis using h r by (simp add: unsigned_eq_0_iff)
  next
    case False
    then have u: "unat irrv = Max P" "Max P < 256" "16 \<le> Max P"
      using h Max_in [OF fin False] low vectors_less [of "Max P" OFS_IRR s] by (simp_all add: P_def)
    then have "irrv = of_nat (Max P)" "irrv \<noteq> 0" by (auto simp flip: u(1))
    moreover have "irrv AND 0xf0 > processor_prio s \<longleftrightarrow> deliverable (Max P) s"
      using above_prio_iff [OF assms(1), of irrv] u by simp
    ultimately show ?thesis using r False by simp
  qed
qed

text \<open>Accepting the highest pending vector.\<close>

lemma inta_accept:
  assumes "lapic_inv s" "v \<in> vectors OFS_IRR s" "deliverable v s"
  defines "t \<equiv> (vec_set (OFS_ISR + v) True (vec_set (OFS_IRR + v) False s))\<lparr>l_isrv := of_nat v\<rparr>"
  shows "lapic_inv t" "vectors OFS_IRR t = vectors OFS_IRR s - {v}" "vectors OFS_ISR t = insert v (vectors OFS_ISR s)"
    "unat (l_isrv s) < v" "v \<notin> vectors OFS_ISR s"
proof -
  have v: "v < 256" "16 \<le> v" using assms(1,2) by (auto simp: vectors_def lapic_inv_def)
  have l: "length (l_vector s) = 24" by (rule inv_length [OF assms(1)])
  define a where "a = vec_set (OFS_IRR + v) False s"
  define b where "b = vec_set (OFS_ISR + v) True a"
  have la: "length (l_vector a) = 24" using l by (simp add: a_def vec_set_def lapic_fail_def Let_def)
  have "vectors OFS_IRR a = vectors OFS_IRR s - {v}" "vectors OFS_ISR a = vectors OFS_ISR s"
    using vectors_set [OF l v(1), of OFS_IRR OFS_IRR False] vectors_set [OF l v(1), of OFS_ISR OFS_IRR False]
    by (simp_all add: a_def OFS_ISR_def OFS_IRR_def)
  then have "vectors OFS_IRR b = vectors OFS_IRR s - {v}" "vectors OFS_ISR b = insert v (vectors OFS_ISR s)"
    using vectors_set [OF la v(1), of OFS_IRR OFS_ISR True] vectors_set [OF la v(1), of OFS_ISR OFS_ISR True]
    by (simp_all add: b_def OFS_ISR_def OFS_IRR_def)
  then show vt: "vectors OFS_IRR t = vectors OFS_IRR s - {v}" "vectors OFS_ISR t = insert v (vectors OFS_ISR s)"
    by (simp_all add: t_def a_def [symmetric] b_def [symmetric] vectors_def vec_get_def)
  have w: "w < v" if "w \<in> vectors OFS_ISR s" for w
  proof (rule ccontr)
    assume "\<not> w < v"
    then have "v div 16 \<le> w div 16" by (simp add: div_le_mono)
    then show False using that assms(3) by (auto simp: deliverable_def)
  qed
  then show "v \<notin> vectors OFS_ISR s" by blast
  show "unat (l_isrv s) < v" using isrv_Max [OF assms(1)] v(2) w Max_in [of "vectors OFS_ISR s"] by auto
  have "Max (insert v (vectors OFS_ISR s)) = v" using w by (intro Max_eqI) (auto intro: less_imp_le)
  then have "unat (get_highest_bit OFS_ISR t) = v"
    using get_highest_bit_Max [of OFS_ISR t] vt(2) by (simp add: OFS_ISR_def)
  then have h: "get_highest_bit OFS_ISR t = of_nat v" by auto
  have "l_isrv t = of_nat v" "length (l_vector t) = 24" "length (l_lvtds t) = 6" "length (l_rirr t) = 6" "regs_typed t"
    "l_timer_dcr_shift t = l_timer_dcr_shift s" "l_timer_clock_shift t = l_timer_clock_shift s" "l_fault t = None"
    using assms(1) v(1)
    by (simp_all add: t_def vec_set_word less_mult_imp_div_less OFS_ISR_def OFS_IRR_def lapic_inv_def regs_typed_def)
  moreover have "insert v (vectors OFS_ISR s) \<inter> {..<16} = {}" "(vectors OFS_IRR s - {v}) \<inter> {..<16} = {}"
    using assms(1) v(2) by (auto simp: lapic_inv_def)
  ultimately show "lapic_inv t" using assms(1) h unfolding lapic_inv_def vt by simp
qed

lemma flag_100: "v < 256 \<Longrightarrow> \<not> flag (of_nat v :: u32) 0x100"
proof -
  assume "v < 256"
  then have "\<not> bit (of_nat v :: u32) 8" by (simp add: bit_of_nat_iff bit_iff_odd [of v])
  then show ?thesis using flag_exp [of "of_nat v :: u32" 8] by simp
qed

lemma inta_no_extint:
  assumes "lapic_inv s" "\<not> hw_disabled s" "\<forall>i < NUM_LVT. \<not> extint_pending i s"
  defines "P \<equiv> vectors OFS_IRR s"
  shows "lapic_receive_event LapicInta x s =
    (if P \<noteq> {} \<and> deliverable (Max P) s
     then Inr (True, of_nat (Max P), update_irqs ((vec_set (OFS_ISR + Max P) True
            (vec_set (OFS_IRR + Max P) False s))\<lparr>l_isrv := of_nat (Max P)\<rparr>))
     else Inr (True, l_SVR s AND 0xff, update_irqs s))"
proof (cases "P \<noteq> {} \<and> deliverable (Max P) s")
  case True
  then have m: "Max P \<in> vectors OFS_IRR s" using Max_in [of P] by (simp add: P_def)
  then have v: "Max P < 256" by (rule vectors_less)
  then have u: "unat (of_nat (Max P) :: u32) = Max P" by (simp add: unat_of_nat)
  have "unat (l_isrv s) < Max P" using inta_accept(4) [OF assms(1) m] True by simp
  then have "l_isrv s < of_nat (Max P)" "(of_nat (Max P) :: u32) \<noteq> 0" using u by (auto simp: word_less_nat_alt)
  moreover have "prioritize_irq_lapic s = of_nat (Max P)"
    using prioritize_spec [OF assms(1,3)] True unfolding P_def by simp
  ultimately show ?thesis unfolding if_P [OF True] lapic_receive_event_def Let_def
    using assms(2) flag_100 [OF v] by (simp only: u) simp
next
  case False
  then have "prioritize_irq_lapic s = 0" using prioritize_spec [OF assms(1,3)] unfolding P_def by auto
  then show ?thesis unfolding if_not_P [OF False] lapic_receive_event_def Let_def using assms(2) by (simp add: flag_def)
qed

section \<open>Reachable states\<close>

lemma receive_mem_ok:
  assumes "lapic_inv s"
  shows "\<exists>r t. lapic_receive_mem reply now rd phys v s = Inr (r, t) \<and> lapic_inv t"
proof -
  define offset :: u32 where "offset = ucast (drop_bit 4 phys AND 0x3f)"
  obtain b w t where r: "register_read now offset v s = (b, w, t)" by (cases "register_read now offset v s")
  then have t: "lapic_inv t" using inv_keeps [OF assms register_read_keeps [OF inv_length [OF assms] inv_shift [OF assms]], of now offset v] by simp
  obtain c u where u: "register_write reply now offset v False s = Inr (c, u)" "lapic_inv u"
    using register_write_inv [OF assms] by blast
  have e: "lapic_receive_mem reply now rd phys v s =
     (if (l_msr s AND 0xc00 \<noteq> 0x800 \<or> \<not> bus_in_range phys (l_msr s AND NOT 0xfff) 0x1000)
        \<or> (phys AND 0xf \<noteq> 0 \<or> phys AND 0xfff \<ge> 0x400) then Inr (None, s)
      else if rd then Inr (Some w, t) else Inr (Some v, u))"
    unfolding lapic_receive_mem_def Let_def offset_def [symmetric] r u(1) bindR_simps prod.case by simp
  show ?thesis unfolding e using assms t u(2) by simp
qed

lemma receive_event_ok:
  assumes "lapic_inv s"
  shows "\<exists>b w t. lapic_receive_event ty v s = Inr (b, w, t) \<and> lapic_inv t"
proof (cases "\<not> hw_disabled s \<and> ty = LapicInta")
  case True
  show ?thesis
  proof (cases "\<forall>i < NUM_LVT. \<not> extint_pending i s")
    case no: True
    have irq: "lapic_inv (update_irqs u)" if "lapic_inv u" for u
      by (rule inv_keeps [OF that]) (simp add: keeps_update_irqs)
    have "lapic_inv ((vec_set (OFS_ISR + Max (vectors OFS_IRR s)) True
            (vec_set (OFS_IRR + Max (vectors OFS_IRR s)) False s))\<lparr>l_isrv := of_nat (Max (vectors OFS_IRR s))\<rparr>)"
      if "vectors OFS_IRR s \<noteq> {}" "deliverable (Max (vectors OFS_IRR s)) s"
      using inta_accept(1) [OF assms Max_in [OF vectors_finite that(1)] that(2)] .
    then show ?thesis using True inta_no_extint [OF assms _ no, of v] irq assms by auto
  next
    case False
    then obtain i where i: "find (\<lambda>i. extint_pending i s) [0..<NUM_LVT] = Some i"
      by (cases "find (\<lambda>i. extint_pending i s) [0..<NUM_LVT]") (auto simp: find_None_iff)
    then have "i < 6" by (auto simp: find_Some_iff NUM_LVT_def)
    have "flag (0x100 OR of_nat i :: u32) 0x100"
      using flag_exp [of "0x100 OR of_nat i :: u32" 8] by (simp add: bit_or_iff)
    then have "flag (prioritize_irq_lapic s) 0x100" by (simp add: prioritize_irq_lapic_def i)
    moreover have "unat (prioritize_irq_lapic s AND 0xff) < NUM_LVT"
    proof -
      have "i \<in> {0, 1, 2, 3, 4, 5}" using \<open>i < 6\<close> by auto
      then show ?thesis unfolding prioritize_irq_lapic_def i option.case by (auto simp: NUM_LVT_def)
    qed
    ultimately have "lapic_receive_event ty v s = Inr (False, v, s\<lparr>l_lvtds := (l_lvtds s)[unat (prioritize_irq_lapic s AND 0xff) := False]\<rparr>)"
      using True by (simp add: lapic_receive_event_def check_that_def Let_def)
    moreover have "lapic_inv (s\<lparr>l_lvtds := (l_lvtds s)[unat (prioritize_irq_lapic s AND 0xff) := False]\<rparr>)"
      by (rule inv_keeps [OF assms]) (simp add: keeps_fields)
    ultimately show ?thesis by blast
  qed
next
  case False
  have "unat (l_timer_clock_shift s) \<le> 5" "l_fault s = None" using assms by (simp_all add: lapic_inv_def)
  then have "lapic_inv (lapic_reset s)" "lapic_inv (lapic_init s)" by (rule lapic_reset_inv, rule lapic_init_inv(1))
  moreover have "lapic_receive_event ty v s = Inr (True, v,
      if ty = LapicReset then lapic_reset s else if ty = LapicInit then lapic_init s else s)"
    using False by (auto simp: lapic_receive_event_def)
  ultimately show ?thesis using assms by auto
qed

lemma receive_apic_inv:
  assumes "lapic_inv s" "lapic_receive_apic icr dst own s = Inr (b, t)"
  shows "lapic_inv t"
proof -
  have "lapic_inv (accept_vector vec level v s)" for vec level v
    by (rule inv_keeps [OF assms(1) interrupt_keeps(3) [OF inv_length [OF assms(1)]]])
  moreover have "lapic_inv (send_out m s)" for m by (rule inv_keeps [OF assms(1)]) (simp add: keeps_send_out)
  ultimately show ?thesis using assms by (auto simp: lapic_receive_apic_def Let_def split: if_splits)
qed

lemma receive_legacy_inv:
  assumes "lapic_inv s"
  shows "lapic_inv (snd (lapic_receive_legacy lt s))"
proof -
  define a where "a = s\<lparr>l_lvtds := (l_lvtds s)[LVT_LINT0 := True]\<rparr>"
  define b where "b = s\<lparr>l_lvtds := (l_lvtds s)[LVT_LINT0 := False]\<rparr>"
  have ab: "lapic_inv a" "lapic_inv b" unfolding a_def b_def by (rule inv_keeps [OF assms]; simp add: keeps_fields)+
  have t: "lapic_inv (trigger_lvt LVT_LINT0 u)" "lapic_inv (trigger_lvt LVT_LINT1 u)" if "lapic_inv u" for u
    by (rule inv_keeps [OF that interrupt_keeps(2) [OF inv_length [OF that]]]; simp add: LVT_LINT0_def LVT_LINT1_def NUM_LVT_def)+
  have "lapic_inv (update_irqs b)" by (rule inv_keeps [OF ab(2)]) (simp add: keeps_update_irqs)
  then show ?thesis
    unfolding lapic_receive_legacy_def Let_def a_def [symmetric] b_def [symmetric] using assms t ab(1) by simp
qed

lemma wrmsr_ok:
  assumes "lapic_inv s"
  shows "\<exists>b t. lapic_wrmsr reply now ecx eax edx s = Inr (b, t) \<and> lapic_inv t"
proof -
  define a where "a = (if ecx = 0x830 then s\<lparr>l_ICR1 := edx\<rparr> else s)"
  have a: "lapic_inv a" using assms inv_keeps [OF assms keeps_fields(9) [OF keeps_refl]] by (simp add: a_def)
  obtain res t where w: "register_write reply now (ecx AND 0x3f) eax True a = Inr (res, t)" "lapic_inv t"
    using register_write_inv [OF a] by blast
  have i: "lapic_inv (t\<lparr>l_ICR1 := l_ICR1 s\<rparr>)" by (rule inv_keeps [OF w(2)]) (simp add: keeps_fields)
  have m: "lapic_inv (snd (set_base_msr v s))" for v by (rule set_base_msr_inv [OF assms])
  have p: "lapic_inv (snd (send_ipi reply icr dst s))" for icr dst by (rule inv_keeps [OF assms send_ipi_keeps [OF inv_length [OF assms]]])
  have bad: "\<exists>b t. Inr x = Inr (b, t) \<and> lapic_inv t" if "lapic_inv (snd x)" for x :: "bool \<times> lapic"
    using that by (cases x) auto
  show ?thesis unfolding lapic_wrmsr_def Let_def a_def [symmetric] w(1) bindR_simps prod.case
    using bad [OF m] bad [OF p] assms w(2) i by auto
qed

lemma lapic_new_inv: "unat freq < 2 ^ 32 \<Longrightarrow> lapic_inv (lapic_new freq apic_id timer)"
  unfolding lapic_new_def by (rule lapic_reset_inv) (simp_all add: clock_shift_le)

lemma lapic_reach_inv: "lapic_reach s \<Longrightarrow> lapic_inv s"
proof (induction rule: lapic_reach.induct)
  case (lapic_reach_new freq apic_id timer)
  then show ?case by (rule lapic_new_inv)
next
  case (lapic_reach_mem s reply now rd phys v r t)
  then show ?case using receive_mem_ok [of s reply now rd phys v] by auto
next
  case (lapic_reach_timeout s now nr b t)
  then show ?case using inv_keeps [OF _ get_ccr_keeps [OF inv_length inv_shift]]
    by (auto simp: lapic_receive_timeout_def split: if_splits)
next
  case (lapic_reach_apic s icr dst own b t)
  then show ?case using receive_apic_inv by blast
next
  case (lapic_reach_event s ty v b w t)
  then show ?case using receive_event_ok [of s ty v] by auto
next
  case (lapic_reach_rdmsr s now ecx eax x t)
  have "lapic_inv (snd (snd (register_read now (ecx AND 0x3f) eax s)))"
    by (rule inv_keeps [OF lapic_reach_rdmsr(3) register_read_keeps [OF inv_length [OF lapic_reach_rdmsr(3)] inv_shift [OF lapic_reach_rdmsr(3)]]])
  then show ?case using lapic_reach_rdmsr(2,3) by (auto simp: lapic_rdmsr_def split: if_splits prod.splits)
next
  case (lapic_reach_wrmsr s reply now ecx eax edx b t)
  then show ?case using wrmsr_ok [of s reply now ecx eax edx] by auto
next
  case (lapic_reach_legacy s lt b t)
  then show ?case using receive_legacy_inv [of s lt] by simp
next
  case (lapic_reach_sent s)
  then show ?case using inv_keeps [OF _ keeps_fields(1) [OF keeps_refl]] by blast
qed

section \<open>Properties\<close>

text \<open>Claim C20. The local APIC never fails: in a reachable state every memory access, event of the CPU, \<^verbatim>\<open>RDMSR\<close>,
  \<^verbatim>\<open>WRMSR\<close>, timeout and legacy interrupt is handled without a failed assertion, without an access out of the bounds of the bit
  vectors and of the tables of the local entries and without a shift that is too wide, and a message of the APIC bus
  fails exactly when it is accepted and has a reserved bit or a delivery mode the sender has to resolve.\<close>

theorem lapic_never_fails:
  assumes "lapic_reach s"
  shows "l_fault s = None
    \<and> (\<exists>r t. lapic_receive_mem reply now rd phys v s = Inr (r, t) \<and> l_fault t = None)
    \<and> (\<exists>b w t. lapic_receive_event ty x s = Inr (b, w, t) \<and> l_fault t = None)
    \<and> l_fault (snd (lapic_rdmsr now ecx eax s)) = None
    \<and> (\<exists>b t. lapic_wrmsr reply now ecx eax edx s = Inr (b, t) \<and> l_fault t = None)
    \<and> l_fault (snd (lapic_receive_timeout now nr s)) = None
    \<and> l_fault (snd (lapic_receive_legacy lt s)) = None
    \<and> (case lapic_receive_apic icr dst own s of
         Inl e \<Rightarrow> e = Throw E_ASSERT \<and> accept_message icr dst own s
           \<and> (icr AND NOT 0xcfff \<noteq> 0 \<or> icr_event icr = EVENT_RRD \<or> icr_event icr = EVENT_LOWEST)
       | Inr (b, t) \<Rightarrow> l_fault t = None \<and> b = accept_message icr dst own s
           \<and> (b \<longrightarrow> icr AND NOT 0xcfff = 0 \<and> icr_event icr \<noteq> EVENT_RRD \<and> icr_event icr \<noteq> EVENT_LOWEST))"
proof -
  note inv = lapic_reach_inv [OF assms]
  note reach = assms [THEN lapic_reach_rdmsr] assms [THEN lapic_reach_timeout] assms [THEN lapic_reach_legacy]
  have fault: "l_fault t = None" if "lapic_inv t" for t using that by (simp add: lapic_inv_def)
  have "l_fault (snd (lapic_rdmsr now ecx eax s)) = None"
    using fault [OF lapic_reach_inv [OF reach(1)]] by (cases "lapic_rdmsr now ecx eax s") simp
  moreover have "l_fault (snd (lapic_receive_timeout now nr s)) = None"
    using fault [OF lapic_reach_inv [OF reach(2)]] by (cases "lapic_receive_timeout now nr s") simp
  moreover have "l_fault (snd (lapic_receive_legacy lt s)) = None"
    using fault [OF lapic_reach_inv [OF reach(3)]] by (cases "lapic_receive_legacy lt s") simp
  moreover have "case lapic_receive_apic icr dst own s of
         Inl e \<Rightarrow> e = Throw E_ASSERT \<and> accept_message icr dst own s
           \<and> (icr AND NOT 0xcfff \<noteq> 0 \<or> icr_event icr = EVENT_RRD \<or> icr_event icr = EVENT_LOWEST)
       | Inr (b, t) \<Rightarrow> l_fault t = None \<and> b = accept_message icr dst own s
           \<and> (b \<longrightarrow> icr AND NOT 0xcfff = 0 \<and> icr_event icr \<noteq> EVENT_RRD \<and> icr_event icr \<noteq> EVENT_LOWEST)"
  proof (cases "lapic_receive_apic icr dst own s")
    case (Inl e)
    then show ?thesis by (auto simp: lapic_receive_apic_def Let_def split: if_splits)
  next
    case (Inr p)
    obtain b t where p: "p = (b, t)" by (cases p)
    then have "l_fault t = None" using receive_apic_inv [OF inv] Inr fault by blast
    then show ?thesis using Inr p by (auto simp: lapic_receive_apic_def Let_def split: if_splits)
  qed
  moreover have "\<exists>r t. lapic_receive_mem reply now rd phys v s = Inr (r, t) \<and> l_fault t = None"
    using receive_mem_ok [OF inv, of reply now rd phys v] fault by blast
  moreover have "\<exists>b w t. lapic_receive_event ty x s = Inr (b, w, t) \<and> l_fault t = None"
    using receive_event_ok [OF inv, of ty x] fault by blast
  moreover have "\<exists>b t. lapic_wrmsr reply now ecx eax edx s = Inr (b, t) \<and> l_fault t = None"
    using wrmsr_ok [OF inv, of reply now ecx eax edx] fault by blast
  ultimately show ?thesis using fault [OF inv] by (intro conjI)
qed

theorem lapic_never_fails_witness:
  "(\<exists>b w t. lapic_receive_event LapicInta 0 (lapic_new 2000000000 3 1) = Inr (b, w, t) \<and> l_fault t = None)
    \<and> l_fault (snd (lapic_receive_legacy INTR (lapic_new 2000000000 3 1))) = None"
  using lapic_never_fails [OF lapic_reach_new [of 2000000000 3 1]] by simp

text \<open>Claim C7. Interrupt priorities and nesting of the local APIC: unless a local entry has a pending \<^verbatim>\<open>EXTINT\<close>, and
  with the APIC enabled by hardware, the interrupt acknowledge cycle delivers the highest pending vector if its priority class is above the task
  priority and above every vector in service, moves it from the pending to the in-service
  vectors, and the end of interrupt restores the vectors in service; otherwise the
  spurious vector is delivered and nothing changes.\<close>

theorem lapic_priority:
  assumes "lapic_reach s" "\<not> hw_disabled s" "\<forall>i < NUM_LVT. \<not> extint_pending i s"
  shows "let P = vectors OFS_IRR s; S = vectors OFS_ISR s; v = Max P
    in if P \<noteq> {} \<and> unat (l_TPR s) div 16 < v div 16 \<and> (\<forall>w \<in> S. w div 16 < v div 16)
       then \<exists>t. lapic_receive_event LapicInta x s = Inr (True, of_nat v, t)
          \<and> vectors OFS_IRR t = P - {v} \<and> vectors OFS_ISR t = insert v S
          \<and> (\<exists>u. register_write reply now 0x0b 0 strict t = Inr (True, u) \<and> vectors OFS_ISR u = S \<and> l_isrv u = l_isrv s)
       else \<exists>t. lapic_receive_event LapicInta x s = Inr (True, l_SVR s AND 0xff, t)
          \<and> vectors OFS_IRR t = P \<and> vectors OFS_ISR t = S"
proof -
  define P where "P = vectors OFS_IRR s"
  define S where "S = vectors OFS_ISR s"
  define v where "v = Max P"
  note inv = lapic_reach_inv [OF assms(1)]
  note inta = inta_no_extint [OF inv assms(2,3), of x, folded P_def v_def]
  have irq: "vectors ofs (update_irqs u) = vectors ofs u" "l_isrv (update_irqs u) = l_isrv u" for ofs u
    by (simp_all add: update_irqs_def send_out_def vectors_def vec_get_def)
  have d: "(P \<noteq> {} \<and> unat (l_TPR s) div 16 < v div 16 \<and> (\<forall>w \<in> S. w div 16 < v div 16)) \<longleftrightarrow> P \<noteq> {} \<and> deliverable v s"
    by (simp add: deliverable_def S_def)
  show ?thesis
  proof (cases "P \<noteq> {} \<and> deliverable v s")
    case True
    then have v: "v \<in> vectors OFS_IRR s" using Max_in [of P] by (simp add: v_def P_def)
    define t where "t = (vec_set (OFS_ISR + v) True (vec_set (OFS_IRR + v) False s))\<lparr>l_isrv := of_nat v\<rparr>"
    note t = inta_accept [OF inv v conjunct2 [OF True], folded t_def S_def P_def]
    have it: "lapic_inv (update_irqs t)" by (rule inv_keeps [OF t(1)]) (simp add: keeps_update_irqs)
    have r: "lapic_receive_event LapicInta x s = Inr (True, of_nat v, update_irqs t)"
      using inta unfolding if_P [OF True] t_def .
    obtain u where u: "lapic_eoi now (update_irqs t) = Inr u" "lapic_inv u"
      "vectors OFS_ISR u = vectors OFS_ISR (update_irqs t) - {unat (l_isrv (update_irqs t))}"
      using lapic_eoi_service [OF it] by blast
    have "v < 256" using v by (rule vectors_less)
    then have "unat (l_isrv (update_irqs t)) = v" by (simp add: irq t_def unat_of_nat)
    then have us: "vectors OFS_ISR u = S" using u(3) t(3,5) by (simp add: irq)
    have "l_isrv u = l_isrv s" using u(2) inv highest_cong [of u s] us by (simp add: lapic_inv_def S_def)
    moreover have "register_write reply now 0x0b 0 strict (update_irqs t) = Inr (True, u)"
      using u(1) by (simp add: register_write_def register_write_with_def in_lvt_def LVT_BASE_def NUM_LVT_def bus_in_range_def)
    ultimately have "\<exists>u. register_write reply now 0x0b 0 strict (update_irqs t) = Inr (True, u) \<and> vectors OFS_ISR u = S \<and> l_isrv u = l_isrv s"
      using us by blast
    then show ?thesis unfolding Let_def P_def [symmetric] S_def [symmetric] v_def [symmetric] d
      using True r t(2,3) by (simp add: irq)
  next
    case False
    then have "lapic_receive_event LapicInta x s = Inr (True, l_SVR s AND 0xff, update_irqs s)" using inta by auto
    then show ?thesis unfolding Let_def P_def [symmetric] S_def [symmetric] v_def [symmetric] d
      using False by (auto simp: irq P_def S_def)
  qed
qed

section \<open>A new APIC\<close>

lemma lapic_new_eq:
  "lapic_new freq apic_id timer =
     \<lparr>l_initial_apic_id = apic_id, l_timer = timer, l_timer_clock_shift = clock_shift freq,
      l_timer_dcr_shift = 1 + clock_shift freq,
      l_timer_start = 0, l_msr = 0xfee00800, l_vector = replicate 24 0, l_esr_shadow = 0, l_isrv = 0,
      l_lvtds = replicate 6 False, l_rirr = replicate 6 False, l_lowest_rr = 0,
      l_ID = push_bit 24 apic_id, l_TPR = 0, l_LDR = 0, l_DFR = 0xffffffff, l_SVR = 0xff, l_ESR = 0, l_ICR = 0, l_ICR1 = 0,
      l_TIMER = 0x10000, l_TERM = 0x10000, l_PERF = 0x10000, l_LINT0 = 0x10000, l_LINT1 = 0x10000, l_ERROR = 0x10000,
      l_ICT = 0, l_DCR = 0,
      l_out = [CpuidWrite 1 1 0xffffff (push_bit 24 apic_id), CpuidWrite 11 3 0 apic_id, CpuidWrite 6 0 (NOT 4) 4,
               CpuidWrite 1 3 (NOT 0x200) 0x200, CpuidWrite 1 2 (NOT 0x200000) 0x200000],
      l_fault = None\<rparr>"
proof -
  have l: "(replicate 6 False)[3 := False] = replicate 6 False" by (simp add: numeral_eq_Suc)
  show ?thesis
    by (simp add: lapic_new_def lapic_reset_def lapic_init_def lapic_reset_regs_def set_base_msr_def Let_def update_irqs_def
        hw_disabled_def x2apic_mode_def flag_def send_out_def NUM_LVT_def LVT_LINT0_def APIC_ADDR_def l)
qed

lemma vectors_none: "l_vector s = replicate 24 0 \<Longrightarrow> ofs \<le> 512 \<Longrightarrow> vectors ofs s = {}"
  by (auto simp: vectors_def vec_get_bit less_mult_imp_div_less)

text \<open>An accepted vector is pending afterwards, one that is deasserted is not.\<close>

lemma accept_vector_pending:
  fixes level v :: bool
  assumes "length (l_vector s) = 24" "16 \<le> unat vector"
  defines "t \<equiv> accept_vector vector level v s"
  shows "vectors OFS_IRR t = (if \<not> level \<or> v then insert (unat vector) (vectors OFS_IRR s) else vectors OFS_IRR s - {unat vector})"
    "vectors OFS_TMR t = (if level then insert (unat vector) (vectors OFS_TMR s) else vectors OFS_TMR s - {unat vector})"
    "vectors OFS_ISR t = vectors OFS_ISR s"
    "t = update_irqs (t\<lparr>l_out := l_out s\<rparr>)"
proof -
  have u: "unat vector < 256" using unat_bound [of vector] by simp
  have n: "\<not> vector < 16" using assms(2) by (simp add: word_less_nat_alt)
  define a where "a = vec_set (OFS_IRR + unat vector) (\<not> level \<or> v) s"
  define b where "b = vec_set (OFS_TMR + unat vector) level a"
  have t: "t = update_irqs b" using n by (simp add: t_def accept_vector.simps a_def b_def)
  have la: "length (l_vector a) = 24" using assms(1) by (simp add: a_def vec_set_def lapic_fail_def Let_def)
  have irq: "vectors ofs (update_irqs w) = vectors ofs w" for ofs w
    by (simp add: update_irqs_def send_out_def vectors_def vec_get_def)
  have "vectors OFS_IRR a = (if \<not> level \<or> v then insert (unat vector) (vectors OFS_IRR s) else vectors OFS_IRR s - {unat vector})"
    "vectors OFS_TMR a = vectors OFS_TMR s" "vectors OFS_ISR a = vectors OFS_ISR s"
    using vectors_set [OF assms(1) u, of _ OFS_IRR "\<not> level \<or> v"] by (simp_all add: a_def OFS_ISR_def OFS_IRR_def OFS_TMR_def)
  then show "vectors OFS_IRR t = (if \<not> level \<or> v then insert (unat vector) (vectors OFS_IRR s) else vectors OFS_IRR s - {unat vector})"
    "vectors OFS_TMR t = (if level then insert (unat vector) (vectors OFS_TMR s) else vectors OFS_TMR s - {unat vector})"
    "vectors OFS_ISR t = vectors OFS_ISR s"
    using vectors_set [OF la u, of _ OFS_TMR level] by (simp_all add: t irq b_def OFS_ISR_def OFS_IRR_def OFS_TMR_def)
  have "b\<lparr>l_out := l_out s\<rparr> = b" by (simp add: b_def a_def vec_set_def lapic_fail_def Let_def)
  moreover have "(update_irqs b)\<lparr>l_out := l_out s\<rparr> = b\<lparr>l_out := l_out s\<rparr>" by (simp add: update_irqs_def send_out_def)
  ultimately show "t = update_irqs (t\<lparr>l_out := l_out s\<rparr>)" by (simp add: t)
qed

theorem lapic_priority_witness:
  "\<exists>s t. lapic_reach s \<and> vectors OFS_IRR s = {0x41} \<and> lapic_receive_event LapicInta 0 s = Inr (True, 0x41, t)
    \<and> vectors OFS_IRR t = {} \<and> vectors OFS_ISR t = {0x41}"
proof -
  let ?s = "lapic_new 2000000000 3 1"
  define t where "t = accept_vector 0x41 False False ?s"
  have s: "lapic_reach ?s" by (rule lapic_reach_new) simp
  have "lapic_receive_apic 0x41 3 False ?s = Inr (True, t)"
    by (simp add: t_def lapic_receive_apic_def accept_message_def Let_def lapic_new_eq hw_disabled_def x2apic_mode_def flag_def
        icr_event_def ICR_DM_def EVENT_RRD_def EVENT_LOWEST_def EVENT_FIXED_def ICR_LEVEL_def ICR_ASSERT_def)
  then have t: "lapic_reach t" by (rule lapic_reach_apic [OF s])
  have l: "length (l_vector ?s) = 24" by (simp add: lapic_new_eq)
  have e: "vectors OFS_IRR ?s = {}" "vectors OFS_ISR ?s = {}"
    by (rule vectors_none; simp add: lapic_new_eq OFS_IRR_def OFS_ISR_def)+
  have p: "vectors OFS_IRR t = {0x41}" "vectors OFS_ISR t = {}"
    using accept_vector_pending [OF l, of "0x41" False False] e by (simp_all add: t_def)
  have f: "l_msr t = 0xfee00800" "l_TPR t = 0" "l_lvtds t = replicate 6 False"
    by (simp_all add: t_def accept_vector.simps update_irqs_def send_out_def vec_set_def lapic_fail_def Let_def lapic_new_eq)
  have h: "\<not> hw_disabled t" by (simp add: hw_disabled_def f flag_def)
  have x: "\<forall>i < NUM_LVT. \<not> extint_pending i t" by (simp add: extint_pending_def f NUM_LVT_def)
  obtain u where "lapic_receive_event LapicInta 0 t = Inr (True, 0x41, u)" "vectors OFS_IRR u = {}" "vectors OFS_ISR u = {0x41}"
    using lapic_priority [OF t h x, of 0 "\<lparr>reply_sent = True, reply_next_rr = 0\<rparr>" 0 False] unfolding Let_def p f(2) by auto
  then show ?thesis using t p by blast
qed

section \<open>The timer\<close>

text \<open>While the counter runs, the host timer is programmed for the end of the period, but the remaining time is
  computed in 32 bits: a period of \<^verbatim>\<open>2^32\<close> clock ticks or more is cut.\<close>

lemma timer_program:
  assumes "lapic_inv s" "l_ICT s \<noteq> 0" "l_timer_start s \<noteq> 0" "\<not> flag (l_TIMER s) LVT_MASKED"
    and "delta = drop_bit (unat (l_timer_dcr_shift s)) (now - l_timer_start s)" "delta < ucast (l_ICT s)"
  shows "update_timer now s = Inr (send_out (TimerProgram (l_timer s)
    (now + of_nat ((unat (l_ICT s) - unat delta) * 2 ^ unat (l_timer_dcr_shift s) mod 2 ^ 32))) s)"
proof -
  have d: "unat delta < unat (l_ICT s)" using assms(6) unat_bound [of "l_ICT s"]
    by (simp add: word_less_nat_alt unat_ucast)
  then have dd: "unat (ucast delta :: u32) = unat delta" using unat_bound [of "l_ICT s"] by (simp add: unat_ucast)
  define c where "c = l_ICT s - ucast delta"
  have c: "unat c = unat (l_ICT s) - unat delta"
    using d dd unfolding c_def by (subst unat_diff_small) (simp_all add: word_le_nat_alt)
  then have "c \<noteq> 0" using d by (metis unat_0 zero_less_diff less_numeral_extra(3))
  moreover have "unat (push_bit (unat (l_timer_dcr_shift s)) c) = unat c * 2 ^ unat (l_timer_dcr_shift s) mod 2 ^ 32"
    by (simp only: unsigned_push_bit_eq) (simp add: push_bit_eq_mult take_bit_eq_mod)
  then have "(ucast (push_bit (unat (l_timer_dcr_shift s)) c) :: u64) = of_nat (unat c * 2 ^ unat (l_timer_dcr_shift s) mod 2 ^ 32)"
    by (metis of_nat_unat)
  moreover have "get_ccr now s = (c, s)"
    using assms inv_shift [OF assms(1)] by (simp add: get_ccr_def check_that_def Let_def c_def)
  ultimately show ?thesis using assms(4) inv_shift [OF assms(1)] by (simp add: update_timer_def c)
qed

section \<open>Types of the registers\<close>

text \<open>Claim C29. Register types of the local APIC: in every reachable state each register, except for the identification
  register and the upper half of the command register, which the x2APIC mode sets as a whole, holds bits of its
  write mask only; in the destination format register the bits outside of the mask are ones.\<close>

theorem lapic_well_typed:
  assumes "lapic_reach s" "reg_mask offset = Some m" "offset \<noteq> 0x02" "offset \<noteq> 0x31"
  shows "\<exists>w. lapic_read offset s = Some w \<and> (if offset = 0x0e then NOT w else w) AND NOT m = 0"
proof -
  have inv: "lapic_inv s" by (rule lapic_reach_inv [OF assms(1)])
  then have "regs_typed s" by (simp add: lapic_inv_def)
  moreover have z: "(- 4294967296 :: u32) = 0" by code_simp
  ultimately show ?thesis
    using assms(2-4) by (auto simp: regs_typed_def reg_mask_def lapic_read_def z split: if_split_asm)
qed

theorem lapic_well_typed_witness:
  "\<exists>w. lapic_read 0x35 (lapic_new 2000000000 3 1) = Some w \<and> w AND NOT 0x1b7ff = 0"
  using lapic_well_typed [OF lapic_reach_new [of 2000000000 3 1], of "0x35" "0x1b7ff"] by (simp add: reg_mask_def)

end
