(* ===== verification/Msi.thy ===== *)
theory Msi
  imports IoApic Lapic
begin

text \<open>
  The way of an interrupt from a pin of the I/O APIC to the processors: the device that turns message signalled
  interrupts into messages of the APIC bus (\<^verbatim>\<open>apps/vancouver/model/msi.cc\<close>), the delivery of such a message to all local
  APICs by \<^verbatim>\<open>DBus::send\<close>, and the composition of I/O APIC, MSI device and local APICs.
\<close>

section \<open>Definitions\<close>

definition MSI_ADDRESS :: u64 where "MSI_ADDRESS = 0xfee00000"
definition MSI_DM :: u64 where "MSI_DM = 4"
definition MSI_RH :: u64 where "MSI_RH = 8"

datatype msi_out = MsiSend u32 u32 | MsiSendRR u32 u32

text \<open>The message that is sent on the APIC bus; its reply is the result of the handler. \<^term>\<open>None\<close>: the access is not
  for the device, or it has a delivery mode that is not forwarded.\<close>

definition msi_receive :: "u64 \<Rightarrow> u32 \<Rightarrow> msi_out option" where
  "msi_receive phys v =
     (if \<not> bus_in_range phys MSI_ADDRESS 0x100000 then None
      else let dst = ucast ((drop_bit 12 phys AND 0xff) OR (push_bit 4 phys AND 0xff00));
               icr = v AND 0xc7ff;
               event = icr_event icr
           in if flag event (EVENT_RRD OR EVENT_SIPI) then None
              else let icr = (if flag phys MSI_DM then icr OR ICR_DM else icr)
                   in if flag phys MSI_RH \<or> flag event EVENT_LOWEST then Some (MsiSendRR (icr AND NOT 0x700) dst)
                      else Some (MsiSend icr dst))"

text \<open>All receivers get the message, the last one that was added first. The result tells whether one accepted it.\<close>

fun apic_bus_send :: "u32 \<Rightarrow> u32 \<Rightarrow> lapic list \<Rightarrow> (bool \<times> lapic list) res" where
  "apic_bus_send icr dst [] = Inr (False, [])"
| "apic_bus_send icr dst (s # ls) =
     bindR (apic_bus_send icr dst ls) (\<lambda>(res, ls).
     bindR (lapic_receive_apic icr dst False s) (\<lambda>(b, s). Inr (res \<or> b, s # ls)))"

section \<open>Lemmas\<close>

lemma apic_bus_send_all:
  assumes "\<And>s. s \<in> set ls \<Longrightarrow> lapic_receive_apic icr dst False s = Inr (acc s, f s)"
  shows "apic_bus_send icr dst ls = Inr (list_ex acc ls, map f ls)"
  using assms by (induction ls) auto

text \<open>The destination survives the way through the address of the message.\<close>

lemma msi_phys_fixed:
  fixes v dst :: u32
  assumes "\<not> flag v 0x800" "v AND 0x700 = 0"
  shows "unat (msi_phys dst v) = 0xfee00000 + 16 * (unat dst div 2 ^ 16)"
proof -
  have c: "(0xffff0 :: u32) = push_bit 4 (mask 16)" "(0xfee00000 :: u32) = push_bit 20 0xfee" by code_simp+
  have y: "drop_bit 12 dst AND 0xffff0 = push_bit 4 (drop_bit 16 dst)"
    unfolding c by (rule bit_word_eqI) (auto simp: bit_simps dest: bit_imp_le_length)
  have k: "unat dst div 2 ^ 16 < 2 ^ 16" using unat_bound [of dst] by (simp add: less_mult_imp_div_less)
  have p: "unat (push_bit 4 (drop_bit 16 dst)) = 16 * (unat dst div 2 ^ 16)"
    using k by (subst unat_push_bit_small) (simp_all add: unat_drop_bit mult.commute)
  have "(0xfee00000 :: u32) OR push_bit 4 (drop_bit 16 dst) = 0xfee00000 + push_bit 4 (drop_bit 16 dst)"
  proof (rule disjunctive_add [symmetric])
    fix n
    have "\<not> bit (0xfee00000 :: u32) n" if "n < 20" unfolding c(2) using that by (simp only: bit_push_bit_iff) simp
    moreover have "\<not> bit (push_bit 4 (drop_bit 16 dst)) n" if "20 \<le> n"
      using that by (auto simp: bit_simps dest: bit_imp_le_length)
    ultimately show "\<not> bit (0xfee00000 :: u32) n \<or> \<not> bit (push_bit 4 (drop_bit 16 dst)) n" by (cases "n < 20") auto
  qed
  then have "unat (0xfee00000 OR push_bit 4 (drop_bit 16 dst) :: u32) = 0xfee00000 + 16 * (unat dst div 2 ^ 16)"
    using k p by (simp only:) (subst unat_add_small; simp)
  then show ?thesis using assms k by (simp add: msi_phys_def y unat_ucast)
qed

lemma msi_receive_fixed:
  fixes v dst data :: u32
  assumes "\<not> flag v 0x800" "v AND 0x700 = 0" "data AND 0x700 = 0"
  shows "\<exists>d. msi_receive (msi_phys dst v) data = Some (MsiSend (data AND 0xc7ff) d) \<and> push_bit 24 d = dst AND 0xff000000"
proof -
  define P where "P = msi_phys dst v"
  define k where "k = unat dst div 2 ^ 16"
  have k: "k < 2 ^ 16" using unat_bound [of dst] by (simp add: k_def less_mult_imp_div_less)
  have P: "unat P = 0xfee00000 + 16 * k" using msi_phys_fixed [OF assms(1,2)] by (simp add: P_def k_def)
  have range: "bus_in_range P MSI_ADDRESS 0x100000"
    using P k by (simp add: bus_in_range_def MSI_ADDRESS_def word_le_nat_alt)
  have "unat (P AND mask 4) = 0" using P by (simp add: unat_and_mask)
  then have m: "P AND mask 4 = 0" by (simp only: unsigned_eq_0_iff)
  have "\<not> bit (P AND mask 4) n" for n using m by simp
  from this [of 2] this [of 3] have "\<not> bit P 2" "\<not> bit P 3" by (simp_all add: bit_and_iff bit_mask_iff)
  then have f: "\<not> flag P MSI_DM" "\<not> flag P MSI_RH"
    using flag_exp [of P 2] flag_exp [of P 3] by (simp_all add: MSI_DM_def MSI_RH_def)
  have "drop_bit 8 (data AND 0xc7ff) AND 7 = 0"
  proof -
    have "drop_bit 8 (data AND 0xc7ff) AND 7 = drop_bit 8 (data AND 0x700)"
      by (rule bit_word_eqI) (auto simp: bit_simps numeral_eq_Suc less_Suc_eq)
    then show ?thesis using assms(3) by simp
  qed
  then have e: "icr_event (data AND 0xc7ff) = EVENT_FIXED" by (simp add: icr_event_def EVENT_FIXED_def)
  define d :: u32 where "d = ucast ((drop_bit 12 P AND 0xff) OR (push_bit 4 P AND 0xff00))"
  have "push_bit 24 d = dst AND 0xff000000"
  proof -
    have "unat (push_bit 24 d) = unat (drop_bit 12 P) mod 256 * 2 ^ 24"
    proof -
      have "push_bit 24 d = push_bit 24 (ucast (drop_bit 12 P AND mask 8))"
      proof (rule bit_word_eqI)
        have c: "(0xff :: u64) = mask 8" "(0xff00 :: u64) = push_bit 8 (mask 8)" by code_simp+
        fix n assume "n < LENGTH(32)"
        then show "bit (push_bit 24 d) n = bit (push_bit 24 (ucast (drop_bit 12 P AND mask 8) :: u32)) n"
          unfolding d_def c by (auto simp: bit_simps)
      qed
      moreover have u: "unat (ucast (drop_bit 12 P AND mask 8) :: u32) = unat (drop_bit 12 P) mod 256"
        using unat_and_mask [of "drop_bit 12 P" 8] by (simp add: unat_ucast)
      moreover have "unat (push_bit 24 (ucast (drop_bit 12 P AND mask 8) :: u32)) = unat (drop_bit 12 P) mod 256 * 2 ^ 24"
        unfolding u [symmetric] by (rule unat_push_bit_small) (simp add: u)
      ultimately show ?thesis by simp
    qed
    also have "\<dots> = k div 256 * 2 ^ 24"
    proof -
      have "(0xfee00000 + 16 * k) div 2 ^ 12 = 0xfee00 + k div 256"
        by (rule div_nat_eqI) (use div_mult_mod_eq [of k 256] mod_less_divisor [of 256 k] in simp_all)
      moreover have "k div 256 < 256" using k by (simp add: less_mult_imp_div_less)
      ultimately have "(0xfee00000 + 16 * k) div 2 ^ 12 mod 256 = k div 256" by (simp add: mod_add_eq [symmetric])
      then show ?thesis by (simp add: unat_drop_bit P)
    qed
    also have "\<dots> = unat (dst AND NOT (mask 24))"
      unfolding unat_and_not_mask k_def by (simp add: div_mult2_eq [symmetric] minus_mod_eq_div_mult)
    finally have "push_bit 24 d = dst AND NOT (mask 24)" by (simp only: word_unat_eq_iff)
    also have "NOT (mask 24) = (0xff000000 :: u32)" by code_simp
    finally show ?thesis .
  qed
  moreover have "msi_receive P data = Some (MsiSend (data AND 0xc7ff) d)"
    using range f by (simp add: msi_receive_def Let_def e d_def) (simp add: flag_def EVENT_FIXED_def EVENT_RRD_def EVENT_SIPI_def EVENT_LOWEST_def)
  ultimately show ?thesis unfolding P_def by blast
qed

definition addressed :: "u32 \<Rightarrow> lapic \<Rightarrow> bool" where
  "addressed dst l \<longleftrightarrow> dst AND 0xff000000 = 0xff000000 \<or> l_ID l = dst AND 0xff000000"

section \<open>Composition\<close>

lemma receive_fixed_message:
  fixes data d dst :: u32
  assumes "lapic_inv l" "l_msr l AND 0xc00 = 0x800" "push_bit 24 d = dst AND 0xff000000" "data AND 0x700 = 0"
  defines "icr \<equiv> data AND 0xc7ff"
  shows "lapic_receive_apic icr d False l = Inr (addressed dst l,
    if addressed dst l then accept_vector (ucast icr) (flag icr ICR_LEVEL) (flag icr ICR_ASSERT) l else l)"
proof -
  have "bit (l_msr l AND 0xc00) 11" unfolding assms(2) by code_simp
  then have "bit (l_msr l) 11" by (simp add: bit_and_iff)
  then have h: "\<not> hw_disabled l" using flag_exp [of "NOT (l_msr l)" 11] by (simp add: hw_disabled_def bit_not_iff)
  have x: "\<not> x2apic_mode l" using assms(2) by (simp add: x2apic_mode_def)
  have "\<not> bit icr 11" by (simp add: icr_def bit_and_iff)
  then have dm: "flag (NOT icr) ICR_DM" using flag_exp [of "NOT icr" 11] by (simp add: ICR_DM_def bit_not_iff)
  have acc: "accept_message icr d False l = addressed dst l"
    using h x dm assms(3) by (auto simp: accept_message_def addressed_def Let_def)
  have "drop_bit 8 icr AND 7 = drop_bit 8 (data AND 0x700)"
    unfolding icr_def by (rule bit_word_eqI) (auto simp: bit_simps numeral_eq_Suc less_Suc_eq)
  then have e: "icr_event icr = EVENT_FIXED" using assms(4) by (simp add: icr_event_def EVENT_FIXED_def)
  have "(0xc7ff :: u32) AND NOT 0xcfff = 0" by code_simp
  then have r: "icr AND NOT 0xcfff = 0" unfolding icr_def by (simp only: and.assoc and_zero_eq)
  show ?thesis unfolding lapic_receive_apic_def acc Let_def e r
    by (simp add: EVENT_FIXED_def EVENT_RRD_def EVENT_LOWEST_def)
qed

text \<open>Claim C2. An interrupt reaches the processors: asserting an unmasked pin of the I/O APIC that is programmed for fixed delivery to a
  physical destination sends a message signalled interrupt, the MSI device forwards it, and on the APIC bus exactly the addressed
  local APICs, or all of them for a broadcast, have the vector pending afterwards, with the trigger mode of the
  pin; the others are unchanged.\<close>

theorem pin_reaches_cpus:
  fixes v dst :: u32
  assumes "ioapic_reach s" "pin < 24" "ty \<noteq> DEASSERT_IRQ" "\<not> rirr s ! pin"
    and "v = redir s ! (2 * pin)" "dst = redir s ! (2 * pin + 1)"
    and "\<not> flag v 0x10000" "\<not> flag v 0x800" "v AND 0x700 = 0" "vec = unat (v AND 0xff)" "16 \<le> vec"
    and "\<forall>l \<in> set ls. lapic_reach l \<and> l_msr l AND 0xc00 = 0x800"
  shows "\<exists>s' phys data rest icr d ls'.
    pin_assert (of_nat pin) ty s = (True, s', IoMem phys data # rest)
    \<and> msi_receive phys data = Some (MsiSend icr d)
    \<and> apic_bus_send icr d ls = Inr (list_ex (addressed dst) ls, ls')
    \<and> list_all2 (\<lambda>l l'. if addressed dst l
         then vectors OFS_IRR l' = insert vec (vectors OFS_IRR l) \<and> vectors OFS_ISR l' = vectors OFS_ISR l
            \<and> (vec \<in> vectors OFS_TMR l' \<longleftrightarrow> flag v 0x8000)
         else l' = l) ls ls'"
proof -
  define data where "data = (if flag v 0x8000 then v OR 0x4000 else v)"
  have c: "(0x4000 :: u32) AND 0x700 = 0" by code_simp
  have data: "data AND 0x700 = 0" using assms(9) c by (simp add: data_def bit.conj_disj_distrib2)
  define icr where "icr = data AND 0xc7ff"
  have p: "unat (of_nat pin :: u32) = pin" using assms(2) by (simp add: unat_of_nat)
  have "\<exists>s' rest. pin_assert (of_nat pin) ty s = (True, s', IoMem (msi_phys dst v) data # rest)"
    using assms(2-7) by (cases "flag v 0x8000") (simp_all add: pin_assert_def p PINS_def Let_def data_def split: prod.split)
  then obtain s' rest where pa: "pin_assert (of_nat pin) ty s = (True, s', IoMem (msi_phys dst v) data # rest)" by blast
  obtain d where d: "msi_receive (msi_phys dst v) data = Some (MsiSend icr d)" "push_bit 24 d = dst AND 0xff000000"
    using msi_receive_fixed [OF assms(8,9) data] unfolding icr_def by blast
  define f where "f = (\<lambda>l. if addressed dst l then accept_vector (ucast icr) (flag icr ICR_LEVEL) (flag icr ICR_ASSERT) l else l)"
  have "lapic_receive_apic icr d False l = Inr (addressed dst l, f l)" if "l \<in> set ls" for l
    using receive_fixed_message [OF lapic_reach_inv _ d(2) data, of l] assms(12) that by (simp add: icr_def f_def)
  then have send: "apic_bus_send icr d ls = Inr (list_ex (addressed dst) ls, map f ls)" by (rule apic_bus_send_all)
  have b: "bit data n \<longleftrightarrow> bit v n \<or> n = 14 \<and> flag v 0x8000" for n
  proof -
    have e: "(0x4000 :: u32) = 2 ^ 14" by simp
    have "bit (0x4000 :: u32) n \<longleftrightarrow> n = 14" unfolding e bit_exp_iff by auto
    then show ?thesis by (simp add: data_def bit_or_iff)
  qed
  have lv: "flag icr ICR_LEVEL \<longleftrightarrow> flag v 0x8000"
    using flag_exp [of icr 15] flag_exp [of v 15] by (simp add: ICR_LEVEL_def icr_def bit_and_iff b)
  have as: "flag icr ICR_ASSERT" if "flag v 0x8000"
    using flag_exp [of icr 14] that by (simp add: ICR_ASSERT_def icr_def bit_and_iff b)
  have "(ucast icr :: u8) = ucast (v AND 0xff)"
    by (rule bit_word_eqI) (auto simp: icr_def b bit_simps numeral_eq_Suc less_Suc_eq)
  moreover have "unat (v AND 0xff) < 256" using unat_and_mask [of v 8] by (simp add: mask_eq_exp_minus_1)
  ultimately have vec: "unat (ucast icr :: u8) = vec" using assms(10) by (simp add: unat_ucast)
  have "list_all2 (\<lambda>l l'. if addressed dst l
         then vectors OFS_IRR l' = insert vec (vectors OFS_IRR l) \<and> vectors OFS_ISR l' = vectors OFS_ISR l
            \<and> (vec \<in> vectors OFS_TMR l' \<longleftrightarrow> flag v 0x8000)
         else l' = l) ls (map f ls)"
    unfolding list_all2_map2
  proof (rule list.rel_refl_strong)
    fix l assume "l \<in> set ls"
    then have "length (l_vector l) = 24" using assms(12) inv_length [OF lapic_reach_inv] by blast
    note a = accept_vector_pending [OF this, of "ucast icr" "flag icr ICR_LEVEL" "flag icr ICR_ASSERT", unfolded vec]
    show "if addressed dst l
         then vectors OFS_IRR (f l) = insert vec (vectors OFS_IRR l) \<and> vectors OFS_ISR (f l) = vectors OFS_ISR l
            \<and> (vec \<in> vectors OFS_TMR (f l) \<longleftrightarrow> flag v 0x8000)
         else f l = l"
      using a [OF assms(11)] lv as by (auto simp: f_def)
  qed
  then show ?thesis using pa d(1) send by blast
qed

lemma io_reach_step:
  assumes "ioapic_reach s" "\<not> isl (ioapic_receive_mem rd phys v s)"
  shows "ioapic_reach (fst (snd (projr (ioapic_receive_mem rd phys v s))))"
proof -
  obtain r s' ms where "ioapic_receive_mem rd phys v s = Inr (r, s', ms)"
    using assms(2) by (cases "ioapic_receive_mem rd phys v s") auto
  then show ?thesis using io_reach_mem [OF assms(1)] by simp
qed

theorem pin_reaches_cpus_witness:
  "\<exists>phys data icr d ls'. msi_receive phys data = Some (MsiSend icr d)
    \<and> apic_bus_send icr d [lapic_new 2000000000 3 1, lapic_new 2000000000 4 2] = Inr (True, ls')
    \<and> vectors OFS_IRR (ls' ! 0) = {0x41} \<and> ls' ! 1 = lapic_new 2000000000 4 2"
proof -
  define wr where "wr = (\<lambda>phys v s. fst (snd (projr (ioapic_receive_mem False phys v s))))"
  let ?s0 = "ioapic_init 0xfec00000 0"
  let ?s1 = "wr 0xfec00000 0x14 ?s0"
  let ?s2 = "wr 0xfec00010 0x41 ?s1"
  let ?s3 = "wr 0xfec00000 0x15 ?s2"
  let ?s4 = "wr 0xfec00010 0x03000000 ?s3"
  have r0: "ioapic_reach ?s0" by (rule io_reach_init)
  have r1: "ioapic_reach ?s1" unfolding wr_def by (rule io_reach_step [OF r0]) code_simp
  have r2: "ioapic_reach ?s2" unfolding wr_def by (rule io_reach_step [OF r1 [unfolded wr_def]]) code_simp
  have r3: "ioapic_reach ?s3" unfolding wr_def by (rule io_reach_step [OF r2 [unfolded wr_def]]) code_simp
  have r4: "ioapic_reach ?s4" unfolding wr_def by (rule io_reach_step [OF r3 [unfolded wr_def]]) code_simp
  have f: "0x41 = redir ?s4 ! (2 * 2)" "0x03000000 = redir ?s4 ! (2 * 2 + 1)" "\<not> rirr ?s4 ! 2"
    unfolding wr_def by code_simp+
  let ?ls = "[lapic_new 2000000000 3 1, lapic_new 2000000000 4 2]"
  have ls: "\<forall>l \<in> set ?ls. lapic_reach l \<and> l_msr l AND 0xc00 = 0x800"
  proof -
    have "lapic_reach (lapic_new 2000000000 i t)" for i t by (rule lapic_reach_new) simp
    moreover have "l_msr (lapic_new 2000000000 i t) AND 0xc00 = 0x800" for i t by (simp add: lapic_new_eq)
    ultimately show ?thesis by simp
  qed
  have a: "addressed 0x03000000 (lapic_new 2000000000 3 1)" "\<not> addressed 0x03000000 (lapic_new 2000000000 4 2)"
    by (simp_all add: addressed_def lapic_new_eq)
  have e: "vectors OFS_IRR (lapic_new 2000000000 3 1) = {}"
    by (rule vectors_none) (simp_all add: lapic_new_eq OFS_IRR_def)
  have v: "\<not> flag (0x41 :: u32) 0x10000" "\<not> flag (0x41 :: u32) 0x800" "(0x41 :: u32) AND 0x700 = 0"
    "0x41 = unat ((0x41 :: u32) AND 0xff)" by (simp_all add: flag_def)
  have n: "(2 :: nat) < 24" "ASSERT_IRQ \<noteq> DEASSERT_IRQ" "(16 :: nat) \<le> 0x41" by simp_all
  obtain phys data icr d ls' where r: "msi_receive phys data = Some (MsiSend icr d)"
      "apic_bus_send icr d ?ls = Inr (list_ex (addressed 0x03000000) ?ls, ls')"
    and l: "list_all2 (\<lambda>l l'. if addressed 0x03000000 l
         then vectors OFS_IRR l' = insert 0x41 (vectors OFS_IRR l) \<and> vectors OFS_ISR l' = vectors OFS_ISR l
            \<and> (0x41 \<in> vectors OFS_TMR l' \<longleftrightarrow> flag (0x41 :: u32) 0x8000)
         else l' = l) ?ls ls'"
    using pin_reaches_cpus [OF r4 n(1,2) f(3,1,2) v n(3) ls] by blast
  have "vectors OFS_IRR (ls' ! 0) = {0x41}" "ls' ! 1 = lapic_new 2000000000 4 2"
    using l a e by (auto simp: list_all2_Cons1)
  moreover have "list_ex (addressed 0x03000000) ?ls" using a by simp
  ultimately show ?thesis using r by metis
qed

end
