(* ===== verification/ShmRing.thy ===== *)
theory ShmRing
  imports QueueContract MathUtil
begin

text \<open>
  The ring buffer in shared memory by which a producer hands items to a consumer (\<^verbatim>\<open>include/ipc/Producer.h\<close>,
  \<^verbatim>\<open>include/ipc/Consumer.h\<close>). First the operations of both parties as atomic steps, which implement the
  contract of bounded queues; then their interleaving in steps that write at most one shared location:
  the store into a slot, the move of a position, the semaphore and the stop flag. The comparison of the two positions is one
  step with the store that it guards or with the branch that it selects; the party that compares owns one of the positions,
  and the other only moves away from the bound that is tested. \<^verbatim>\<open>Sm::zero\<close> waits until the counter is positive and sets it to zero; the paths for a
  semaphore whose capability was revoked are left out.
\<close>

section \<open>Definitions\<close>

record 'a ring =
  rpos :: u64
  wpos :: u64
  slots :: "'a list"
  rb_max :: u64

text \<open>The number of slots for a dataspace and an item size; the interface has two words in front of the slots.\<close>

definition ring_max :: "u64 \<Rightarrow> u64 \<Rightarrow> u64 res" where
  "ring_max ds_size item_size =
     (if item_size = 0 then Inl Undefined else prev_pow2 ((ds_size - 16) div item_size))"

definition ring_reset :: "'a ring \<Rightarrow> 'a ring" where
  "ring_reset r = r\<lparr>rpos := 0, wpos := 0\<rparr>"

definition ring_step :: "u64 \<Rightarrow> 'a ring \<Rightarrow> u64" where
  "ring_step p r = (p + 1) AND (rb_max r - 1)"

text \<open>\<^verbatim>\<open>Producer::current\<close>: the slot to write to, \<^term>\<open>None\<close> if the ring is full.\<close>

definition prod_current :: "'a ring \<Rightarrow> u64 option" where
  "prod_current r = (if ring_step (wpos r) r = rpos r then None else Some (wpos r))"

definition prod_store :: "u64 \<Rightarrow> 'a \<Rightarrow> 'a ring \<Rightarrow> 'a ring res" where
  "prod_store slot x r =
     (if unat slot < length (slots r) then Inr (r\<lparr>slots := (slots r)[unat slot := x]\<rparr>) else Inl Undefined)"

definition prod_next :: "'a ring \<Rightarrow> 'a ring" where
  "prod_next r = r\<lparr>wpos := ring_step (wpos r) r\<rparr>"

definition produce :: "'a \<Rightarrow> 'a ring \<Rightarrow> (bool \<times> 'a ring) res" where
  "produce x r =
     (case prod_current r of None \<Rightarrow> Inr (False, r)
      | Some slot \<Rightarrow> bindR (prod_store slot x r) (\<lambda>r. Inr (True, prod_next r)))"

definition has_data :: "'a ring \<Rightarrow> bool" where
  "has_data r \<longleftrightarrow> rpos r \<noteq> wpos r"

definition cons_read :: "'a ring \<Rightarrow> 'a res" where
  "cons_read r = (if unat (rpos r) < length (slots r) then Inr (slots r ! unat (rpos r)) else Inl Undefined)"

definition cons_next :: "'a ring \<Rightarrow> 'a ring" where
  "cons_next r = r\<lparr>rpos := ring_step (rpos r) r\<rparr>"

subsection \<open>Interleaving\<close>

text \<open>Where the two threads are. The producer is between calls, has stored an item, or has advanced the position
  but not yet signalled. The consumer is between calls, at the head of the loop of \<^verbatim>\<open>get\<close>, has seen an empty
  ring, waits on the semaphore, or works on an item that it has not yet released. A third thread may call
  \<^verbatim>\<open>stop\<close>, which sets \<^verbatim>\<open>_stop\<close> and then signals; \<^verbatim>\<open>sh_stopping\<close> holds in between.\<close>

datatype prod_pc = PIdle | PStored | PMoved
datatype cons_pc = CIdle | CLoop | CEmpty | CWait | CItem

record 'a shm =
  sh_ring :: "'a ring"
  sh_sem :: nat
  sh_stop :: bool
  sh_stopping :: bool
  sh_prod :: prod_pc
  sh_cons :: cons_pc

text \<open>Labels: the item that enters or leaves the ring.\<close>

datatype 'a shm_label = Enters 'a | Leaves 'a | Internal

inductive shm_step :: "'a shm \<Rightarrow> 'a shm_label \<Rightarrow> 'a shm \<Rightarrow> bool" where
  produce_store: "sh_prod s = PIdle \<Longrightarrow> prod_current (sh_ring s) = Some slot \<Longrightarrow>
      prod_store slot x (sh_ring s) = Inr r \<Longrightarrow>
      shm_step s Internal (s\<lparr>sh_ring := r, sh_prod := PStored\<rparr>)"
| produce_move: "sh_prod s = PStored \<Longrightarrow> unat (wpos (sh_ring s)) < length (slots (sh_ring s)) \<Longrightarrow>
      shm_step s (Enters (slots (sh_ring s) ! unat (wpos (sh_ring s))))
        (s\<lparr>sh_ring := prod_next (sh_ring s), sh_prod := PMoved\<rparr>)"
| produce_signal: "sh_prod s = PMoved \<Longrightarrow> shm_step s Internal (s\<lparr>sh_sem := Suc (sh_sem s), sh_prod := PIdle\<rparr>)"
| stop_set: "\<not> sh_stopping s \<Longrightarrow> shm_step s Internal (s\<lparr>sh_stop := True, sh_stopping := True\<rparr>)"
| stop_signal: "sh_stopping s \<Longrightarrow> shm_step s Internal (s\<lparr>sh_sem := Suc (sh_sem s), sh_stopping := False\<rparr>)"
| get_call: "sh_cons s = CIdle \<Longrightarrow> shm_step s Internal (s\<lparr>sh_cons := CLoop\<rparr>)"
| get_check: "sh_cons s = CLoop \<Longrightarrow>
      shm_step s Internal (s\<lparr>sh_cons := (if has_data (sh_ring s) then CItem else CEmpty)\<rparr>)"
| get_stopped: "sh_cons s = CEmpty \<Longrightarrow>
      shm_step s Internal (s\<lparr>sh_cons := (if sh_stop s then CIdle else CWait)\<rparr>)"
| get_woken: "sh_cons s = CWait \<Longrightarrow> 0 < sh_sem s \<Longrightarrow> shm_step s Internal (s\<lparr>sh_sem := 0, sh_cons := CLoop\<rparr>)"
| release_item: "sh_cons s = CItem \<Longrightarrow> cons_read (sh_ring s) = Inr x \<Longrightarrow>
      shm_step s (Leaves x) (s\<lparr>sh_ring := cons_next (sh_ring s), sh_cons := CIdle\<rparr>)"

text \<open>Runs with the items that entered and left.\<close>

inductive shm_run :: "'a shm \<Rightarrow> 'a list \<Rightarrow> 'a list \<Rightarrow> 'a shm \<Rightarrow> bool" for s where
  run_start: "shm_run s [] [] s"
| run_enter: "shm_run s ins outs t \<Longrightarrow> shm_step t (Enters x) u \<Longrightarrow> shm_run s (ins @ [x]) outs u"
| run_leave: "shm_run s ins outs t \<Longrightarrow> shm_step t (Leaves x) u \<Longrightarrow> shm_run s ins (outs @ [x]) u"
| run_internal: "shm_run s ins outs t \<Longrightarrow> shm_step t Internal u \<Longrightarrow> shm_run s ins outs u"

definition shm_start :: "'a ring \<Rightarrow> 'a shm" where
  "shm_start r = \<lparr>sh_ring = ring_reset r, sh_sem = 0, sh_stop = False, sh_stopping = False, sh_prod = PIdle, sh_cons = CIdle\<rparr>"

subsection \<open>Specification\<close>

text \<open>A ring of \<^term>\<open>2 ^ k\<close> slots, and its content.\<close>

definition ring_wf :: "nat \<Rightarrow> 'a ring \<Rightarrow> bool" where
  "ring_wf k r \<longleftrightarrow> k < 64 \<and> rb_max r = 2 ^ k \<and> 2 ^ k \<le> length (slots r) \<and> unat (rpos r) < 2 ^ k \<and> unat (wpos r) < 2 ^ k"

definition ring_count :: "nat \<Rightarrow> 'a ring \<Rightarrow> nat" where
  "ring_count k r = (unat (wpos r) + 2 ^ k - unat (rpos r)) mod 2 ^ k"

definition ring_queue :: "nat \<Rightarrow> 'a ring \<Rightarrow> 'a list" where
  "ring_queue k r = ring_abs (2 ^ k) (take (2 ^ k) (slots r)) (unat (wpos r)) (ring_count k r)"

definition ring_push :: "'a ring \<Rightarrow> 'a \<Rightarrow> 'a ring" where
  "ring_push r x = (case produce x r of Inr (_, r') \<Rightarrow> r' | Inl _ \<Rightarrow> r)"

definition ring_pop :: "'a ring \<Rightarrow> 'a \<times> 'a ring" where
  "ring_pop r = (case cons_read r of Inr x \<Rightarrow> (x, cons_next r) | Inl _ \<Rightarrow> (slots r ! 0, r))"

definition shm_inv :: "nat \<Rightarrow> 'a shm \<Rightarrow> bool" where
  "shm_inv k s \<longleftrightarrow> ring_wf k (sh_ring s)
     \<and> (sh_prod s = PStored \<longrightarrow> prod_current (sh_ring s) \<noteq> None)
     \<and> (sh_cons s = CItem \<longrightarrow> has_data (sh_ring s))
     \<and> (sh_cons s \<in> {CEmpty, CWait} \<longrightarrow> has_data (sh_ring s) \<longrightarrow> 0 < sh_sem s \<or> sh_prod s = PMoved)
     \<and> (sh_cons s = CWait \<longrightarrow> sh_stop s \<longrightarrow> 0 < sh_sem s \<or> sh_stopping s)"

fun label_effect :: "'a shm_label \<Rightarrow> 'a list \<Rightarrow> 'a list \<Rightarrow> bool" where
  "label_effect (Enters x) q q' \<longleftrightarrow> q' = q @ [x]"
| "label_effect (Leaves x) q q' \<longleftrightarrow> q = x # q'"
| "label_effect Internal q q' \<longleftrightarrow> q' = q"

definition small_ring :: "u8 ring" where
  "small_ring = \<lparr>rpos = 0, wpos = 0, slots = [0, 0, 0, 0], rb_max = 4\<rparr>"

definition full_slot_ring :: "u8 ring" where
  "full_slot_ring = \<lparr>rpos = 0, wpos = 1, slots = [7, 0, 0, 0], rb_max = 4\<rparr>"

section \<open>The operations on the content\<close>

lemma ring_step_unat:
  assumes "ring_wf k r" "unat p < 2 ^ k"
  shows "unat (ring_step p r) = Suc (unat p) mod 2 ^ k"
proof -
  have k: "k < 64" "rb_max r - 1 = mask k" using assms(1) by (simp_all add: ring_wf_def mask_eq_exp_minus_1)
  have "unat (ring_step p r) = unat (p + 1) mod 2 ^ k" by (simp only: ring_step_def k(2) unat_and_mask)
  moreover have "(2 :: nat) ^ k dvd 2 ^ 64" using k(1) by (intro le_imp_power_dvd) simp
  then have "unat (p + 1) mod 2 ^ k = Suc (unat p) mod 2 ^ k"
    by (simp add: unat_word_ariths mod_mod_cancel)
  ultimately show ?thesis by simp
qed

lemma ring_count_less: "ring_count k r < 2 ^ k"
  by (simp add: ring_count_def)

lemma ring_queue_length [simp]: "length (ring_queue k r) = ring_count k r"
  by (simp add: ring_queue_def)

lemma count_step:
  fixes w r n :: nat
  assumes "w < n" "r < n"
  shows "Suc w mod n = r \<longleftrightarrow> (w + n - r) mod n = n - 1"
    and "w \<noteq> r \<longleftrightarrow> 0 < (w + n - r) mod n"
    and "Suc w mod n \<noteq> r \<Longrightarrow> (Suc w mod n + n - r) mod n = Suc ((w + n - r) mod n)"
    and "w \<noteq> r \<Longrightarrow> Suc ((w + n - Suc r mod n) mod n) = (w + n - r) mod n"
proof -
  have d: "(w + n - r) mod n = (if r \<le> w then w - r else w + n - r)" using assms by (auto simp: mod_if)
  have s: "Suc w mod n = (if Suc w = n then 0 else Suc w)" "Suc r mod n = (if Suc r = n then 0 else Suc r)"
    using assms by (auto simp: mod_if)
  show "Suc w mod n = r \<longleftrightarrow> (w + n - r) mod n = n - 1" unfolding d s using assms by auto
  show "w \<noteq> r \<longleftrightarrow> 0 < (w + n - r) mod n" unfolding d using assms by auto
  show "Suc w mod n \<noteq> r \<Longrightarrow> (Suc w mod n + n - r) mod n = Suc ((w + n - r) mod n)"
    unfolding d s using assms by (auto simp: mod_if split: if_splits)
  show "w \<noteq> r \<Longrightarrow> Suc ((w + n - Suc r mod n) mod n) = (w + n - r) mod n"
    unfolding d s using assms by (auto simp: mod_if split: if_splits)
qed

lemma ring_full:
  assumes "ring_wf k r"
  shows "prod_current r = None \<longleftrightarrow> ring_count k r = 2 ^ k - 1"
    and "prod_current r \<noteq> None \<Longrightarrow> prod_current r = Some (wpos r)"
proof -
  have w: "unat (rpos r) < 2 ^ k" "unat (wpos r) < 2 ^ k" using assms by (simp_all add: ring_wf_def)
  have "ring_step (wpos r) r = rpos r \<longleftrightarrow> Suc (unat (wpos r)) mod 2 ^ k = unat (rpos r)"
    using ring_step_unat [OF assms w(2)] by (simp add: word_unat_eq_iff)
  then show "prod_current r = None \<longleftrightarrow> ring_count k r = 2 ^ k - 1"
    using count_step(1) [OF w(2,1)] by (simp add: prod_current_def ring_count_def)
  show "prod_current r \<noteq> None \<Longrightarrow> prod_current r = Some (wpos r)" by (simp add: prod_current_def split: if_splits)
qed

lemma ring_empty:
  assumes "ring_wf k r"
  shows "has_data r \<longleftrightarrow> ring_queue k r \<noteq> []"
proof -
  have w: "unat (rpos r) < 2 ^ k" "unat (wpos r) < 2 ^ k" using assms by (simp_all add: ring_wf_def)
  have "has_data r \<longleftrightarrow> unat (wpos r) \<noteq> unat (rpos r)" by (auto simp: has_data_def word_unat_eq_iff)
  then have "has_data r \<longleftrightarrow> 0 < ring_count k r" using count_step(2) [OF w(2,1)] by (simp add: ring_count_def)
  then show ?thesis using ring_queue_length [of k r] by (metis length_greater_0_conv)
qed

lemma prod_store_queue:
  assumes "ring_wf k r" "prod_store (wpos r) x r = Inr r'"
  shows "ring_wf k r'" "ring_queue k r' = ring_queue k r" "rpos r' = rpos r" "wpos r' = wpos r"
    "slots r' ! unat (wpos r') = x"
proof -
  have w: "unat (wpos r) < 2 ^ k" "2 ^ k \<le> length (slots r)" using assms by (simp_all add: ring_wf_def)
  have r': "r' = r\<lparr>slots := (slots r)[unat (wpos r) := x]\<rparr>" using assms(2) by (simp add: prod_store_def split: if_splits)
  show "ring_wf k r'" "rpos r' = rpos r" "wpos r' = wpos r" "slots r' ! unat (wpos r') = x"
    using assms(1) w by (simp_all add: r' ring_wf_def)
  define n :: nat where "n = 2 ^ k"
  define c where "c = ring_count k r"
  have c: "c < n" using ring_count_less [of k r] by (simp add: c_def n_def)
  have "unat (wpos r) \<noteq> (unat (wpos r) + n - c + i) mod n" if "i < c" for i
  proof -
    have "unat (wpos r) + n - c + i < unat (wpos r) + n" "unat (wpos r) + n - c + i > unat (wpos r)" using c that by auto
    then show ?thesis using w(1) by (cases "unat (wpos r) + n - c + i < n") (auto simp: mod_if n_def)
  qed
  then have "ring_abs n (take n ((slots r)[unat (wpos r) := x])) (unat (wpos r)) c = ring_abs n (take n (slots r)) (unat (wpos r)) c"
    unfolding ring_abs_def using c by (intro map_cong refl) (simp add: take_update_swap)
  then show "ring_queue k r' = ring_queue k r"
    by (simp add: r' ring_queue_def ring_count_def n_def c_def)
qed

lemma prod_next_queue:
  assumes "ring_wf k r" "prod_current r \<noteq> None"
  shows "ring_wf k (prod_next r)" "ring_queue k (prod_next r) = ring_queue k r @ [slots r ! unat (wpos r)]"
proof -
  define n :: nat where "n = 2 ^ k"
  define w where "w = unat (wpos r)"
  have b: "unat (rpos r) < n" "w < n" "n \<le> length (slots r)" using assms by (simp_all add: ring_wf_def n_def w_def)
  have s: "unat (ring_step (wpos r) r) = Suc w mod n" using ring_step_unat [OF assms(1)] b by (simp add: n_def w_def)
  have "ring_step (wpos r) r \<noteq> rpos r" using assms(2) by (simp add: prod_current_def split: if_splits)
  then have "Suc w mod n \<noteq> unat (rpos r)" using s by (metis word_unat_eq_iff)
  then have c: "ring_count k (prod_next r) = Suc (ring_count k r)"
    using count_step(3) [OF b(2,1)] by (simp add: ring_count_def prod_next_def s n_def w_def)
  show "ring_wf k (prod_next r)" using assms(1) s b by (simp add: ring_wf_def prod_next_def n_def)
  have "ring_abs n ((take n (slots r))[w := slots r ! w]) (Suc w mod n) (Suc (ring_count k r))
      = ring_abs n (take n (slots r)) w (ring_count k r) @ [slots r ! w]"
    using b ring_count_less [of k r] by (intro ring_abs_push) (simp_all add: n_def)
  moreover have "(take n (slots r))[w := slots r ! w] = take n (slots r)" using b by (simp add: list_update_same_conv)
  ultimately show "ring_queue k (prod_next r) = ring_queue k r @ [slots r ! unat (wpos r)]"
    unfolding ring_queue_def c by (simp add: prod_next_def s n_def w_def)
qed

lemma cons_next_queue:
  assumes "ring_wf k r" "has_data r"
  shows "ring_wf k (cons_next r)" "\<exists>x. cons_read r = Inr x \<and> ring_queue k r = x # ring_queue k (cons_next r)"
proof -
  define n :: nat where "n = 2 ^ k"
  define w where "w = unat (wpos r)"
  define p where "p = unat (rpos r)"
  have b: "p < n" "w < n" "n \<le> length (slots r)" using assms by (simp_all add: ring_wf_def n_def w_def p_def)
  have s: "unat (ring_step (rpos r) r) = Suc p mod n" using ring_step_unat [OF assms(1)] b by (simp add: n_def p_def)
  have "w \<noteq> p" using assms(2) by (auto simp: has_data_def w_def p_def word_unat_eq_iff)
  then have c: "ring_count k r = Suc (ring_count k (cons_next r))"
    using count_step(4) [OF b(2,1)] by (simp add: ring_count_def cons_next_def s n_def w_def p_def)
  show "ring_wf k (cons_next r)" using assms(1) s b by (simp add: ring_wf_def cons_next_def n_def)
  have l: "ring_count k (cons_next r) < n" using ring_count_less [of k r] c by (simp add: n_def)
  have pos: "(w + n - ring_count k r) mod n = p"
    using b by (auto simp: ring_count_def n_def [symmetric] w_def [symmetric] p_def [symmetric] mod_if)
  have "ring_queue k r = take n (slots r) ! ((w + n - ring_count k r) mod n) # ring_abs n (take n (slots r)) w (ring_count k (cons_next r))"
    unfolding ring_queue_def n_def [symmetric] w_def [symmetric] c by (rule ring_abs_pop [OF l b(2)])
  then show "\<exists>x. cons_read r = Inr x \<and> ring_queue k r = x # ring_queue k (cons_next r)"
    using b pos by (simp add: cons_read_def ring_queue_def n_def w_def p_def) (simp add: cons_next_def)
qed

interpretation shm: bounded_queue "ring_wf k" "ring_queue k" "2 ^ k - 1" ring_push ring_pop for k
proof
  fix r :: "'a ring" and x q
  assume i: "ring_wf k r"
  show "length (ring_queue k r) \<le> 2 ^ k - 1" using ring_count_less [of k r] by simp
  show "ring_wf k (ring_push r x) \<and>
      ring_queue k (ring_push r x) = (if length (ring_queue k r) < 2 ^ k - 1 then ring_queue k r @ [x] else ring_queue k r)"
  proof (cases "prod_current r = None")
    case True
    then show ?thesis using i ring_full(1) [OF i] by (simp add: ring_push_def produce_def)
  next
    case False
    note c = ring_full(2) [OF i False]
    have "unat (wpos r) < length (slots r)" using i by (auto simp: ring_wf_def)
    then obtain r' where st: "prod_store (wpos r) x r = Inr r'" by (simp add: prod_store_def)
    note q = prod_store_queue [OF i st]
    have m: "rb_max r' = rb_max r" using st by (auto simp: prod_store_def split: if_splits)
    have n: "prod_current r' \<noteq> None" using False q(3,4) m by (simp add: prod_current_def ring_step_def split: if_splits)
    have "ring_count k r \<noteq> 2 ^ k - 1" using False ring_full(1) [OF i] by simp
    then have "ring_count k r < 2 ^ k - 1" using ring_count_less [of k r] by simp
    then show ?thesis using prod_next_queue [OF q(1) n] q by (simp add: ring_push_def produce_def c st)
  qed
  show "fst (ring_pop r) = x \<and> ring_wf k (snd (ring_pop r)) \<and> ring_queue k (snd (ring_pop r)) = q"
    if "ring_queue k r = x # q"
    using cons_next_queue [OF i] ring_empty [OF i] that by (auto simp: ring_pop_def)
qed

section \<open>Every interleaving\<close>

lemma cons_next_current:
  assumes "ring_wf k r" "has_data r"
  shows "prod_current (cons_next r) \<noteq> None"
proof -
  obtain x where "ring_queue k r = x # ring_queue k (cons_next r)" using cons_next_queue(2) [OF assms] by blast
  then have "ring_count k r = Suc (ring_count k (cons_next r))" using ring_queue_length [of k r] by simp
  then have "ring_count k (cons_next r) \<noteq> 2 ^ k - 1" using ring_count_less [of k r] by simp
  then show ?thesis using ring_full(1) [OF cons_next_queue(1) [OF assms]] by simp
qed

lemma prod_next_has_data:
  assumes "ring_wf k r" "prod_current r \<noteq> None"
  shows "has_data (prod_next r)"
  using ring_empty [OF prod_next_queue(1) [OF assms]] prod_next_queue(2) [OF assms] by simp

text \<open>What one step does to the content of the ring.\<close>

lemma shm_step_inv:
  assumes "shm_step s l t" "shm_inv k s"
  shows "shm_inv k t \<and> label_effect l (ring_queue k (sh_ring s)) (ring_queue k (sh_ring t))"
  using assms
proof (cases rule: shm_step.cases)
  case (produce_store slot x r)
  have w: "ring_wf k (sh_ring s)" using assms(2) by (simp add: shm_inv_def)
  have slot: "slot = wpos (sh_ring s)" using ring_full(2) [OF w] produce_store by simp
  note q = prod_store_queue [OF w produce_store(5) [unfolded slot]]
  have "rb_max r = rb_max (sh_ring s)" using produce_store(5) by (auto simp: prod_store_def split: if_splits)
  then have "prod_current r = prod_current (sh_ring s)" "has_data r = has_data (sh_ring s)"
    using q by (simp_all add: prod_current_def ring_step_def has_data_def)
  then show ?thesis using assms(2) produce_store q by (auto simp: shm_inv_def)
next
  case produce_move
  then have w: "ring_wf k (sh_ring s)" "prod_current (sh_ring s) \<noteq> None" using assms(2) by (simp_all add: shm_inv_def)
  show ?thesis using assms(2) produce_move prod_next_queue [OF w] prod_next_has_data [OF w] by (auto simp: shm_inv_def)
next
  case (release_item x)
  then have w: "ring_wf k (sh_ring s)" "has_data (sh_ring s)" using assms(2) by (simp_all add: shm_inv_def)
  show ?thesis using assms(2) release_item cons_next_queue [OF w] cons_next_current [OF w] by (auto simp: shm_inv_def)
qed (auto simp: shm_inv_def)

lemma shm_run_inv:
  assumes "shm_run s ins outs t" "shm_inv k s"
  shows "shm_inv k t \<and> ring_queue k (sh_ring s) @ ins = outs @ ring_queue k (sh_ring t)"
  using assms
proof (induction rule: shm_run.induct)
  case (run_enter ins outs t x u)
  then show ?case using shm_step_inv [OF run_enter.hyps(2), of k] by auto
next
  case (run_leave ins outs t x u)
  then show ?case using shm_step_inv [OF run_leave.hyps(2), of k] by auto
next
  case (run_internal ins outs t u)
  then show ?case using shm_step_inv [OF run_internal.hyps(2), of k] by auto
qed simp

lemma shm_start_inv: "ring_wf k (ring_reset r) \<Longrightarrow> shm_inv k (shm_start r) \<and> ring_queue k (sh_ring (shm_start r)) = []"
  by (simp add: shm_start_def shm_inv_def ring_queue_def ring_count_def ring_reset_def)

lemma wake_up:
  assumes "sh_cons t = CWait" "0 < sh_sem t" "has_data (sh_ring t)"
  shows "\<exists>u. shm_run t [] [] u \<and> sh_cons u = CItem \<and> sh_ring u = sh_ring t"
proof -
  define t' where "t' = t\<lparr>sh_sem := 0, sh_cons := CLoop\<rparr>"
  have "shm_run t [] [] t'" using run_internal [OF run_start get_woken] assms unfolding t'_def by blast
  moreover have "shm_step t' Internal (t'\<lparr>sh_cons := (if has_data (sh_ring t') then CItem else CEmpty)\<rparr>)"
    by (rule get_check) (simp add: t'_def)
  ultimately have "shm_run t [] [] (t'\<lparr>sh_cons := (if has_data (sh_ring t') then CItem else CEmpty)\<rparr>)"
    by (rule run_internal)
  moreover have "sh_ring t' = sh_ring t" by (simp add: t'_def)
  ultimately show ?thesis using assms(3)
    by (intro exI [of _ "t'\<lparr>sh_cons := (if has_data (sh_ring t') then CItem else CEmpty)\<rparr>"]) simp
qed

lemma shm_run_trans_internal:
  assumes "shm_step s Internal t" "shm_run t ins outs u"
  shows "shm_run s ins outs u"
  using assms(2)
proof (induction rule: shm_run.induct)
  case run_start
  show ?case by (rule run_internal [OF shm_run.run_start assms(1)])
qed (auto intro: shm_run.intros)

text \<open>The slots that the two parties compute fit into the dataspace, if there is room for at least two items.\<close>

lemma ring_max_fits:
  assumes "item \<noteq> 0" "(ds - 16) div item = n" "2 \<le> unat n" "unat n < 2 ^ 31"
  shows "\<exists>k < 31. ring_max ds item = Inr (2 ^ k) \<and> 2 ^ k \<le> unat n"
proof -
  obtain k where k: "2 ^ k \<le> unat n" "unat n < 2 ^ Suc k"
    using ex_power_ivl1 [of 2 "unat n"] assms(3) by auto
  have "(2 :: nat) ^ k < 2 ^ 31" using k(1) assms(4) by linarith
  then have k31: "k < 31" by (rule power_less_imp_less_exp [rotated]) simp
  have k1: "1 \<le> k" using k(2) assms(3) by (cases k) auto
  have m: "ring_max ds item = prev_pow2 n" using assms(1,2) by (simp add: ring_max_def)
  show ?thesis
  proof (cases "unat n = 2 ^ k")
    case True
    have "n = of_nat (unat n)" by simp
    then have "n = 2 ^ k" unfolding True by simp
    then show ?thesis using prev_pow2_of_pow2 [OF k1 k31] m k k31 by auto
  next
    case False
    then have "prev_pow2 n = Inr (2 ^ (k - 1))" using k k1 k31 by (intro prev_pow2_of_other) auto
    moreover have "2 ^ (k - 1) \<le> unat n" by (rule order_trans [OF power_increasing k(1)]) simp_all
    ultimately show ?thesis using m k k31 by (intro exI [of _ "k - 1"]) auto
  qed
qed

text \<open>With room for one item only, both parties take the ring to have two slots.\<close>

lemma ring_max_one_slot: "ring_max 24 8 = Inr 2"
  by code_simp

text \<open>\<^verbatim>\<open>get\<close> may return null although the ring has data: when \<^verbatim>\<open>stop\<close> is called and an item
  is produced after the ring was seen empty.\<close>

lemma small_ring_wf: "ring_wf 2 (ring_reset small_ring)"
  by (simp add: ring_wf_def ring_reset_def small_ring_def)

text \<open>An item is produced after the consumer saw an empty ring.\<close>

lemma late_item:
  "\<exists>t. shm_run (shm_start small_ring) [7] [] t \<and> sh_cons t = CEmpty \<and> sh_prod t = PMoved \<and> \<not> sh_stop t
     \<and> \<not> sh_stopping t \<and> sh_ring t = full_slot_ring"
proof -
  let ?s0 = "shm_start small_ring"
  let ?s1 = "?s0\<lparr>sh_cons := CLoop\<rparr>"
  let ?s2 = "?s0\<lparr>sh_cons := CEmpty\<rparr>"
  let ?s3 = "?s2\<lparr>sh_ring := small_ring\<lparr>slots := [7, 0, 0, 0]\<rparr>, sh_prod := PStored\<rparr>"
  let ?s4 = "?s2\<lparr>sh_ring := full_slot_ring, sh_prod := PMoved\<rparr>"
  note d = shm_start_def ring_reset_def small_ring_def full_slot_ring_def
  have "shm_step ?s0 Internal ?s1" by (rule get_call) (simp add: d)
  moreover have "shm_step ?s1 Internal ?s2" using get_check [of ?s1] by (simp add: d has_data_def)
  moreover have "shm_step ?s2 Internal ?s3"
    by (rule produce_store [of _ 0 7]) (simp_all add: d prod_current_def ring_step_def prod_store_def)
  moreover have "shm_step ?s3 (Enters 7) ?s4" using produce_move [of ?s3] by (simp add: d prod_next_def ring_step_def)
  ultimately have "shm_run ?s0 ([] @ [7]) [] ?s4" by (meson run_start run_internal run_enter)
  then show ?thesis by (intro exI [of _ ?s4]) (simp add: d)
qed

lemma get_stopped_with_data:
  "\<exists>t u. shm_run (shm_start small_ring) [7] [] t \<and> sh_cons t = CEmpty \<and> has_data (sh_ring t)
    \<and> shm_step t Internal u \<and> sh_cons u = CIdle"
proof -
  obtain t where t: "shm_run (shm_start small_ring) [7] [] t" "sh_cons t = CEmpty" "\<not> sh_stopping t" "sh_ring t = full_slot_ring"
    using late_item by blast
  let ?t = "t\<lparr>sh_stop := True, sh_stopping := True\<rparr>"
  have "shm_run (shm_start small_ring) [7] [] ?t" by (rule run_internal [OF t(1) stop_set [OF t(3)]])
  moreover have "shm_step ?t Internal (?t\<lparr>sh_cons := CIdle\<rparr>)" using get_stopped [of ?t] t(2) by simp
  ultimately show ?thesis using t(2,4)
    by (intro exI [of _ ?t] exI [of _ "?t\<lparr>sh_cons := CIdle\<rparr>"]) (simp add: has_data_def full_slot_ring_def)
qed

lemma waiting_item:
  "\<exists>t. shm_run (shm_start small_ring) [7] [] t \<and> sh_cons t = CWait \<and> sh_ring t = full_slot_ring"
proof -
  obtain t where t: "shm_run (shm_start small_ring) [7] [] t" "sh_cons t = CEmpty" "\<not> sh_stop t" "sh_ring t = full_slot_ring"
    using late_item by blast
  have "shm_step t Internal (t\<lparr>sh_cons := CWait\<rparr>)" using get_stopped [OF t(2)] t(3) by simp
  then have "shm_run (shm_start small_ring) [7] [] (t\<lparr>sh_cons := CWait\<rparr>)" by (rule run_internal [OF t(1)])
  then show ?thesis using t(4) by (intro exI [of _ "t\<lparr>sh_cons := CWait\<rparr>"]) simp
qed

lemma full_slot_queue: "ring_queue 2 full_slot_ring = [7]"
  by (simp add: full_slot_ring_def ring_queue_def ring_count_def ring_abs_def)

section \<open>Properties\<close>

text \<open>Claim C9. A shared-memory ring hands over every item exactly once and in order, however producer, consumer
  and a caller of stop interleave: the items that entered are those that left followed by the content of the ring,
  which never exceeds its slots less one. The producer finds a slot inside the ring exactly if it is not full, and
  while the consumer works on an item the slot it reads is that of the oldest item of the ring.\<close>

theorem shm_ring_fifo:
  assumes "ring_wf k (ring_reset r)" "shm_run (shm_start r) ins outs t"
  shows "ins = outs @ ring_queue k (sh_ring t)
    \<and> length (ring_queue k (sh_ring t)) \<le> 2 ^ k - 1
    \<and> (case prod_current (sh_ring t) of None \<Rightarrow> length (ring_queue k (sh_ring t)) = 2 ^ k - 1
        | Some slot \<Rightarrow> unat slot < 2 ^ k \<and> length (ring_queue k (sh_ring t)) < 2 ^ k - 1)
    \<and> (sh_cons t = CItem \<longrightarrow> ring_queue k (sh_ring t) \<noteq> [] \<and> cons_read (sh_ring t) = Inr (hd (ring_queue k (sh_ring t))))"
proof -
  have i: "shm_inv k t" "ins = outs @ ring_queue k (sh_ring t)"
    using shm_run_inv [OF assms(2), of k] shm_start_inv [OF assms(1)] by auto
  have w: "ring_wf k (sh_ring t)" using i(1) by (simp add: shm_inv_def)
  have b: "ring_count k (sh_ring t) \<le> 2 ^ k - 1" using ring_count_less [of k "sh_ring t"] by simp
  have "case prod_current (sh_ring t) of None \<Rightarrow> ring_count k (sh_ring t) = 2 ^ k - 1
        | Some slot \<Rightarrow> unat slot < 2 ^ k \<and> ring_count k (sh_ring t) < 2 ^ k - 1"
    using ring_full [OF w] b w by (cases "prod_current (sh_ring t)") (auto simp: ring_wf_def)
  moreover have "sh_cons t = CItem \<longrightarrow> ring_queue k (sh_ring t) \<noteq> [] \<and> cons_read (sh_ring t) = Inr (hd (ring_queue k (sh_ring t)))"
    using i(1) cons_next_queue(2) [OF w] by (auto simp: shm_inv_def)
  ultimately show ?thesis using i(2) b unfolding ring_queue_length by blast
qed

theorem shm_ring_fifo_witness:
  "\<exists>t. shm_run (shm_start small_ring) [7] [] t \<and> [7] = [] @ ring_queue 2 (sh_ring t)
     \<and> length (ring_queue 2 (sh_ring t)) \<le> 3"
proof -
  obtain t where t: "shm_run (shm_start small_ring) [7] [] t" using late_item by blast
  show ?thesis using shm_ring_fifo [OF small_ring_wf t] t by auto
qed

text \<open>Claim C10. No wake-up is lost between the shared positions and the semaphore: a consumer that waits while the
  ring has data finds the semaphore up or the producer about to raise it, and can then run on to the item without any
  further item being produced; one that waits after stop finds the semaphore up or stop about to raise it.\<close>

theorem shm_no_lost_wakeup:
  assumes "ring_wf k (ring_reset r)" "shm_run (shm_start r) ins outs t" "sh_cons t = CWait"
  shows "(ring_queue k (sh_ring t) \<noteq> [] \<longrightarrow> (0 < sh_sem t \<or> sh_prod t = PMoved)
      \<and> (\<exists>u. shm_run t [] [] u \<and> sh_cons u = CItem \<and> sh_ring u = sh_ring t))
    \<and> (sh_stop t \<longrightarrow> 0 < sh_sem t \<or> sh_stopping t)"
proof -
  have i: "shm_inv k t" using shm_run_inv [OF assms(2), of k] shm_start_inv [OF assms(1)] by auto
  then have w: "ring_wf k (sh_ring t)" by (simp add: shm_inv_def)
  have "\<exists>u. shm_run t [] [] u \<and> sh_cons u = CItem \<and> sh_ring u = sh_ring t" if d: "has_data (sh_ring t)"
  proof (cases "0 < sh_sem t")
    case True
    then show ?thesis using wake_up [OF assms(3) _ d] by blast
  next
    case False
    then have "sh_prod t = PMoved" using i d assms(3) by (simp add: shm_inv_def)
    then have s: "shm_step t Internal (t\<lparr>sh_sem := Suc (sh_sem t), sh_prod := PIdle\<rparr>)" by (rule produce_signal)
    show ?thesis using wake_up [of "t\<lparr>sh_sem := Suc (sh_sem t), sh_prod := PIdle\<rparr>"] assms(3) d
        shm_run_trans_internal [OF s] by auto
  qed
  then show ?thesis using i assms(3) ring_empty [OF w] by (auto simp: shm_inv_def)
qed

theorem shm_no_lost_wakeup_witness:
  "\<exists>t u. shm_run (shm_start small_ring) [7] [] t \<and> sh_cons t = CWait \<and> ring_queue 2 (sh_ring t) = [7]
     \<and> (0 < sh_sem t \<or> sh_prod t = PMoved) \<and> shm_run t [] [] u \<and> sh_cons u = CItem"
proof -
  obtain t where t: "shm_run (shm_start small_ring) [7] [] t" "sh_cons t = CWait" "sh_ring t = full_slot_ring"
    using waiting_item by blast
  show ?thesis using shm_no_lost_wakeup [OF small_ring_wf t(1,2)] t full_slot_queue by fastforce
qed

end
