(* ===== verification/TimeoutList.thy ===== *)
theory TimeoutList
  imports Prelude
begin

text \<open>
  The list of timeouts (\<^verbatim>\<open>include/util/TimeoutList.h\<close>): a fixed array of entries that are linked into a circular
  list, sorted by time, with entry 0 as its sentinel. Pointers into the array are indices, the number of entries is
  the length of the array, and an access outside of it is undefined. A failed assertion throws. The abstract state is
  the partial function from the numbers of the pending entries to their times.
\<close>

section \<open>Definitions\<close>

record 'd tentry =
  te_next :: nat
  te_prev :: nat
  te_timeout :: u64
  te_data :: "'d option"
  te_free :: bool

type_synonym 'd tlist = "'d tentry list"

definition te_at :: "nat \<Rightarrow> 'd tlist \<Rightarrow> 'd tentry res" where
  "te_at i xs = (if i < length xs then Inr (xs ! i) else Inl Undefined)"

definition te_mod :: "nat \<Rightarrow> ('d tentry \<Rightarrow> 'd tentry) \<Rightarrow> 'd tlist \<Rightarrow> 'd tlist res" where
  "te_mod i f xs = (if i < length xs then Inr (xs[i := f (xs ! i)]) else Inl Undefined)"

definition tl_init :: "nat \<Rightarrow> 'd tlist res" where
  "tl_init n = te_mod 0 (te_timeout_update (\<lambda>_. - 1))
     (map (\<lambda>i. \<lparr>te_next = i, te_prev = i, te_timeout = 0, te_data = None, te_free = True\<rparr>) [0..<n])"

definition tl_alloc :: "'d option \<Rightarrow> 'd tlist \<Rightarrow> (nat \<times> 'd tlist) res" where
  "tl_alloc d xs =
     (case find (\<lambda>i. te_free (xs ! i)) [1..<length xs] of
        Some i \<Rightarrow> Inr (i, xs[i := (xs ! i)\<lparr>te_data := d, te_free := False\<rparr>])
      | None \<Rightarrow> Inl (Throw E_CAPACITY))"

definition tl_valid :: "nat \<Rightarrow> 'd tlist \<Rightarrow> bool" where
  "tl_valid nr xs \<longleftrightarrow> 1 \<le> nr \<and> nr \<le> length xs - 1"

definition tl_timeout :: "'d tlist \<Rightarrow> u64 res" where
  "tl_timeout xs = bindR (te_at 0 xs) (\<lambda>h. bindR (te_at (te_next h) xs) (\<lambda>e. Inr (te_timeout e)))"

definition tl_unlink :: "nat \<Rightarrow> 'd tlist \<Rightarrow> 'd tlist res" where
  "tl_unlink nr xs =
     bindR (te_at nr xs) (\<lambda>c.
     bindR (te_mod (te_next c) (te_prev_update (\<lambda>_. te_prev c)) xs) (\<lambda>xs.
     bindR (te_at nr xs) (\<lambda>c.
     bindR (te_mod (te_prev c) (te_next_update (\<lambda>_. te_next c)) xs) (\<lambda>xs.
     te_mod nr (\<lambda>e. e\<lparr>te_next := nr, te_prev := nr\<rparr>) xs))))"

definition tl_cancel :: "nat \<Rightarrow> 'd tlist \<Rightarrow> (bool \<times> 'd tlist) res" where
  "tl_cancel nr xs =
     (if \<not> tl_valid nr xs then Inl (Throw E_ASSERT)
      else bindR (te_at nr xs) (\<lambda>c.
        if te_next c = nr then Inr (False, xs)
        else bindR (te_at 0 xs) (\<lambda>h. bindR (tl_unlink nr xs) (\<lambda>xs. Inr (te_next h \<noteq> nr, xs)))))"

definition tl_dealloc :: "nat \<Rightarrow> bool \<Rightarrow> 'd tlist \<Rightarrow> (bool \<times> 'd tlist) res" where
  "tl_dealloc nr withcancel xs =
     (if \<not> tl_valid nr xs then Inl (Throw E_ASSERT)
      else bindR (te_at nr xs) (\<lambda>c.
        if te_free c then Inr (False, xs)
        else bindR (if withcancel then tl_cancel nr xs else Inr (False, xs)) (\<lambda>(_, xs).
             bindR (te_mod nr (\<lambda>e. e\<lparr>te_free := True, te_data := None\<rparr>) xs) (\<lambda>xs. Inr (True, xs)))))"

text \<open>The search for the entry to insert before; it starts behind \<^term>\<open>t\<close>.\<close>

partial_function (option) tl_search :: "u64 \<Rightarrow> nat \<Rightarrow> 'd tlist \<Rightarrow> nat res option" where
  "tl_search to t xs =
     (case te_at t xs of Inl e \<Rightarrow> Some (Inl e)
      | Inr c \<Rightarrow>
        (case te_at (te_next c) xs of Inl e \<Rightarrow> Some (Inl e)
         | Inr n \<Rightarrow> if te_timeout n < to then tl_search to (te_next c) xs else Some (Inr (te_next c))))"

definition tl_link_before :: "nat \<Rightarrow> nat \<Rightarrow> u64 \<Rightarrow> 'd tlist \<Rightarrow> 'd tlist res" where
  "tl_link_before t nr to xs =
     bindR (te_at t xs) (\<lambda>e.
     bindR (te_mod nr (\<lambda>c. c\<lparr>te_timeout := to, te_next := t, te_prev := te_prev e\<rparr>) xs) (\<lambda>xs.
     bindR (te_at t xs) (\<lambda>e.
     bindR (te_mod (te_prev e) (te_next_update (\<lambda>_. nr)) xs) (\<lambda>xs.
     te_mod t (te_prev_update (\<lambda>_. nr)) xs))))"

definition tl_request :: "nat \<Rightarrow> u64 \<Rightarrow> 'd tlist \<Rightarrow> (bool \<times> 'd tlist) res option" where
  "tl_request nr to xs =
     (if \<not> tl_valid nr xs then Some (Inl (Throw E_ASSERT))
      else case bindR (tl_timeout xs) (\<lambda>old. bindR (tl_cancel nr xs) (\<lambda>(_, xs). Inr (old, xs))) of
        Inl e \<Rightarrow> Some (Inl e)
      | Inr (old, xs) \<Rightarrow> map_option (\<lambda>r. bindR r (\<lambda>t. bindR (tl_link_before t nr to xs) (\<lambda>xs.
          bindR (tl_timeout xs) (\<lambda>new. Inr (new = old, xs))))) (tl_search to 0 xs))"

text \<open>The entry to trigger, 0 if there is none, and its data.\<close>

definition tl_trigger :: "u64 \<Rightarrow> 'd tlist \<Rightarrow> (nat \<times> 'd option) res" where
  "tl_trigger now xs = bindR (tl_timeout xs) (\<lambda>t.
     if now \<ge> t then bindR (te_at 0 xs) (\<lambda>h. bindR (te_at (te_next h) xs) (\<lambda>e. Inr (te_next h, te_data e)))
     else Inr (0, None))"

subsection \<open>Specification\<close>

text \<open>The reachable arrays with the requests that are pending.\<close>

inductive tl_reach :: "'d tlist \<Rightarrow> (nat \<rightharpoonup> u64) \<Rightarrow> bool" where
  tl_reach_init: "tl_init n = Inr xs \<Longrightarrow> tl_reach xs Map.empty"
| tl_reach_alloc: "tl_reach xs m \<Longrightarrow> tl_alloc d xs = Inr (i, xs') \<Longrightarrow> tl_reach xs' m"
| tl_reach_dealloc: "tl_reach xs m \<Longrightarrow> tl_dealloc nr wc xs = Inr (b, xs') \<Longrightarrow>
    tl_reach xs' (if wc \<and> b then m(nr := None) else m)"
| tl_reach_cancel: "tl_reach xs m \<Longrightarrow> tl_cancel nr xs = Inr (b, xs') \<Longrightarrow> tl_reach xs' (m(nr := None))"
| tl_reach_request: "tl_reach xs m \<Longrightarrow> tl_request nr to xs = Some (Inr (b, xs')) \<Longrightarrow> tl_reach xs' (m(nr \<mapsto> to))"

text \<open>The entries of \<^term>\<open>q\<close> are linked in this order.\<close>

fun tl_linked :: "'d tlist \<Rightarrow> nat list \<Rightarrow> bool" where
  "tl_linked xs (a # b # r) \<longleftrightarrow> te_next (xs ! a) = b \<and> te_prev (xs ! b) = a \<and> tl_linked xs (b # r)"
| "tl_linked xs _ \<longleftrightarrow> True"

definition tl_time :: "'d tlist \<Rightarrow> nat \<Rightarrow> u64" where
  "tl_time xs i = te_timeout (xs ! i)"

definition tl_rep :: "'d tlist \<Rightarrow> nat list \<Rightarrow> bool" where
  "tl_rep xs q \<longleftrightarrow> 0 < length xs \<and> distinct (0 # q) \<and> set q \<subseteq> {..< length xs} \<and> tl_linked xs (0 # q @ [0])
     \<and> (\<forall>i < length xs. i \<notin> set (0 # q) \<longrightarrow> te_next (xs ! i) = i \<and> te_prev (xs ! i) = i)
     \<and> te_timeout (xs ! 0) = - 1 \<and> sorted (map (tl_time xs) q)"

definition tl_holds :: "'d tlist \<Rightarrow> (nat \<rightharpoonup> u64) \<Rightarrow> bool" where
  "tl_holds xs m \<longleftrightarrow> (\<exists>q. tl_rep xs q \<and> m = (\<lambda>i. if i \<in> set q then Some (tl_time xs i) else None))"

definition tl_earliest :: "(nat \<rightharpoonup> u64) \<Rightarrow> u64" where
  "tl_earliest m = (if dom m = {} then - 1 else Min (ran m))"

section \<open>Links\<close>

lemma te_simps [simp]:
  "i < length xs \<Longrightarrow> te_at i xs = Inr (xs ! i)"
  "i < length xs \<Longrightarrow> te_mod i f xs = Inr (xs[i := f (xs ! i)])"
  by (simp_all add: te_at_def te_mod_def)

lemma tl_linked_split: "tl_linked xs (p @ a # r) \<longleftrightarrow> tl_linked xs (p @ [a]) \<and> tl_linked xs (a # r)"
proof (induction p rule: induct_list012)
  case (2 x)
  then show ?case by (cases r) auto
qed auto

lemma tl_linked_cong:
  assumes "\<And>a. a \<in> set (butlast l) \<Longrightarrow> te_next (ys ! a) = te_next (xs ! a)"
    and "\<And>a. a \<in> set (tl l) \<Longrightarrow> te_prev (ys ! a) = te_prev (xs ! a)"
  shows "tl_linked ys l \<longleftrightarrow> tl_linked xs l"
  using assms
proof (induction l rule: induct_list012)
  case (3 a b r)
  have "tl_linked ys (b # r) \<longleftrightarrow> tl_linked xs (b # r)"
    using 3(3,4) by (intro 3(2)) (cases r; auto)+
  then show ?case using 3(3) [of a] 3(4) [of b] by simp
qed auto

lemma rep_0: "tl_rep xs q \<Longrightarrow> 0 < length xs"
  by (simp add: tl_rep_def)

lemma rep_head:
  assumes "tl_rep xs q"
  shows "te_next (xs ! 0) = hd (q @ [0])" "te_next (xs ! 0) < length xs"
    "tl_timeout xs = Inr (case q of [] \<Rightarrow> - 1 | i # _ \<Rightarrow> tl_time xs i)"
  using assms by (cases q; auto simp: tl_rep_def tl_timeout_def tl_time_def)+

text \<open>The array is only read through links, times and the membership of entries.\<close>

lemma rep_cong:
  assumes "tl_rep xs q" "length ys = length xs"
    and "\<And>i. te_next (ys ! i) = te_next (xs ! i) \<and> te_prev (ys ! i) = te_prev (xs ! i) \<and> te_timeout (ys ! i) = te_timeout (xs ! i)"
  shows "tl_rep ys q"
proof -
  have "tl_linked ys (0 # q @ [0])" using tl_linked_cong [of "0 # q @ [0]" ys xs] assms by (simp add: tl_rep_def)
  moreover have "tl_time ys = tl_time xs" using assms(3) by (simp add: tl_time_def fun_eq_iff)
  ultimately show ?thesis using assms by (simp add: tl_rep_def)
qed

text \<open>An entry of the list and its neighbours.\<close>

lemma rep_member:
  assumes "tl_rep xs (p @ nr # r)"
  shows "te_prev (xs ! nr) = last (0 # p)" "te_next (xs ! nr) = hd (r @ [0])" "nr < length xs" "nr \<noteq> 0"
    "last (0 # p) < length xs" "hd (r @ [0]) < length xs" "nr \<noteq> last (0 # p)" "nr \<noteq> hd (r @ [0])"
proof -
  have l: "tl_linked xs ((0 # p) @ nr # (r @ [0]))" using assms by (simp add: tl_rep_def)
  have pl: "0 # p = butlast (0 # p) @ [last (0 # p)]" by (rule append_butlast_last_id [symmetric]) simp
  have "tl_linked xs ((0 # p) @ [nr])" using l tl_linked_split [of xs "0 # p" nr "r @ [0]"] by simp
  then have "tl_linked xs (butlast (0 # p) @ last (0 # p) # [nr])" by (subst (asm) pl) simp
  then have "tl_linked xs (last (0 # p) # [nr])"
    using tl_linked_split [of xs "butlast (0 # p)" "last (0 # p)" "[nr]"] by simp
  then show "te_prev (xs ! nr) = last (0 # p)" by simp
  have "tl_linked xs (nr # (r @ [0]))" using l tl_linked_split [of xs "0 # p" nr "r @ [0]"] by simp
  then show "te_next (xs ! nr) = hd (r @ [0])" by (cases r) auto
  show "nr < length xs" "nr \<noteq> 0" using assms by (auto simp: tl_rep_def)
  have "last (0 # p) \<in> set (0 # p)" "hd (r @ [0]) \<in> set (r @ [0])" by (rule last_in_set hd_in_set; simp)+
  then show "last (0 # p) < length xs" "hd (r @ [0]) < length xs" "nr \<noteq> last (0 # p)" "nr \<noteq> hd (r @ [0])"
    using assms by (auto simp: tl_rep_def)
qed

text \<open>Joining two chains at \<^term>\<open>a\<close> and \<^term>\<open>b\<close>.\<close>

lemma tl_relink:
  assumes "tl_linked xs (u @ [a])" "tl_linked xs (b # v)" "te_next (ys ! a) = b" "te_prev (ys ! b) = a"
    and "\<And>i. i \<in> set u \<union> set (butlast (b # v)) \<Longrightarrow> te_next (ys ! i) = te_next (xs ! i)"
    and "\<And>i. i \<in> set (tl (u @ [a])) \<union> set v \<Longrightarrow> te_prev (ys ! i) = te_prev (xs ! i)"
  shows "tl_linked ys ((u @ [a]) @ b # v)"
proof -
  have "tl_linked ys (u @ [a])" using tl_linked_cong [of "u @ [a]" ys xs] assms(1,5,6) by simp
  moreover have "tl_linked ys (b # v)" using tl_linked_cong [of "b # v" ys xs] assms(2,5,6) by simp
  ultimately show ?thesis using tl_linked_split [of ys u a "b # v"] assms(3,4) by simp
qed

text \<open>The last entry of the front part and the first entry of the rest, with the sentinel at both ends.\<close>

lemma ends:
  fixes p r :: "nat list"
  obtains u v where "0 # p = u @ [last (0 # p)]" "r @ [0] = hd (r @ [0]) # v" "tl (u @ [last (0 # p)]) = p" "butlast (hd (r @ [0]) # v) = r"
proof
  show p: "(0 :: nat) # p = butlast (0 # p) @ [last (0 # p)]" by (rule append_butlast_last_id [symmetric]) simp
  show r: "r @ [0 :: nat] = hd (r @ [0]) # tl (r @ [0])" by (rule hd_Cons_tl [symmetric]) simp
  show "tl (butlast (0 # p) @ [last (0 # p)]) = p" by (simp only: p [symmetric] list.sel)
  show "butlast (hd (r @ [0]) # tl (r @ [0])) = r" by (simp only: r [symmetric] butlast_snoc)
qed

section \<open>Removing and inserting\<close>

lemma unlink_rep:
  assumes "tl_rep xs (p @ nr # r)"
  shows "\<exists>ys. tl_unlink nr xs = Inr ys \<and> tl_rep ys (p @ r) \<and> length ys = length xs
    \<and> (\<forall>i. te_timeout (ys ! i) = te_timeout (xs ! i) \<and> te_data (ys ! i) = te_data (xs ! i) \<and> te_free (ys ! i) = te_free (xs ! i))"
proof -
  define a where "a = last (0 # p)"
  define b where "b = hd (r @ [0])"
  note m = rep_member [OF assms, folded a_def b_def]
  define x1 where "x1 = xs[b := (xs ! b)\<lparr>te_prev := a\<rparr>]"
  define x2 where "x2 = x1[a := (x1 ! a)\<lparr>te_next := b\<rparr>]"
  define x3 where "x3 = x2[nr := (x2 ! nr)\<lparr>te_next := nr, te_prev := nr\<rparr>]"
  have n: "te_next (x3 ! i) = (if i = nr then nr else if i = a then b else te_next (xs ! i))" 
    "te_prev (x3 ! i) = (if i = nr then nr else if i = b then a else te_prev (xs ! i))" 
    "te_timeout (x3 ! i) = te_timeout (xs ! i)" "te_data (x3 ! i) = te_data (xs ! i)" "te_free (x3 ! i) = te_free (xs ! i)" for i
    using m by (auto simp: x3_def x2_def x1_def nth_list_update)
  have l: "length x1 = length xs" "length x2 = length xs" "length x3 = length xs" by (simp_all add: x1_def x2_def x3_def)
  have "x1 ! nr = xs ! nr" using m by (simp add: x1_def)
  then have u: "tl_unlink nr xs = Inr x3" using m by (simp add: tl_unlink_def l x1_def [symmetric] x2_def [symmetric] x3_def [symmetric])
  have d: "distinct ((0 # p) @ nr # r)" using assms by (simp add: tl_rep_def)
  have lk: "tl_linked xs ((0 # p) @ nr # r @ [0])" using assms by (simp add: tl_rep_def)
  obtain u v where e: "0 # p = u @ [a]" "r @ [0] = b # v" "tl (u @ [a]) = p" "butlast (b # v) = r"
    by (rule ends [of p r, folded a_def b_def])
  have "tl_linked xs ((u @ [a]) @ nr # b # v)" using lk by (simp only: e(1,2))
  then have k: "tl_linked xs (u @ [a])" "tl_linked xs (b # v)"
    using tl_linked_split [of xs u a "nr # b # v"] tl_linked_split [of xs u a "[]"] by simp_all
  have du: "distinct (u @ [a])" "distinct (b # v)" "nr \<notin> set (u @ [a])" "nr \<notin> set (b # v)"
    using d m(4) by (simp_all only: e(1,2) [symmetric]) auto
  have "a \<in> set (0 # p)" "b \<in> set (r @ [0])" unfolding e(1,2) by simp_all
  then have ab: "a \<notin> set r" "b \<notin> set p" using d by auto
  have "tl_linked x3 ((u @ [a]) @ b # v)"
  proof (rule tl_relink [OF k])
    show "te_next (x3 ! a) = b" "te_prev (x3 ! b) = a" using m by (simp_all add: n)
    show "te_next (x3 ! i) = te_next (xs ! i)" if "i \<in> set u \<union> set (butlast (b # v))" for i
      using that du ab(1) e(4) d by (auto simp: n)
    show "te_prev (x3 ! i) = te_prev (xs ! i)" if "i \<in> set (tl (u @ [a])) \<union> set v" for i
      using that du ab(2) e(3) d by (auto simp: n)
  qed
  then have "tl_linked x3 (0 # (p @ r) @ [0])" by (simp add: e(1,2) [symmetric])
  moreover have "tl_time x3 = tl_time xs" by (simp add: tl_time_def n fun_eq_iff)
  moreover have "te_next (x3 ! i) = i \<and> te_prev (x3 ! i) = i" if "i < length xs" "i \<notin> set (0 # p @ r)" for i
  proof (cases "i = nr")
    case False
    have "a \<in> set (0 # p)" "b \<in> set (r @ [0])" unfolding a_def b_def by (rule last_in_set hd_in_set; simp)+
    then have "i \<noteq> a" "i \<noteq> b" using that by auto
    then show ?thesis using False that assms by (simp add: n tl_rep_def)
  qed (simp add: n)
  ultimately have "tl_rep x3 (p @ r)" using assms by (auto simp: tl_rep_def l n sorted_append)
  then show ?thesis using u l n by (intro exI [of _ x3]) auto
qed

lemma rep_between:
  assumes "tl_rep xs (p @ r)"
  shows "te_next (xs ! last (0 # p)) = hd (r @ [0])" "te_prev (xs ! hd (r @ [0])) = last (0 # p)"
    "last (0 # p) < length xs" "hd (r @ [0]) < length xs" "last (0 # p) \<in> set (0 # p)" "hd (r @ [0]) \<in> set (r @ [0])"
proof -
  obtain u v where e: "0 # p = u @ [last (0 # p)]" "r @ [0] = hd (r @ [0]) # v" "tl (u @ [last (0 # p)]) = p" "butlast (hd (r @ [0]) # v) = r"
    by (rule ends [of p r])
  have "tl_linked xs ((0 # p) @ r @ [0])" using assms by (simp add: tl_rep_def)
  then have "tl_linked xs (u @ last (0 # p) # hd (r @ [0]) # v)" by (subst (asm) e(1), subst (asm) e(2)) simp
  then have "tl_linked xs (last (0 # p) # hd (r @ [0]) # v)" using tl_linked_split [of xs u "last (0 # p)" "hd (r @ [0]) # v"] by blast
  then show "te_next (xs ! last (0 # p)) = hd (r @ [0])" "te_prev (xs ! hd (r @ [0])) = last (0 # p)"
    by (simp_all only: tl_linked.simps)
  show m: "last (0 # p) \<in> set (0 # p)" "hd (r @ [0]) \<in> set (r @ [0])" by (rule last_in_set hd_in_set; simp)+
  have "set (0 # p) \<union> set (r @ [0]) \<subseteq> {..< length xs}" using assms by (auto simp: tl_rep_def)
  then show "last (0 # p) < length xs" "hd (r @ [0]) < length xs" using m by blast+
qed

lemma link_rep:
  assumes "tl_rep xs (p @ r)" "nr \<notin> set (0 # p @ r)" "nr < length xs"
    and "\<forall>i \<in> set p. tl_time xs i < to" "\<forall>i \<in> set r. to \<le> tl_time xs i"
  shows "\<exists>ys. tl_link_before (hd (r @ [0])) nr to xs = Inr ys \<and> tl_rep ys (p @ nr # r) \<and> length ys = length xs
    \<and> (\<forall>i. te_timeout (ys ! i) = (if i = nr then to else te_timeout (xs ! i))
        \<and> te_data (ys ! i) = te_data (xs ! i) \<and> te_free (ys ! i) = te_free (xs ! i))"
proof -
  define a where "a = last (0 # p)"
  define b where "b = hd (r @ [0])"
  note m = rep_between [OF assms(1), folded a_def b_def]
  have ne: "a \<noteq> nr" "b \<noteq> nr" using m(5,6) assms(2) by auto
  define x1 where "x1 = xs[nr := (xs ! nr)\<lparr>te_timeout := to, te_next := b, te_prev := a\<rparr>]"
  define x2 where "x2 = x1[a := (x1 ! a)\<lparr>te_next := nr\<rparr>]"
  define x3 where "x3 = x2[b := (x2 ! b)\<lparr>te_prev := nr\<rparr>]"
  have n: "te_next (x3 ! i) = (if i = nr then b else if i = a then nr else te_next (xs ! i))"
    "te_prev (x3 ! i) = (if i = nr then a else if i = b then nr else te_prev (xs ! i))"
    "te_timeout (x3 ! i) = (if i = nr then to else te_timeout (xs ! i))"
    "te_data (x3 ! i) = te_data (xs ! i)" "te_free (x3 ! i) = te_free (xs ! i)" for i
    using m ne assms(3) by (auto simp: x3_def x2_def x1_def nth_list_update)
  have l: "length x1 = length xs" "length x2 = length xs" "length x3 = length xs" by (simp_all add: x1_def x2_def x3_def)
  have "x1 ! b = xs ! b" using ne by (simp add: x1_def)
  then have u: "tl_link_before b nr to xs = Inr x3"
    using m assms(3) by (simp add: tl_link_before_def l x1_def [symmetric] x2_def [symmetric] x3_def [symmetric])
  have d: "distinct ((0 # p) @ nr # r)" using assms(1,2) by (auto simp: tl_rep_def)
  obtain u v where e: "0 # p = u @ [a]" "r @ [0] = b # v" "tl (u @ [a]) = p" "butlast (b # v) = r"
    by (rule ends [of p r, folded a_def b_def])
  have "tl_linked xs ((0 # p) @ r @ [0])" using assms(1) by (simp add: tl_rep_def)
  then have "tl_linked xs (u @ a # b # v)" unfolding e(1,2) by simp
  then have k: "tl_linked xs (u @ [a])" "tl_linked xs (b # v)" using tl_linked_split [of xs u a "b # v"] by simp_all
  have du: "distinct (u @ [a])" "distinct (b # v)" "nr \<notin> set (u @ [a])" "nr \<notin> set (b # v)"
    using d assms(2) by (simp_all only: e(1,2) [symmetric]) auto
  have ab: "a \<notin> set r" "b \<notin> set p" using d m(5,6) by auto
  have "tl_linked x3 (u @ [a]) \<longleftrightarrow> tl_linked xs (u @ [a])"
    by (rule tl_linked_cong) (use du ab e(3) d in \<open>auto simp: n\<close>)
  moreover have "tl_linked x3 (b # v) \<longleftrightarrow> tl_linked xs (b # v)"
    by (rule tl_linked_cong) (use du ab e(4) d in \<open>auto simp: n\<close>)
  then have "tl_linked x3 (a # nr # b # v)" using ne k(2) by (simp add: n)
  ultimately have "tl_linked x3 ((u @ [a]) @ nr # b # v)" using k(1) tl_linked_split [of x3 u a "nr # b # v"] by simp
  then have "tl_linked x3 (0 # (p @ nr # r) @ [0])" by (simp add: e(1,2) [symmetric])
  moreover have "te_next (x3 ! i) = i \<and> te_prev (x3 ! i) = i" if "i < length xs" "i \<notin> set (0 # p @ nr # r)" for i
  proof -
    have "i \<noteq> a" "i \<noteq> b" "i \<noteq> nr" using that m(5,6) by auto
    then show ?thesis using that assms(1) by (simp add: n tl_rep_def)
  qed
  moreover have t: "map (tl_time x3) p = map (tl_time xs) p" "map (tl_time x3) r = map (tl_time xs) r" "tl_time x3 nr = to"
    using assms(2) by (auto simp: tl_time_def n)
  have "sorted (map (tl_time x3) (p @ nr # r))"
  proof -
    have "sorted (map (tl_time xs) p @ map (tl_time xs) r)" using assms(1) by (simp add: tl_rep_def)
    then have "sorted (map (tl_time xs) p @ to # map (tl_time xs) r)"
      using assms(4,5) by (auto simp: sorted_append less_imp_le)
    then show ?thesis by (simp only: map_append list.map t)
  qed
  ultimately have "tl_rep x3 (p @ nr # r)" using assms(1) d assms(3) unfolding tl_rep_def by (simp add: l n)
  then show ?thesis using u l n unfolding b_def by (intro exI [of _ x3]) auto
qed

lemma search_rep:
  assumes "tl_rep xs (p @ r)"
  shows "tl_search to (last (0 # p)) xs = Some (Inr (hd (dropWhile (\<lambda>i. tl_time xs i < to) r @ [0])))"
  using assms
proof (induction r arbitrary: p)
  case Nil
  note m = rep_between [OF Nil]
  have "\<not> te_timeout (xs ! 0) < to" using Nil by (simp add: tl_rep_def)
  then show ?case using m by (subst tl_search.simps) simp
next
  case (Cons i r)
  note m = rep_between [OF Cons.prems]
  have "tl_search to i xs = Some (Inr (hd (dropWhile (\<lambda>i. tl_time xs i < to) r @ [0])))"
    using Cons.IH [of "p @ [i]"] Cons.prems by simp
  then show ?case using m by (subst tl_search.simps) (simp add: tl_time_def)
qed

section \<open>The operations\<close>

lemma cancel_rep:
  assumes "tl_rep xs q" "tl_valid nr xs"
  shows "\<exists>ys. tl_cancel nr xs = Inr (nr \<in> set q \<and> hd q \<noteq> nr, ys) \<and> tl_rep ys (remove1 nr q) \<and> length ys = length xs
    \<and> (\<forall>i. te_timeout (ys ! i) = te_timeout (xs ! i) \<and> te_data (ys ! i) = te_data (xs ! i) \<and> te_free (ys ! i) = te_free (xs ! i))"
proof -
  have nr: "0 < nr" "nr < length xs" using assms(2) rep_0 [OF assms(1)] by (auto simp: tl_valid_def)
  have z: "te_at 0 xs = Inr (xs ! 0)" using rep_0 [OF assms(1)] by (rule te_simps)
  show ?thesis
  proof (cases "nr \<in> set q")
    case True
    then obtain p r where q: "q = p @ nr # r" "nr \<notin> set p" by (meson split_list_first)
    note rep = assms(1) [unfolded q(1)]
    obtain ys where ys: "tl_unlink nr xs = Inr ys" "tl_rep ys (p @ r)" "length ys = length xs"
        "\<forall>i. te_timeout (ys ! i) = te_timeout (xs ! i) \<and> te_data (ys ! i) = te_data (xs ! i) \<and> te_free (ys ! i) = te_free (xs ! i)"
      using unlink_rep [OF rep] by blast
    have "te_next (xs ! nr) \<noteq> nr" using rep_member(2,8) [OF rep] by simp
    moreover have "te_next (xs ! 0) = hd q" using rep_head(1) [OF assms(1)] q(1) by (cases p) auto
    moreover have "remove1 nr q = p @ r" using q by (simp add: remove1_append)
    ultimately show ?thesis using ys nr assms(2) True z by (simp add: tl_cancel_def)
  next
    case False
    then have "te_next (xs ! nr) = nr" using assms(1) nr by (simp add: tl_rep_def)
    then show ?thesis using False assms nr by (simp add: tl_cancel_def remove1_idem)
  qed
qed

lemma request_rep:
  assumes "tl_rep xs q" "tl_valid nr xs"
  shows "\<exists>b ys q'. tl_request nr to xs = Some (Inr (b, ys)) \<and> tl_rep ys q' \<and> set q' = insert nr (set q) \<and> length ys = length xs
    \<and> (\<forall>i. te_timeout (ys ! i) = (if i = nr then to else te_timeout (xs ! i))
        \<and> te_data (ys ! i) = te_data (xs ! i) \<and> te_free (ys ! i) = te_free (xs ! i))
    \<and> (b \<longleftrightarrow> tl_timeout ys = tl_timeout xs)"
proof -
  obtain b x1 where c: "tl_cancel nr xs = Inr (b, x1)" "tl_rep x1 (remove1 nr q)" "length x1 = length xs"
      "\<forall>i. te_timeout (x1 ! i) = te_timeout (xs ! i) \<and> te_data (x1 ! i) = te_data (xs ! i) \<and> te_free (x1 ! i) = te_free (xs ! i)"
    using cancel_rep [OF assms] by blast
  have nr: "0 < nr" "nr < length xs" using assms(2) rep_0 [OF assms(1)] by (auto simp: tl_valid_def)
  have d: "distinct q" using assms(1) by (simp add: tl_rep_def)
  define p where "p = takeWhile (\<lambda>i. tl_time x1 i < to) (remove1 nr q)"
  define r where "r = dropWhile (\<lambda>i. tl_time x1 i < to) (remove1 nr q)"
  have pr: "p @ r = remove1 nr q" by (simp add: p_def r_def)
  have rep: "tl_rep x1 (p @ r)" using c(2) pr by simp
  have "sorted (map (tl_time x1) r)" using rep by (simp add: tl_rep_def sorted_append)
  moreover have "to \<le> tl_time x1 (hd r)" if "r \<noteq> []"
    using hd_dropWhile [of "\<lambda>i. tl_time x1 i < to" "remove1 nr q"] that by (simp add: r_def)
  ultimately have "\<forall>i \<in> set r. to \<le> tl_time x1 i" by (cases r) (auto intro: order_trans)
  moreover have "\<forall>i \<in> set p. tl_time x1 i < to" by (auto simp: p_def dest: set_takeWhileD)
  moreover have n: "nr \<notin> set (p @ r)" using d by (simp only: pr) (simp add: set_remove1_eq)
  ultimately obtain ys where ys: "tl_link_before (hd (r @ [0])) nr to x1 = Inr ys" "tl_rep ys (p @ nr # r)" "length ys = length x1"
      "\<forall>i. te_timeout (ys ! i) = (if i = nr then to else te_timeout (x1 ! i))
         \<and> te_data (ys ! i) = te_data (x1 ! i) \<and> te_free (ys ! i) = te_free (x1 ! i)"
    using link_rep [OF rep, of nr to] nr c(3) by auto
  have "tl_search to 0 x1 = Some (Inr (hd (r @ [0])))" using search_rep [of x1 "[]" "remove1 nr q" to] c(2) by (simp add: r_def)
  moreover obtain old new where t: "tl_timeout xs = Inr old" "tl_timeout ys = Inr new"
    using rep_head(3) [OF assms(1)] rep_head(3) [OF ys(2)] by blast
  ultimately have "tl_request nr to xs = Some (Inr (new = old, ys))" using c(1) ys(1) assms(2) by (simp add: tl_request_def)
  moreover have "set (p @ nr # r) = insert nr (set q)"
  proof -
    have "set (p @ nr # r) = insert nr (set (p @ r))" by auto
    then show ?thesis using d by (simp only: pr) (auto simp: set_remove1_eq)
  qed
  ultimately show ?thesis using ys c t by (intro exI [of _ "new = old"] exI [of _ ys] exI [of _ "p @ nr # r"]) auto
qed

text \<open>The array holds the requests \<^term>\<open>m\<close>.\<close>

lemma tl_init_holds:
  assumes "tl_init n = Inr xs"
  shows "tl_holds xs Map.empty"
proof -
  have "tl_rep xs []" using assms by (auto simp: tl_init_def te_mod_def tl_rep_def nth_list_update split: if_splits)
  then show ?thesis unfolding tl_holds_def by (intro exI [of _ "[]"]) auto
qed

lemma holds_cong:
  assumes "tl_holds xs m" "length ys = length xs"
    and "\<And>i. te_next (ys ! i) = te_next (xs ! i) \<and> te_prev (ys ! i) = te_prev (xs ! i) \<and> te_timeout (ys ! i) = te_timeout (xs ! i)"
  shows "tl_holds ys m"
proof -
  have "tl_time ys = tl_time xs" using assms(3) by (simp add: tl_time_def fun_eq_iff)
  then show ?thesis using assms(1) rep_cong [OF _ assms(2,3)] unfolding tl_holds_def by metis
qed

lemma same_after_update: "g (v :: 'a) = g (xs ! i) \<Longrightarrow> g (xs[i := v] ! j) = g (xs ! j)"
  by (cases "i < length xs"; cases "i = j") (simp_all add: list_update_beyond)

lemma alloc_holds:
  assumes "tl_holds xs m" "tl_alloc d xs = Inr (i, ys)"
  shows "tl_holds ys m"
  using assms(2) by (intro holds_cong [OF assms(1)]) (auto simp: tl_alloc_def split: option.splits intro!: same_after_update)

lemma cancel_holds:
  assumes "tl_holds xs m" "tl_cancel nr xs = Inr (b, ys)"
  shows "tl_holds ys (m(nr := None))"
proof -
  obtain q where q: "tl_rep xs q" "m = (\<lambda>i. if i \<in> set q then Some (tl_time xs i) else None)"
    using assms(1) by (auto simp: tl_holds_def)
  have v: "tl_valid nr xs" using assms(2) by (auto simp: tl_cancel_def split: if_splits)
  have d: "distinct q" using q(1) by (simp add: tl_rep_def)
  have c: "tl_rep ys (remove1 nr q)" "\<forall>i. te_timeout (ys ! i) = te_timeout (xs ! i)"
    using cancel_rep [OF q(1) v] assms(2) by auto
  have "m(nr := None) = (\<lambda>i. if i \<in> set (remove1 nr q) then Some (tl_time ys i) else None)"
    using c(2) d by (auto simp: q(2) tl_time_def fun_eq_iff set_remove1_eq)
  then show ?thesis using c(1) unfolding tl_holds_def by blast
qed

lemma dealloc_holds:
  assumes "tl_holds xs m" "tl_dealloc nr wc xs = Inr (b, ys)"
  shows "tl_holds ys (if wc \<and> b then m(nr := None) else m)"
proof (cases "b")
  case True
  then obtain b' x1 where x: "(if wc then tl_cancel nr xs else Inr (False, xs)) = Inr (b', x1)"
      "te_mod nr (\<lambda>e. e\<lparr>te_free := True, te_data := None\<rparr>) x1 = Inr ys"
    using assms(2) by (auto simp: tl_dealloc_def bindR_eq_Inr split: if_splits)
  have "tl_holds x1 (if wc then m(nr := None) else m)"
    using x(1) assms(1) cancel_holds [OF assms(1), of nr b' x1] by (auto split: if_splits)
  moreover have y: "ys = x1[nr := (x1 ! nr)\<lparr>te_free := True, te_data := None\<rparr>]" using x(2) by (auto simp: te_mod_def split: if_splits)
  have "tl_holds ys (if wc then m(nr := None) else m)"
    by (rule holds_cong [OF calculation]) (simp_all add: y same_after_update)
  then show ?thesis using True by simp
next
  case False
  then have "ys = xs" using assms(2) by (auto simp: tl_dealloc_def bindR_eq_Inr split: if_splits)
  then show ?thesis using assms(1) False by simp
qed

lemma request_holds:
  assumes "tl_holds xs m" "tl_valid nr xs"
  shows "\<exists>b ys. tl_request nr to xs = Some (Inr (b, ys)) \<and> tl_holds ys (m(nr \<mapsto> to))
    \<and> length ys = length xs \<and> (b \<longleftrightarrow> tl_timeout ys = tl_timeout xs)"
proof -
  obtain q where q: "tl_rep xs q" "m = (\<lambda>i. if i \<in> set q then Some (tl_time xs i) else None)"
    using assms(1) by (auto simp: tl_holds_def)
  obtain b ys q' where r: "tl_request nr to xs = Some (Inr (b, ys))" "tl_rep ys q'" "set q' = insert nr (set q)" "length ys = length xs"
      "\<forall>i. te_timeout (ys ! i) = (if i = nr then to else te_timeout (xs ! i))" "b \<longleftrightarrow> tl_timeout ys = tl_timeout xs"
    using request_rep [OF q(1) assms(2), of to] by blast
  have "m(nr \<mapsto> to) = (\<lambda>i. if i \<in> set q' then Some (tl_time ys i) else None)"
    using r(3,5) by (auto simp: q(2) tl_time_def fun_eq_iff)
  then show ?thesis using r unfolding tl_holds_def by blast
qed

lemma request_invalid: "\<not> tl_valid nr xs \<Longrightarrow> tl_request nr to xs = Some (Inl (Throw E_ASSERT))"
  by (simp add: tl_request_def)

lemma tl_reach_holds: "tl_reach xs m \<Longrightarrow> tl_holds xs m"
proof (induction rule: tl_reach.induct)
  case (tl_reach_request xs m nr to b xs')
  then have "tl_valid nr xs" using request_invalid [of nr xs to] by auto
  then obtain b' ys where r: "tl_request nr to xs = Some (Inr (b', ys))" "tl_holds ys (m(nr \<mapsto> to))"
    using request_holds [OF tl_reach_request.IH] by blast
  moreover have "ys = xs'" using r(1) tl_reach_request.hyps(2) by simp
  ultimately show ?case by blast
qed (blast intro: tl_init_holds alloc_holds dealloc_holds cancel_holds)+

text \<open>The earliest of the pending times, the largest time if there is none.\<close>

lemma holds_earliest:
  assumes "tl_holds xs m"
  shows "tl_timeout xs = Inr (tl_earliest m)"
    and "\<exists>d. tl_trigger now xs = Inr (if dom m \<noteq> {} \<and> tl_earliest m \<le> now then (te_next (xs ! 0), te_data (xs ! te_next (xs ! 0))) else (0, d))"
    and "dom m \<noteq> {} \<Longrightarrow> m (te_next (xs ! 0)) = Some (tl_earliest m)" "finite (dom m)"
proof -
  obtain q where q: "tl_rep xs q" and m: "m = (\<lambda>i. if i \<in> set q then Some (tl_time xs i) else None)"
    using assms by (auto simp: tl_holds_def)
  have dm: "dom m = set q" by (auto simp: m dom_def)
  then show "finite (dom m)" by simp
  have rm: "ran m = tl_time xs ` set q" by (auto simp: m ran_def)
  have e: "tl_earliest m = (case q of [] \<Rightarrow> - 1 | i # _ \<Rightarrow> tl_time xs i)"
  proof (cases q)
    case (Cons i r)
    have "\<forall>j \<in> set q. tl_time xs i \<le> tl_time xs j" using q Cons by (auto simp: tl_rep_def)
    then have "Min (ran m) = tl_time xs i" unfolding rm using Cons by (intro Min_eqI) auto
    then show ?thesis using Cons by (simp add: tl_earliest_def dm)
  qed (simp add: tl_earliest_def dm)
  note h = rep_head [OF q]
  show t: "tl_timeout xs = Inr (tl_earliest m)" using h(3) e by simp
  have z: "te_at 0 xs = Inr (xs ! 0)" using rep_0 [OF q] by (rule te_simps)
  show "\<exists>d. tl_trigger now xs = Inr (if dom m \<noteq> {} \<and> tl_earliest m \<le> now then (te_next (xs ! 0), te_data (xs ! te_next (xs ! 0))) else (0, d))"
    using h(1,2) by (cases q) (auto simp: tl_trigger_def t z dm e)
  show "m (te_next (xs ! 0)) = Some (tl_earliest m)" if "dom m \<noteq> {}"
    using that h(1) e by (cases q) (auto simp: dm m)
qed

section \<open>Properties\<close>

text \<open>Claim C11. The timeout list is a correct priority queue of its pending requests: in every state reached by
  allocating, releasing, cancelling and requesting, with m the partial function of the requests that are
  pending, the head time is the earliest pending one; trigger returns an entry whose time is the earliest of all, with
  its data, exactly if that time has come, and 0 otherwise; a request for a valid entry always returns, and tells
  whether the earliest time is unchanged.\<close>

theorem timeout_list_correct:
  assumes "tl_reach xs m"
  shows "tl_timeout xs = Inr (tl_earliest m)
    \<and> (if \<exists>i t. m i = Some t \<and> t \<le> now
       then \<exists>i t. tl_trigger now xs = Inr (i, te_data (xs ! i)) \<and> m i = Some t \<and> t \<le> now \<and> (\<forall>u \<in> ran m. t \<le> u)
       else \<exists>d. tl_trigger now xs = Inr (0, d))
    \<and> (0 < nr \<and> nr < length xs \<longrightarrow>
        (\<exists>ys. tl_request nr to xs = Some (Inr (tl_earliest (m(nr \<mapsto> to)) = tl_earliest m, ys)) \<and> tl_reach ys (m(nr \<mapsto> to)) \<and> length ys = length xs))"
proof -
  note h = tl_reach_holds [OF assms]
  note e = holds_earliest [OF h]
  have min: "tl_earliest m \<le> u" if "u \<in> ran m" for u
    using that e(4) by (auto simp: tl_earliest_def finite_ran ran_def)
  have "(\<exists>i t. m i = Some t \<and> t \<le> now) \<longleftrightarrow> dom m \<noteq> {} \<and> tl_earliest m \<le> now"
    using e(3) min by (blast intro: ranI order_trans)
  then have "if \<exists>i t. m i = Some t \<and> t \<le> now
       then \<exists>i t. tl_trigger now xs = Inr (i, te_data (xs ! i)) \<and> m i = Some t \<and> t \<le> now \<and> (\<forall>u \<in> ran m. t \<le> u)
       else \<exists>d. tl_trigger now xs = Inr (0, d)"
    using e(2) [of now] e(3) min by auto
  moreover have "\<exists>ys. tl_request nr to xs = Some (Inr (tl_earliest (m(nr \<mapsto> to)) = tl_earliest m, ys)) \<and> tl_reach ys (m(nr \<mapsto> to)) \<and> length ys = length xs"
    if "0 < nr" "nr < length xs"
  proof -
    have "tl_valid nr xs" using that by (auto simp: tl_valid_def)
    then obtain b ys where r: "tl_request nr to xs = Some (Inr (b, ys))" "tl_holds ys (m(nr \<mapsto> to))" "length ys = length xs" "b \<longleftrightarrow> tl_timeout ys = tl_timeout xs"
      using request_holds [OF h, of nr to] by blast
    have "b \<longleftrightarrow> tl_earliest (m(nr \<mapsto> to)) = tl_earliest m" using holds_earliest(1) [OF r(2)] e(1) r(4) by simp
    then show ?thesis using r(1,3) tl_reach_request [OF assms r(1)] by blast
  qed
  ultimately show ?thesis using e(1) by blast
qed

text \<open>Two entries, the second one is due first.\<close>

theorem timeout_list_correct_witness:
  "\<exists>xs :: u8 tlist. tl_reach xs [2 \<mapsto> 30, 3 \<mapsto> 20] \<and> tl_timeout xs = Inr 20
     \<and> (\<exists>i t. tl_trigger 25 xs = Inr (i, te_data (xs ! i)) \<and> [2 \<mapsto> 30, 3 \<mapsto> 20 :: u64] i = Some t \<and> t \<le> 25)"
proof -
  let ?m = "[2 \<mapsto> 30, 3 \<mapsto> 20] :: nat \<rightharpoonup> u64"
  obtain x0 :: "u8 tlist" where x0: "tl_init 4 = Inr x0" "length x0 = 4" by (simp add: tl_init_def te_mod_def)
  have r0: "tl_reach x0 Map.empty" by (rule tl_reach_init [OF x0(1)])
  obtain x1 :: "u8 tlist" where x1: "tl_reach x1 [2 \<mapsto> 30]" "length x1 = 4"
    using timeout_list_correct [OF r0, of 0 2 30] x0(2) by auto
  obtain x2 :: "u8 tlist" where x2: "tl_reach x2 [2 \<mapsto> 30, 3 \<mapsto> 20]"
    using timeout_list_correct [OF x1(1), of 0 3 20] x1(2) by auto
  have "tl_earliest ?m = 20" by (simp add: tl_earliest_def)
  moreover have "\<exists>i t. ?m i = Some t \<and> t \<le> 25" by (intro exI [of _ 3] exI [of _ 20]) simp
  ultimately have "tl_timeout x2 = Inr 20 \<and> (\<exists>i t. tl_trigger 25 x2 = Inr (i, te_data (x2 ! i)) \<and> ?m i = Some t \<and> t \<le> 25)"
    using timeout_list_correct [OF x2, of 25] by (simp del: fun_upd_apply) blast
  then show ?thesis using x2 by blast
qed

end
