(* ===== verification/Dma.thy ===== *)
theory Dma
  imports MathUtil
begin

text \<open>
  Lists of DMA descriptors (\<^verbatim>\<open>include/util/DMA.h\<close>): a fixed array of descriptors, each a range of a dataspace, and
  the copy between a buffer and the ranges. Dataspace and buffer are lists of bytes; addresses of the dataspace are
  64-bit offsets from its start. A copy outside of either is undefined, a failed assertion throws.
\<close>

section \<open>Definitions\<close>

record dmadesc =
  dma_offset :: u64
  dma_count :: u64

record dmalist =
  dml_descs :: "dmadesc list"
  dml_count :: nat
  dml_total :: u64

definition dml_init :: "nat \<Rightarrow> dmalist" where
  "dml_init n = \<lparr>dml_descs = replicate n \<lparr>dma_offset = 0, dma_count = 0\<rparr>, dml_count = 0, dml_total = 0\<rparr>"

definition dml_iter :: "dmalist \<Rightarrow> dmadesc list" where
  "dml_iter l = take (dml_count l) (dml_descs l)"

definition dml_push :: "dmadesc \<Rightarrow> dmalist \<Rightarrow> dmalist res" where
  "dml_push d l =
     (if dml_count l < length (dml_descs l)
      then Inr (l\<lparr>dml_descs := (dml_descs l)[dml_count l := d], dml_count := dml_count l + 1, dml_total := dml_total l + dma_count d\<rparr>)
      else Inl (Throw E_ASSERT))"

definition dml_pop :: "dmalist \<Rightarrow> dmalist res" where
  "dml_pop l =
     (if dml_count l > 0
      then Inr (l\<lparr>dml_total := dml_total l - dma_count (dml_descs l ! (dml_count l - 1)), dml_count := dml_count l - 1\<rparr>)
      else Inl (Throw E_ASSERT))"

definition dml_clear :: "dmalist \<Rightarrow> dmalist" where
  "dml_clear l = l\<lparr>dml_count := 0, dml_total := 0\<rparr>"

text \<open>The first loop: descriptors before the offset are skipped.\<close>

fun dma_skip :: "u64 \<Rightarrow> dmadesc list \<Rightarrow> u64 \<times> dmadesc list" where
  "dma_skip offset [] = (offset, [])"
| "dma_skip offset (d # ds) = (if offset \<ge> dma_count d then dma_skip (offset - dma_count d) ds else (offset, d # ds))"

text \<open>\<^verbatim>\<open>memcpy\<close> between two byte lists.\<close>

definition copy_bytes :: "u8 list \<Rightarrow> nat \<Rightarrow> u8 list \<Rightarrow> nat \<Rightarrow> nat \<Rightarrow> u8 list res" where
  "copy_bytes dst dpos src spos n =
     (if dpos + n \<le> length dst \<and> spos + n \<le> length src
      then Inr (take dpos dst @ take n (drop spos src) @ drop (dpos + n) dst) else Inl Undefined)"

text \<open>The second loop, with the position in the buffer; the result is the number of bytes that are left, the buffer and
  the dataspace.\<close>

fun dma_copy :: "bool \<Rightarrow> dmadesc list \<Rightarrow> u64 \<Rightarrow> u64 \<Rightarrow> nat \<Rightarrow> u8 list \<Rightarrow> u8 list \<Rightarrow> (u64 \<times> u8 list \<times> u8 list) res" where
  "dma_copy out [] len offset pos buf mem = Inr (len, buf, mem)"
| "dma_copy out (d # ds) len offset pos buf mem =
     (if len = 0 then Inr (len, buf, mem)
      else if dma_count d < offset then Inl (Throw E_ASSERT)
      else let sublen = min (dma_count d - offset) len; start = dma_offset d + offset; size = of_nat (length mem)
           in if start > size \<or> start + sublen > size then Inr (len, buf, mem)
              else if out
                   then bindR (copy_bytes mem (unat start) buf pos (unat sublen)) (\<lambda>mem.
                          dma_copy out ds (len - sublen) 0 (pos + unat sublen) buf mem)
                   else bindR (copy_bytes buf pos mem (unat start) (unat sublen)) (\<lambda>buf.
                          dma_copy out ds (len - sublen) 0 (pos + unat sublen) buf mem))"

definition dma_inout :: "bool \<Rightarrow> dmalist \<Rightarrow> u64 \<Rightarrow> u64 \<Rightarrow> u8 list \<Rightarrow> u8 list \<Rightarrow> (bool \<times> u8 list \<times> u8 list) res" where
  "dma_inout out l len offset buf mem =
     (case dma_skip offset (dml_iter l) of (offset, ds) \<Rightarrow>
        bindR (dma_copy out ds len offset 0 buf mem) (\<lambda>(len, buf, mem). Inr (len > 0, buf, mem)))"

definition dma_in :: "dmalist \<Rightarrow> u64 \<Rightarrow> u64 \<Rightarrow> u8 list \<Rightarrow> u8 list \<Rightarrow> (bool \<times> u8 list) res" where
  "dma_in l len offset buf mem = bindR (dma_inout False l len offset buf mem) (\<lambda>(r, buf, _). Inr (r, buf))"

definition dma_out :: "dmalist \<Rightarrow> u64 \<Rightarrow> u64 \<Rightarrow> u8 list \<Rightarrow> u8 list \<Rightarrow> (bool \<times> u8 list) res" where
  "dma_out l len offset buf mem = bindR (dma_inout True l len offset buf mem) (\<lambda>(r, _, mem). Inr (r, mem))"

subsection \<open>Specification\<close>

text \<open>The positions that the descriptors stand for, in order.\<close>

definition dma_range :: "dmadesc \<Rightarrow> nat list" where
  "dma_range d = [unat (dma_offset d)..<unat (dma_offset d) + unat (dma_count d)]"

definition dma_positions :: "dmadesc list \<Rightarrow> nat list" where
  "dma_positions ds = concat (map dma_range ds)"

definition dma_within :: "nat \<Rightarrow> dmadesc list \<Rightarrow> bool" where
  "dma_within n ds \<longleftrightarrow> (\<forall>d \<in> set ds. unat (dma_offset d) + unat (dma_count d) \<le> n)"

text \<open>Storing the bytes \<^term>\<open>bs\<close> at the positions \<^term>\<open>ps\<close>.\<close>

fun store_at :: "nat list \<Rightarrow> u8 list \<Rightarrow> u8 list \<Rightarrow> u8 list" where
  "store_at (p # ps) (b # bs) mem = store_at ps bs (mem[p := b])"
| "store_at _ _ mem = mem"

text \<open>The cached total and the number of descriptors stay consistent.\<close>

definition dml_ok :: "dmalist \<Rightarrow> bool" where
  "dml_ok l \<longleftrightarrow> dml_count l \<le> length (dml_descs l) \<and> dml_total l = sum_list (map dma_count (dml_iter l))"

text \<open>Two ranges of a small dataspace.\<close>

definition two_ranges :: dmalist where
  "two_ranges = \<lparr>dml_descs = [\<lparr>dma_offset = 4, dma_count = 2\<rparr>, \<lparr>dma_offset = 0, dma_count = 3\<rparr>], dml_count = 2, dml_total = 5\<rparr>"

text \<open>A descriptor whose end overflows.\<close>

definition wrapping_range :: dmalist where
  "wrapping_range = \<lparr>dml_descs = [\<lparr>dma_offset = - 2, dma_count = 3\<rparr>], dml_count = 1, dml_total = 3\<rparr>"

section \<open>Adding and removing descriptors\<close>

lemma dml_push_ok:
  assumes "dml_ok l" "dml_push d l = Inr l'"
  shows "dml_ok l'" "dml_iter l' = dml_iter l @ [d]"
proof -
  have c: "dml_count l < length (dml_descs l)" and l': "l' = l\<lparr>dml_descs := (dml_descs l)[dml_count l := d],
      dml_count := dml_count l + 1, dml_total := dml_total l + dma_count d\<rparr>"
    using assms(2) by (auto simp: dml_push_def split: if_splits)
  show i: "dml_iter l' = dml_iter l @ [d]"
    using c by (simp add: l' dml_iter_def take_Suc_conv_app_nth take_update_swap list_update_append)
  show "dml_ok l'" using assms(1) i c by (simp add: dml_ok_def) (simp add: l' Suc_le_eq)
qed

lemma dml_pop_ok:
  assumes "dml_ok l" "dml_pop l = Inr l'"
  shows "dml_ok l'" "dml_iter l' = butlast (dml_iter l)"
proof -
  have c: "0 < dml_count l" "dml_count l \<le> length (dml_descs l)" and l': "l' = l\<lparr>dml_total := dml_total l
      - dma_count (dml_descs l ! (dml_count l - 1)), dml_count := dml_count l - 1\<rparr>"
    using assms by (auto simp: dml_pop_def dml_ok_def split: if_splits)
  obtain n where n: "dml_count l = Suc n" using c(1) gr0_implies_Suc by blast
  have i: "dml_iter l = dml_iter l' @ [dml_descs l ! n]"
    using c n by (simp add: dml_iter_def l' take_Suc_conv_app_nth)
  then show "dml_iter l' = butlast (dml_iter l)" by simp
  have "dml_total l = sum_list (map dma_count (dml_iter l' @ [dml_descs l ! n]))" using assms(1) i by (simp add: dml_ok_def)
  then have "dml_total l - dma_count (dml_descs l ! n) = sum_list (map dma_count (dml_iter l'))" by simp
  then have "dml_total l' = sum_list (map dma_count (dml_iter l'))" using n by (simp add: l')
  then show "dml_ok l'" using c n by (simp add: dml_ok_def) (simp add: l')
qed

section \<open>The loops\<close>

lemma dma_skip_spec:
  assumes "dma_skip offset ds = (offset', ds')"
  shows "drop (unat offset) (dma_positions ds) = drop (unat offset') (dma_positions ds')
    \<and> (case ds' of [] \<Rightarrow> True | d # _ \<Rightarrow> offset' < dma_count d) \<and> set ds' \<subseteq> set ds"
  using assms
proof (induction ds arbitrary: offset)
  case (Cons d ds)
  show ?case
  proof (cases "offset \<ge> dma_count d")
    case True
    then have "drop (unat offset) (dma_positions (d # ds)) = drop (unat (offset - dma_count d)) (dma_positions ds)"
      by (simp add: dma_positions_def dma_range_def unat_sub word_le_nat_alt)
    then show ?thesis using Cons.IH [of "offset - dma_count d"] Cons.prems True by auto
  next
    case False
    then have "offset' = offset" "ds' = d # ds" using Cons.prems by auto
    then show ?thesis using False by (auto simp: not_le)
  qed
qed (auto simp: dma_positions_def)

text \<open>One round of the second loop: the range lies inside of the dataspace and the buffer.\<close>

lemma dma_copy_round:
  assumes "pos + unat len \<le> length buf" "unat len + length mem < 2 ^ 64" "offset \<le> dma_count d" "len \<noteq> 0"
  defines "sublen \<equiv> min (dma_count d - offset) len" and "start \<equiv> dma_offset d + offset"
  assumes "\<not> (start > of_nat (length mem) \<or> start + sublen > of_nat (length mem))"
  shows "unat start + unat sublen \<le> length mem" "unat (len - sublen) = unat len - unat sublen" "unat sublen \<le> unat len"
    "dma_copy True (d # ds) len offset pos buf mem =
       dma_copy True ds (len - sublen) 0 (pos + unat sublen) buf
         (take (unat start) mem @ take (unat sublen) (drop pos buf) @ drop (unat start + unat sublen) mem)"
    "dma_copy False (d # ds) len offset pos buf mem =
       dma_copy False ds (len - sublen) 0 (pos + unat sublen)
         (take pos buf @ take (unat sublen) (drop (unat start) mem) @ drop (pos + unat sublen) buf) mem"
proof -
  have l: "unat (of_nat (length mem) :: u64) = length mem" using assms(2) by (simp add: unat_of_nat)
  have s: "sublen \<le> len" by (simp add: sublen_def)
  then show sn: "unat sublen \<le> unat len" by (simp add: word_le_nat_alt)
  have "unat start \<le> length mem" using assms(7) l by (simp add: word_le_nat_alt not_less)
  then have "unat start + unat sublen < 2 ^ 64" using sn assms(2) by simp
  then have "unat (start + sublen) = unat start + unat sublen" by (intro unat_add_small) simp
  then show b: "unat start + unat sublen \<le> length mem" using assms(7) l by (simp add: word_le_nat_alt not_less)
  show "unat (len - sublen) = unat len - unat sublen" using s by (simp add: unat_sub)
  note e = dma_copy.simps(2) [of _ d ds len offset pos buf mem, unfolded Let_def, folded sublen_def start_def]
  show "dma_copy True (d # ds) len offset pos buf mem =
       dma_copy True ds (len - sublen) 0 (pos + unat sublen) buf
         (take (unat start) mem @ take (unat sublen) (drop pos buf) @ drop (unat start + unat sublen) mem)"
    unfolding e using assms(1,3,4,7) b sn by (simp add: copy_bytes_def leD)
  show "dma_copy False (d # ds) len offset pos buf mem =
       dma_copy False ds (len - sublen) 0 (pos + unat sublen)
         (take pos buf @ take (unat sublen) (drop (unat start) mem) @ drop (pos + unat sublen) buf) mem"
    unfolding e using assms(1,3,4,7) b sn by (simp add: copy_bytes_def leD)
qed

text \<open>No descriptors, however they are chosen, lead the copy out of the dataspace or the buffer.\<close>

lemma dma_copy_defined:
  assumes "pos + unat len \<le> length buf" "unat len + length mem < 2 ^ 64" "case ds of [] \<Rightarrow> True | d # _ \<Rightarrow> offset \<le> dma_count d"
  shows "\<exists>r buf' mem'. dma_copy out ds len offset pos buf mem = Inr (r, buf', mem') \<and> length buf' = length buf \<and> length mem' = length mem"
  using assms
proof (induction ds arbitrary: len offset pos buf mem)
  case (Cons d ds)
  define sublen where "sublen = min (dma_count d - offset) len"
  define start where "start = dma_offset d + offset"
  have o: "offset \<le> dma_count d" using Cons.prems(3) by simp
  show ?case
  proof (cases "len = 0 \<or> start > of_nat (length mem) \<or> start + sublen > of_nat (length mem)")
    case True
    then show ?thesis using o by (auto simp: Let_def start_def sublen_def)
  next
    case False
    then have n: "len \<noteq> 0" "\<not> (start > of_nat (length mem) \<or> start + sublen > of_nat (length mem))" by auto
    note r = dma_copy_round [OF Cons.prems(1,2) o n(1) n(2) [unfolded start_def sublen_def], folded start_def sublen_def]
    have z: "case ds of [] \<Rightarrow> True | d # _ \<Rightarrow> (0 :: u64) \<le> dma_count d" by (cases ds) auto
    show ?thesis
    proof (cases out)
      case True
      then have t: "out = True" by simp
      show ?thesis unfolding t r(4)
        using Cons.IH [OF _ _ z, unfolded t, where len = "len - sublen" and pos = "pos + unat sublen" and buf = buf
          and mem = "take (unat start) mem @ take (unat sublen) (drop pos buf) @ drop (unat start + unat sublen) mem"] r(1-3) Cons.prems(1,2) by auto
    next
      case False
      then have f: "out = False" by simp
      show ?thesis unfolding f r(5)
        using Cons.IH [OF _ _ z, unfolded f, where len = "len - sublen" and pos = "pos + unat sublen" and mem = mem
          and buf = "take pos buf @ take (unat sublen) (drop (unat start) mem) @ drop (pos + unat sublen) buf"] r(1-3) Cons.prems(1,2) by auto
    qed
  qed
qed simp

section \<open>What is copied\<close>

lemma map_nth_block: "s + k \<le> length mem \<Longrightarrow> map ((!) mem) [s..<s + k] = take k (drop s mem)"
  by (rule nth_equalityI) auto

lemma length_store_at [simp]: "length (store_at ps bs mem) = length mem"
  by (induction ps bs mem rule: store_at.induct) auto

lemma store_at_append:
  "length a \<le> length bs \<Longrightarrow> store_at (a @ b) bs mem = store_at b (drop (length a) bs) (store_at a bs mem)"
  by (induction a bs mem rule: store_at.induct) auto

lemma store_at_take: "length ps \<le> n \<Longrightarrow> store_at ps (take n bs) mem = store_at ps bs mem"
  by (induction ps bs mem arbitrary: n rule: store_at.induct) (auto simp: take_Cons' Suc_le_eq)

lemma store_at_block:
  assumes "s + k \<le> length mem" "k \<le> length bs"
  shows "store_at [s..<s + k] bs mem = take s mem @ take k bs @ drop (s + k) mem"
  using assms
proof (induction k arbitrary: s bs mem)
  case (Suc k)
  then obtain b bs' where bs: "bs = b # bs'" by (cases bs) auto
  have "store_at [s..<s + Suc k] bs mem = store_at [Suc s..<Suc s + k] bs' (mem[s := b])"
    by (simp add: upt_conv_Cons bs del: upt_Suc)
  also have "\<dots> = take (Suc s) (mem[s := b]) @ take k bs' @ drop (Suc s + k) (mem[s := b])"
    using Suc.prems by (intro Suc.IH) (auto simp: bs)
  also have "take (Suc s) (mem[s := b]) = take s mem @ [b]" using Suc.prems by (simp add: take_Suc_conv_app_nth take_update_swap list_update_append)
  also have "drop (Suc s + k) (mem[s := b]) = drop (s + Suc k) mem" by simp
  finally show ?case by (simp only: bs take_Suc_Cons append.assoc append.simps)
qed simp

text \<open>The part of the first range behind the offset.\<close>

lemma dma_first_range:
  assumes "dma_within (length mem) (d # ds)" "unat len + length mem < 2 ^ 64" "offset \<le> dma_count d"
  defines "sublen \<equiv> min (dma_count d - offset) len" and "start \<equiv> dma_offset d + offset"
  shows "unat start = unat (dma_offset d) + unat offset" "unat sublen = min (unat (dma_count d) - unat offset) (unat len)"
    "\<not> (start > of_nat (length mem) \<or> start + sublen > of_nat (length mem))"
    "take (unat len) (drop (unat offset) (dma_positions (d # ds)))
       = [unat start..<unat start + unat sublen] @ take (unat (len - sublen)) (dma_positions ds)"
proof -
  have w: "unat (dma_offset d) + unat (dma_count d) \<le> length mem" using assms(1) by (simp add: dma_within_def)
  have o: "unat offset \<le> unat (dma_count d)" using assms(3) by (simp add: word_le_nat_alt)
  show st: "unat start = unat (dma_offset d) + unat offset"
    unfolding start_def using w o assms(2) by (intro unat_add_small) simp
  show sl: "unat sublen = min (unat (dma_count d) - unat offset) (unat len)"
    using assms(3) by (simp add: sublen_def min_def word_le_nat_alt unat_sub)
  have l: "unat (of_nat (length mem) :: u64) = length mem" using assms(2) by (simp add: unat_of_nat)
  have "unat (start + sublen) = unat start + unat sublen" using st sl w o assms(2) by (intro unat_add_small) simp
  then show "\<not> (start > of_nat (length mem) \<or> start + sublen > of_nat (length mem))"
    using st sl w o l by (simp add: word_less_nat_alt)
  have "drop (unat offset) (dma_positions (d # ds)) = [unat start..<unat start + (unat (dma_count d) - unat offset)] @ dma_positions ds"
    using o by (simp add: dma_positions_def dma_range_def st)
  moreover have "take (unat len) [unat start..<unat start + (unat (dma_count d) - unat offset)] = [unat start..<unat start + unat sublen]"
    using sl by (simp add: min_def take_upt)
  moreover have "unat len - (unat (dma_count d) - unat offset) = unat (len - sublen)"
  proof -
    have "sublen \<le> len" by (simp add: sublen_def)
    then show ?thesis using sl by (simp add: min_def unat_sub)
  qed
  ultimately show "take (unat len) (drop (unat offset) (dma_positions (d # ds)))
       = [unat start..<unat start + unat sublen] @ take (unat (len - sublen)) (dma_positions ds)" by simp
qed

lemma dma_copy_in:
  assumes "pos + unat len \<le> length buf" "unat len + length mem < 2 ^ 64" "dma_within (length mem) ds"
    and "case ds of [] \<Rightarrow> True | d # _ \<Rightarrow> offset \<le> dma_count d"
  defines "ps \<equiv> take (unat len) (drop (if ds = [] then 0 else unat offset) (dma_positions ds))"
  shows "dma_copy False ds len offset pos buf mem
    = Inr (len - of_nat (length ps), take pos buf @ map ((!) mem) ps @ drop (pos + length ps) buf, mem)"
  using assms(1-4) unfolding ps_def
proof (induction ds arbitrary: len offset pos buf)
  case (Cons d ds)
  define sublen where "sublen = min (dma_count d - offset) len"
  define start where "start = dma_offset d + offset"
  have o: "offset \<le> dma_count d" using Cons.prems(4) by simp
  note f = dma_first_range [OF Cons.prems(3,2) o, folded sublen_def start_def]
  show ?case
  proof (cases "len = 0")
    case False
    note r = dma_copy_round [OF Cons.prems(1,2) o False f(3) [unfolded start_def sublen_def], folded start_def sublen_def]
    define k where "k = unat sublen"
    define buf' where "buf' = take pos buf @ take k (drop (unat start) mem) @ drop (pos + k) buf"
    have kl: "k \<le> unat len" "pos + k \<le> length buf" "unat start + k \<le> length mem" using r(1,3) Cons.prems(1) by (simp_all add: k_def)
    have w: "dma_within (length mem) ds" using Cons.prems(3) by (simp add: dma_within_def)
    have z: "case ds of [] \<Rightarrow> True | d # _ \<Rightarrow> (0 :: u64) \<le> dma_count d" by (cases ds) auto
    define qs where "qs = take (unat (len - sublen)) (dma_positions ds)"
    have ps: "take (unat len) (drop (unat offset) (dma_positions (d # ds))) = [unat start..<unat start + k] @ qs"
      using f(4) by (simp add: k_def qs_def)
    have "dma_copy False ds (len - sublen) 0 (pos + k) buf' mem
      = Inr (len - sublen - of_nat (length qs), take (pos + k) buf' @ map ((!) mem) qs @ drop (pos + k + length qs) buf', mem)"
      using Cons.IH [OF _ _ w z, of "pos + k" "len - sublen" buf'] r(2) kl Cons.prems(1,2)
      by (simp add: qs_def buf'_def k_def)
    moreover have "take (pos + k) buf' = take pos buf @ map ((!) mem) [unat start..<unat start + k]"
      using kl by (simp add: buf'_def map_nth_block)
    moreover have "drop (pos + k + length qs) buf' = drop (pos + (k + length qs)) buf" using kl by (simp add: buf'_def add_ac)
    moreover have "len - sublen - of_nat (length qs) = len - (of_nat k + of_nat (length qs))" by (simp add: k_def)
    moreover have "dma_copy False (d # ds) len offset pos buf mem = dma_copy False ds (len - sublen) 0 (pos + k) buf' mem"
      unfolding buf'_def k_def by (rule r(5))
    ultimately show ?thesis by (simp add: ps del: dma_copy.simps)
  qed simp
qed (simp add: dma_positions_def)

lemma dma_copy_out:
  assumes "pos + unat len \<le> length buf" "unat len + length mem < 2 ^ 64" "dma_within (length mem) ds"
    and "case ds of [] \<Rightarrow> True | d # _ \<Rightarrow> offset \<le> dma_count d"
  defines "ps \<equiv> take (unat len) (drop (if ds = [] then 0 else unat offset) (dma_positions ds))"
  shows "dma_copy True ds len offset pos buf mem = Inr (len - of_nat (length ps), buf, store_at ps (drop pos buf) mem)"
  using assms(1-4) unfolding ps_def
proof (induction ds arbitrary: len offset pos mem)
  case (Cons d ds)
  define sublen where "sublen = min (dma_count d - offset) len"
  define start where "start = dma_offset d + offset"
  have o: "offset \<le> dma_count d" using Cons.prems(4) by simp
  note f = dma_first_range [OF Cons.prems(3,2) o, folded sublen_def start_def]
  show ?case
  proof (cases "len = 0")
    case False
    note r = dma_copy_round [OF Cons.prems(1,2) o False f(3) [unfolded start_def sublen_def], folded start_def sublen_def]
    define k where "k = unat sublen"
    have kl: "k \<le> unat len" "pos + k \<le> length buf" "unat start + k \<le> length mem" using r(1,3) Cons.prems(1) by (simp_all add: k_def)
    define mem' where "mem' = store_at [unat start..<unat start + k] (drop pos buf) mem"
    have m: "mem' = take (unat start) mem @ take k (drop pos buf) @ drop (unat start + k) mem"
      unfolding mem'_def using kl by (intro store_at_block) auto
    have w: "dma_within (length mem') ds" using Cons.prems(3) by (simp add: dma_within_def mem'_def)
    have z: "case ds of [] \<Rightarrow> True | d # _ \<Rightarrow> (0 :: u64) \<le> dma_count d" by (cases ds) auto
    define qs where "qs = take (unat (len - sublen)) (dma_positions ds)"
    have ps: "take (unat len) (drop (unat offset) (dma_positions (d # ds))) = [unat start..<unat start + k] @ qs"
      using f(4) by (simp add: k_def qs_def)
    have "dma_copy True ds (len - sublen) 0 (pos + k) buf mem'
      = Inr (len - sublen - of_nat (length qs), buf, store_at qs (drop (pos + k) buf) mem')"
      using Cons.IH [OF _ _ w z, of "pos + k" "len - sublen"] r(2) kl Cons.prems(1,2)
      by (simp add: qs_def mem'_def k_def)
    moreover have "store_at qs (drop (pos + k) buf) mem' = store_at ([unat start..<unat start + k] @ qs) (drop pos buf) mem"
      using kl by (simp add: store_at_append mem'_def add.commute)
    moreover have "len - sublen - of_nat (length qs) = len - (of_nat k + of_nat (length qs))" by (simp add: k_def)
    moreover have "dma_copy True (d # ds) len offset pos buf mem = dma_copy True ds (len - sublen) 0 (pos + k) buf mem'"
      unfolding m k_def by (rule r(4))
    ultimately show ?thesis by (simp add: ps del: dma_copy.simps)
  qed simp
qed (simp add: dma_positions_def)

lemma store_at_other: "i \<notin> set ps \<Longrightarrow> store_at ps bs mem ! i = mem ! i"
  by (induction ps bs mem rule: store_at.induct) auto

lemma store_at_get:
  "distinct ps \<Longrightarrow> set ps \<subseteq> {..< length mem} \<Longrightarrow> length ps \<le> length bs \<Longrightarrow>
     map ((!) (store_at ps bs mem)) ps = take (length ps) bs"
  by (induction ps bs mem rule: store_at.induct) (auto simp: store_at_other)

lemma dma_positions_within: "dma_within n ds \<Longrightarrow> set (dma_positions ds) \<subseteq> {..< n}"
  by (fastforce simp: dma_positions_def dma_range_def dma_within_def)

text \<open>The copy of a whole call. The result is true if the ranges were too short.\<close>

lemma dma_inout_exact:
  assumes "unat len \<le> length buf" "unat len + length mem < 2 ^ 64" "dma_within (length mem) (dml_iter l)"
    and ps_def: "ps = take (unat len) (drop (unat offset) (dma_positions (dml_iter l)))"
  shows "dma_inout False l len offset buf mem = Inr (length ps < unat len, map ((!) mem) ps @ drop (length ps) buf, mem)"
    "dma_inout True l len offset buf mem = Inr (length ps < unat len, buf, store_at ps buf mem)"
proof -
  obtain o' ds' where s: "dma_skip offset (dml_iter l) = (o', ds')" by (cases "dma_skip offset (dml_iter l)")
  note k = dma_skip_spec [OF s]
  have w: "dma_within (length mem) ds'" using k assms(3) by (auto simp: dma_within_def)
  have c: "case ds' of [] \<Rightarrow> True | d # _ \<Rightarrow> o' \<le> dma_count d" using k by (cases ds') auto
  have ps: "take (unat len) (drop (if ds' = [] then 0 else unat o') (dma_positions ds')) = ps"
    using k by (cases ds') (auto simp: ps_def dma_positions_def)
  have n: "length ps \<le> unat len" by (simp add: ps_def)
  have "(of_nat (length ps) :: u64) \<le> len" using n unat_bound [of len] by (simp add: word_le_nat_alt unat_of_nat)
  then have "unat (len - of_nat (length ps)) = unat len - length ps"
    using n unat_bound [of len] by (simp add: unat_sub unat_of_nat)
  then have g: "(0 < len - of_nat (length ps)) = (length ps < unat len)" by (simp add: word_less_nat_alt)
  show "dma_inout False l len offset buf mem = Inr (length ps < unat len, map ((!) mem) ps @ drop (length ps) buf, mem)"
    using dma_copy_in [OF _ assms(2) w c, of 0 buf] assms(1) by (simp add: dma_inout_def s ps g)
  show "dma_inout True l len offset buf mem = Inr (length ps < unat len, buf, store_at ps buf mem)"
    using dma_copy_out [OF _ assms(2) w c, of 0 buf] assms(1) by (simp add: dma_inout_def s ps g)
qed

section \<open>Properties\<close>

text \<open>Claim C30. A transfer never leaves the dataspace or the buffer, whatever the descriptors are that a client
  has sent: if the length of the transfer fits into the buffer and does not overflow together with the size of the
  dataspace, the copy returns without a failed assertion and without an access out of bounds.\<close>

theorem dma_never_overruns:
  assumes "unat len \<le> length buf" "unat len + length mem < 2 ^ 64"
  shows "\<exists>r buf' mem'. dma_inout out l len offset buf mem = Inr (r, buf', mem')
    \<and> length buf' = length buf \<and> length mem' = length mem"
proof -
  obtain o' ds' where s: "dma_skip offset (dml_iter l) = (o', ds')" by (cases "dma_skip offset (dml_iter l)")
  have "case ds' of [] \<Rightarrow> True | d # _ \<Rightarrow> o' \<le> dma_count d" using dma_skip_spec [OF s] by (cases ds') auto
  then obtain r buf' mem' where "dma_copy out ds' len o' 0 buf mem = Inr (r, buf', mem')" "length buf' = length buf" "length mem' = length mem"
    using dma_copy_defined [where pos = 0 and buf = buf and ds = ds' and offset = o' and out = out, OF _ assms(2)] assms(1) by auto
  then show ?thesis by (simp add: dma_inout_def s)
qed

text \<open>Claim C12. A transfer moves exactly the bytes of the descriptors' ranges, taken as one sequence of positions of
  which the first ones are skipped. If all ranges lie inside of the dataspace and no position occurs twice, and the length fits
  the buffer and does not overflow together with the size of the dataspace, reading fills the buffer with the bytes at these
  positions in order and leaves the rest of it alone, writing stores the buffer there and nowhere else, and reading back returns what was written.\<close>

theorem dma_transfer_exact:
  assumes "unat len \<le> length buf" "unat len + length mem < 2 ^ 64" "dma_within (length mem) (dml_iter l)"
    and "distinct (dma_positions (dml_iter l))" "length buf2 = length buf"
    and "ps = take (unat len) (drop (unat offset) (dma_positions (dml_iter l)))"
  shows "(\<exists>r. dma_in l len offset buf mem = Inr (r, map ((!) mem) ps @ drop (length ps) buf))
    \<and> (\<exists>r mem'. dma_out l len offset buf mem = Inr (r, mem') \<and> length mem' = length mem
        \<and> (\<forall>i. i \<notin> set ps \<longrightarrow> mem' ! i = mem ! i)
        \<and> (\<exists>r. dma_in l len offset buf2 mem' = Inr (r, take (length ps) buf @ drop (length ps) buf2)))"
proof -
  note e = dma_inout_exact [OF assms(1-3,6)]
  define mem' where "mem' = store_at ps buf mem"
  have l: "length mem' = length mem" by (simp add: mem'_def)
  have d: "distinct ps" "set ps \<subseteq> {..< length mem}" "length ps \<le> length buf"
    using assms(1,4) dma_positions_within [OF assms(3)] by (auto simp: assms(6) dest: in_set_takeD in_set_dropD)
  have "dma_inout False l len offset buf2 mem' = Inr (length ps < unat len, map ((!) mem') ps @ drop (length ps) buf2, mem')"
    using dma_inout_exact(1) [of len buf2 mem' l ps offset] assms by (simp add: l)
  moreover have "map ((!) mem') ps = take (length ps) buf" unfolding mem'_def by (rule store_at_get [OF d])
  ultimately have "dma_in l len offset buf2 mem' = Inr (length ps < unat len, take (length ps) buf @ drop (length ps) buf2)"
    by (simp add: dma_in_def)
  moreover have "dma_out l len offset buf mem = Inr (length ps < unat len, mem')" by (simp add: dma_out_def e(2) mem'_def)
  moreover have "\<forall>i. i \<notin> set ps \<longrightarrow> mem' ! i = mem ! i" by (simp add: mem'_def store_at_other)
  ultimately show ?thesis using l by (auto simp: dma_in_def e(1))
qed

theorem dma_never_overruns_witness:
  "\<exists>r buf' mem'. dma_inout True wrapping_range 2 0 [1, 2] [0, 0, 0, 0]
     = Inr (r, buf', mem') \<and> length buf' = length [1, 2 :: u8] \<and> length mem' = length [0, 0, 0, 0 :: u8]"
  by (rule dma_never_overruns) simp_all

theorem dma_transfer_exact_witness:
  "(\<exists>r. dma_in two_ranges 3 1 [9, 9, 9] [10, 11, 12, 13, 14, 15] = Inr (r, [15, 10, 11]))
    \<and> (\<exists>r mem'. dma_out two_ranges 3 1 [9, 9, 9] [10, 11, 12, 13, 14, 15] = Inr (r, mem')
        \<and> (\<exists>r. dma_in two_ranges 3 1 [0, 0, 0] mem' = Inr (r, [9, 9, 9])))"
proof -
  have p: "dml_iter two_ranges = [\<lparr>dma_offset = 4, dma_count = 2\<rparr>, \<lparr>dma_offset = 0, dma_count = 3\<rparr>]"
    by (simp add: dml_iter_def two_ranges_def)
  have q: "dma_positions (dml_iter two_ranges) = [4, 5, 0, 1, 2]"
    by (simp add: p dma_positions_def dma_range_def upt_rec)
  have w: "dma_within (length [10, 11, 12, 13, 14, 15 :: u8]) (dml_iter two_ranges)" by (simp add: p dma_within_def)
  show ?thesis using dma_transfer_exact [of 3 "[9, 9, 9]" "[10, 11, 12, 13, 14, 15]" two_ranges "[0, 0, 0]" "[5, 0, 1]" 1] w
    by (simp add: q) blast
qed

end
