(* ===== verification/DataSpaces.thy ===== *)
theory DataSpaces
  imports Treap
begin

text \<open>
  Dataspace descriptors (\<^verbatim>\<open>include/mem/DataSpaceDesc.h\<close>) and the manager that counts the references to
  dataspaces (\<^verbatim>\<open>include/mem/DataSpaceManager.h\<close>). The manager keeps its slots in an array, the free ones in a
  chain, the used ones in a treap with the unmap selector as key. The dataspace that a constructor call of
  \<^verbatim>\<open>DS\<close> makes, or the error it throws, is an argument. An operation returns its result or exception together with
  the state after it, because an exception does not undo what was done before.
\<close>

section \<open>Definitions\<close>

datatype ds_type = Ds_anonymous | Ds_virtual | Ds_locked

record ds_desc =
  dd_virt :: u64
  dd_phys :: u64
  dd_origin :: u64
  dd_size :: u64
  dd_align :: u32
  dd_flags :: u32
  dd_type :: ds_type

record dataspace =
  dsp_desc :: ds_desc
  dsp_sel :: u32
  dsp_unmapsel :: u32

record ds_slot =
  st_ds :: "dataspace option"
  st_refs :: u32
  st_key :: u32
  st_next :: "nat option"

record dsm =
  dm_tree :: "u32 treap_state"
  dm_free :: "nat option"
  dm_slots :: "ds_slot list"





definition dsm_find_unmap :: "u32 \<Rightarrow> dsm \<Rightarrow> nat option" where
  "dsm_find_unmap sel m = treap_lookup (dm_tree m) sel"

definition dsm_find_free :: "dsm \<Rightarrow> nat res \<times> dsm" where
  "dsm_find_free m = (case dm_free m of None \<Rightarrow> (Inl (Throw E_CAPACITY), m)
     | Some s \<Rightarrow> (Inr s, m\<lparr>dm_free := st_next (dm_slots m ! s)\<rparr>))"

text \<open>The steps that \<^verbatim>\<open>create\<close> and \<^verbatim>\<open>join\<close> share: a free slot is taken, the dataspace is constructed, stored and indexed.\<close>

definition dsm_insert :: "dataspace res \<Rightarrow> dsm \<Rightarrow> dataspace res \<times> dsm" where
  "dsm_insert made m =
     (case dsm_find_free m of
        (Inl e, m) \<Rightarrow> (Inl e, m)
      | (Inr s, m) \<Rightarrow>
          (case made of
             Inl e \<Rightarrow> (Inl e, m)
           | Inr d \<Rightarrow> (Inr d, m\<lparr>dm_slots := (dm_slots m)[s := (dm_slots m ! s)\<lparr>st_ds := Some d, st_refs := 1, st_key := dsp_unmapsel d\<rparr>],
               dm_tree := treap_insert (dm_tree m) s (dsp_unmapsel d)\<rparr>)))"

definition dsm_create :: "dataspace res \<Rightarrow> dsm \<Rightarrow> dataspace res \<times> dsm" where
  "dsm_create made m = dsm_insert made m"





subsection \<open>Specification\<close>

text \<open>The live dataspaces with the number of their references.\<close>

definition dsm_live :: "dsm \<Rightarrow> u32 \<rightharpoonup> dataspace \<times> nat" where
  "dsm_live m k = (case dsm_find_unmap k m of None \<Rightarrow> None
     | Some s \<Rightarrow> map_option (\<lambda>d. (d, unat (st_refs (dm_slots m ! s)))) (st_ds (dm_slots m ! s)))"

text \<open>The chain of free slots.\<close>

fun dsm_free_chain :: "ds_slot list \<Rightarrow> nat option \<Rightarrow> nat list \<Rightarrow> bool" where
  "dsm_free_chain ss f [] \<longleftrightarrow> f = None"
| "dsm_free_chain ss f (s # r) \<longleftrightarrow> f = Some s \<and> dsm_free_chain ss (st_next (ss ! s)) r"

definition dsm_inv :: "dsm \<Rightarrow> (u32 \<rightharpoonup> nat) \<Rightarrow> nat list \<Rightarrow> bool" where
  "dsm_inv m used fs \<longleftrightarrow> treap_inv (dm_tree m) used \<and> dsm_free_chain (dm_slots m) (dm_free m) fs
     \<and> distinct fs \<and> set fs \<subseteq> {..< length (dm_slots m)} \<and> set fs \<inter> ran used = {} \<and> ran used \<subseteq> {..< length (dm_slots m)}
     \<and> (\<forall>k s. used k = Some s \<longrightarrow> (\<exists>d. st_ds (dm_slots m ! s) = Some d \<and> dsp_unmapsel d = k \<and> st_key (dm_slots m ! s) = k
          \<and> st_refs (dm_slots m ! s) \<noteq> 0))
     \<and> (\<forall>s < length (dm_slots m). s \<notin> ran used \<longrightarrow> st_ds (dm_slots m ! s) = None)"





section \<open>Slots\<close>

lemma free_chain_cong:
  "(\<And>s. s \<in> set fs \<Longrightarrow> st_next (ss' ! s) = st_next (ss ! s)) \<Longrightarrow> dsm_free_chain ss' f fs \<longleftrightarrow> dsm_free_chain ss f fs"
  by (induction fs arbitrary: f) auto

lemma free_chain_update [simp]: "s \<notin> set fs \<Longrightarrow> dsm_free_chain (ss[s := v]) f fs \<longleftrightarrow> dsm_free_chain ss f fs"
  by (rule free_chain_cong) (metis nth_list_update_neq)



lemma inv_lookup: "dsm_inv m used fs \<Longrightarrow> dsm_find_unmap k m = used k"
  unfolding dsm_find_unmap_def by (rule treap.lookup_law) (simp add: dsm_inv_def)

lemma inv_used:
  assumes "dsm_inv m used fs" "used k = Some s"
  obtains d where "st_ds (dm_slots m ! s) = Some d" "dsp_unmapsel d = k" "st_key (dm_slots m ! s) = k" "st_refs (dm_slots m ! s) \<noteq> 0"
    "s < length (dm_slots m)" "s \<notin> set fs"
proof -
  have "s \<in> ran used" using assms(2) by (rule ranI)
  then show ?thesis using assms that unfolding dsm_inv_def by blast
qed

lemma inv_live:
  assumes "dsm_inv m used fs"
  shows "dsm_live m k = (case used k of None \<Rightarrow> None
    | Some s \<Rightarrow> Some (the (st_ds (dm_slots m ! s)), unat (st_refs (dm_slots m ! s))))"
proof (cases "used k")
  case (Some s)
  obtain d where "st_ds (dm_slots m ! s) = Some d" by (rule inv_used [OF assms Some])
  then show ?thesis by (simp add: dsm_live_def inv_lookup [OF assms] Some)
qed (simp add: dsm_live_def inv_lookup [OF assms])



lemma free_slot:
  assumes "dsm_inv m used fs"
  shows "dsm_find_free m = (case fs of [] \<Rightarrow> (Inl (Throw E_CAPACITY), m) | s # _ \<Rightarrow> (Inr s, m\<lparr>dm_free := st_next (dm_slots m ! s)\<rparr>))"
  using assms by (cases fs) (auto simp: dsm_find_free_def dsm_inv_def)

text \<open>A failed constructor leaves the slot unused: it is neither free nor in use any more.\<close>

lemma insert_failed:
  assumes "dsm_inv m used (s # fs)"
  shows "dsm_insert (Inl e) m = (Inl e, m\<lparr>dm_free := st_next (dm_slots m ! s)\<rparr>)" "dsm_inv (m\<lparr>dm_free := st_next (dm_slots m ! s)\<rparr>) used fs"
  using assms by (auto simp: dsm_insert_def free_slot [OF assms] dsm_inv_def)




section \<open>The operations\<close>











text \<open>A constructor that throws costs a slot for good: it is taken from the free ones and never given back.\<close>

lemma failed_create_loses_slot:
  assumes "dsm_inv m used (s # fs)"
  shows "\<exists>m'. dsm_create (Inl e) m = (Inl e, m') \<and> dsm_inv m' used fs \<and> dsm_live m' = dsm_live m"
proof -
  note i = insert_failed(2) [OF assms]
  have "dsm_live (m\<lparr>dm_free := st_next (dm_slots m ! s)\<rparr>) = dsm_live m"
    by (rule ext) (simp add: inv_live [OF i] inv_live [OF assms] split: option.split)
  then show ?thesis using i insert_failed(1) [OF assms, of e] by (simp add: dsm_create_def)
qed




section \<open>Properties\<close>



end
