(* ===== verification/Spec2Isabelle.thy ===== *)
theory Spec2Isabelle
  imports Prelude MathUtil SList DList Treap QuickSort RegionManager Bus Pic8259 Serial16550 Date Rtc146818 Pit8254 IoApic Ps2Mouse KeyboardUtil Ps2Keyboard KeyboardController Caps Utcb CString Lapic Msi ShmRing TimeoutList Dma DataSpaces
begin

text \<open>
  A verification library for NRE, the NOVA runtime environment, in its x86_64 build.

  NRE runs on the NOVA microhypervisor. A runtime library (\<^verbatim>\<open>include\<close>, \<^verbatim>\<open>libs/libstdc++\<close>) gives tasks containers,
  resource managers, messages through the UTCB, sessions and shared memory. Services (\<^verbatim>\<open>services\<close>) drive the hardware
  and share these parts. The virtual machine monitor (\<^verbatim>\<open>apps/vancouver\<close>) emulates a PC for a guest: device models
  that exchange messages over buses. The development models the computing parts of the library and the interrupt,
  timer, serial and keyboard devices of the monitor; the theories follow the files of the repository.

  \<^bold>\<open>Conventions.\<close> Machine integers are words of their width, so additions and subtractions wrap around as in the code;
  Prelude names the types. An operation that can throw, fail an assertion or run into undefined behaviour returns a result
  type: \<^verbatim>\<open>Inl (Throw code)\<close> for exceptions and assertions, \<^verbatim>\<open>Inl Undefined\<close> for null dereferences, accesses out of the
  bounds of an array, shifts by the width and divisions by zero. State is passed explicitly, messages that a device sends
  are returned or appended to an output list in their order. Linked structures live in an explicit store of pointers.
  Loops that may not end are partial functions into an option type, where None means that the loop does not return; there
  is no fuel in the model, and claims about such loops say that they return. Clock values, replies of other devices and the
  effects of constructors outside of the modelled files are arguments.

  \<^bold>\<open>Library.\<close> Prelude holds the types, the error values, and the facts on words and lists that the components share.
  ListContract, QueueContract, RegionManager, Treap and KeyboardController state the contracts of their interfaces as locales:
  intrusive lists with and without search, bounded queues, pools of disjoint blocks, keyed indices and devices on the
  PS/2 bus. Each is interpreted on the models of the code: lists by SList and DList, queues by the UART FIFO and the
  shared-memory ring, the pool by the region manager, the index by the treap, the devices by keyboard and mouse.

  \<^bold>\<open>Containers and arithmetic.\<close> MathUtil (\<^verbatim>\<open>include/util/Math.h\<close>): rounding, powers of two, bit scans, multiplication and
  division in parts. SList and DList (\<^verbatim>\<open>include/collection/SList.h\<close>, \<^verbatim>\<open>SortedSList.h\<close>, \<^verbatim>\<open>DList.h\<close>): the pointer operations
  implement sequences, and the sorted insertion sorts. Treap (\<^verbatim>\<open>Treap.h\<close>): implements a finite map and keeps both orders.
  QuickSort (\<^verbatim>\<open>QuickSort.h\<close>): sorts below 2^31 elements, for which the 32-bit result of the partition is exact.
  TimeoutList (\<^verbatim>\<open>include/util/TimeoutList.h\<close>): a circular list in an array implements a priority queue.
  Date (\<^verbatim>\<open>include/util/Date.h\<close>, \<^verbatim>\<open>Clock.h\<close>): the calendar conversions are inverse to each other. CString
  (\<^verbatim>\<open>libs/libstdc++/string.c\<close>): the unrolled memory functions equal their byte-wise meaning and the string functions return the
  results of their specification on terminated strings.

  \<^bold>\<open>Resources and messages.\<close> RegionManager (\<^verbatim>\<open>include/region/RegionManager.h\<close>, \<^verbatim>\<open>PortManager.h\<close>): alloc and free keep a
  well-formed list and no two blocks that were handed out overlap. DataSpaces (\<^verbatim>\<open>include/mem/DataSpaceDesc.h\<close>,
  \<^verbatim>\<open>DataSpaceManager.h\<close>): slots, free list and treap implement reference counts. Caps (\<^verbatim>\<open>include/Desc.h\<close>, \<^verbatim>\<open>include/cap\<close>): descriptors,
  revocation of ranges in naturally aligned pieces, selector allocation. Utcb (\<^verbatim>\<open>include/utcb\<close>): nested frames are restored
  and items are read back in order, with the saved frames where the copying variant puts them. ShmRing
  (\<^verbatim>\<open>include/ipc/Producer.h\<close>, \<^verbatim>\<open>Consumer.h\<close>): the ring is a queue under every interleaving, and no wake-up is lost. Dma
  (\<^verbatim>\<open>include/util/DMA.h\<close>): transfers move exactly the described bytes and never leave buffer or dataspace.

  \<^bold>\<open>Devices of the monitor.\<close> Bus (\<^verbatim>\<open>apps/vancouver/bus\<close>): the dispatch of messages. Pic8259, Serial16550, Rtc146818, Pit8254,
  IoApic, Lapic, Ps2Mouse, Ps2Keyboard and KeyboardController model the files of the same name in \<^verbatim>\<open>apps/vancouver/model\<close>,
  KeyboardUtil the scancode tables of \<^verbatim>\<open>keyboardutil.h\<close>, Msi the forwarding of \<^verbatim>\<open>msi.cc\<close> and the APIC bus. A record has
  the fields of the class, one definition stands for one handler or method. The lemmas show the priority rules and
  nesting of both interrupt controllers, exact counter, alarm and time values, first-in first-out order of the UART, delivery
  of interrupts that were masked, the bytes that keyboard and mouse report, and that the handlers return without
  undefined behaviour in reachable states; where the code can leave an array, the claim states exactly when. Two claims follow a
  message through several devices: a pin of the I/O APIC to the local APICs (Msi), and a key of the host through keyboard and
  controller to the guest (KeyboardController).

  \<^bold>\<open>Bounds.\<close> The hypotheses of the claims name the bounds under which the code does what it means to do: alignment
  paddings that fit the region, frames with room for their copies, capability ranges that avoid multiples of 2^32, tick
  values below 2^61, arrays below 2^31. For most of them a lemma beside the claim shows what the code does outside: for example
  alloc_padding_wraps, frame_new_overlaps, minshift_undefined, alloc_at_nothing_free, pit_rate_bcd_phase and failed_create_loses_slot.

  \<^bold>\<open>Not modelled.\<close> System calls and kernel objects, sessions, services and drivers, whose behaviour is that of the kernel or of
  hardware registers; the loader and the root task; the instruction emulator and the BIOS services, which are generated
  inline assembly on host memory; the virtual CPU, the graphics, storage, network and PCI devices; text streams, start-up code,
  the allocator dlmalloc, applications, tests and tools. Of the modelled files, debug output, event counters, the locks around
  operations, the \<^verbatim>\<open>discovery\<close> methods that write ACPI and BIOS tables, string items of UTCB frames and the stack variant
  \<^verbatim>\<open>UtcbStack.h\<close> are left out.
\<close>

end
